(* ===== verification/Prelude.thy ===== *)
theory Prelude
  imports Main "HOL-Library.Word" "HOL-Library.Finite_Map"
begin

text \<open>
  Shared ground of the development: the machine integer types of
  \<^verbatim>\<open>include/detlog/model.hpp\<close>, results that are either an error or a value, the
  conversion of unsigned words to and from little-endian and big-endian byte lists (used by
  the wire codec, the write-ahead log and the command digest), and the facts about words and
  lists that the component theories share.

  \<^item> A \<^verbatim>\<open>std::uint8_t\<close>, \<^verbatim>\<open>std::uint32_t\<close>, \<^verbatim>\<open>std::uint64_t\<close> is a word of that width,
    so that arithmetic wraps as in C++.
  \<^item> A \<^verbatim>\<open>std::size_t\<close> that counts objects in memory is a natural number; every subtraction of
    such sizes in the source is guarded, and the guard is kept in the model.
  \<^item> A \<^verbatim>\<open>std::string\<close> or \<^verbatim>\<open>std::vector<std::byte>\<close> is a list of bytes.
  \<^item> A \<^verbatim>\<open>std::map\<close> is a finite map; iteration in key order is \<open>sorted_list_of_fmap\<close>.
  \<^item> A throwing or failing operation returns \<open>'e + 'a\<close>, with \<open>Inl\<close> for the error.
\<close>

unbundle bit_operations_syntax

named_theorems step_defs \<open>unfolding rules of the operations of a component\<close>
named_theorems inv_intros \<open>introduction rules for preserved invariants\<close>

type_synonym u8 = "8 word"
type_synonym u16 = "16 word"
type_synonym u32 = "32 word"
type_synonym u64 = "64 word"
type_synonym bytes = "u8 list"

section \<open>Results\<close>

definition bind_res :: "'err + 'val \<Rightarrow> ('val \<Rightarrow> 'err + 'res) \<Rightarrow> 'err + 'res" where
  "bind_res m f = (case m of Inl e \<Rightarrow> Inl e | Inr x \<Rightarrow> f x)"

definition guard_res :: "bool \<Rightarrow> 'e \<Rightarrow> 'e + unit" where
  "guard_res c e = (if c then Inl e else Inr ())"

lemma bind_res_simps [simp]:
  "bind_res (Inl e) f = Inl e"
  "bind_res (Inr x) f = f x"
  by (simp_all add: bind_res_def)

lemma bind_res_eq_Inr: "bind_res m f = Inr y \<longleftrightarrow> (\<exists>x. m = Inr x \<and> f x = Inr y)"
  by (cases m) auto

lemma bind_res_eq_Inl: "bind_res m f = Inl e \<longleftrightarrow> m = Inl e \<or> (\<exists>x. m = Inr x \<and> f x = Inl e)"
  by (cases m) auto

lemma guard_res_simps [simp]:
  "guard_res True e = Inl e"
  "guard_res False e = Inr ()"
  "guard_res c e = Inr u \<longleftrightarrow> \<not> c"
  "guard_res c e = Inl e' \<longleftrightarrow> c \<and> e = e'"
  by (auto simp: guard_res_def)

section \<open>Words as byte lists\<close>

text \<open>
  \<open>le_enc n v\<close> lists the \<open>n\<close> low bytes of \<open>v\<close>, least significant first;
  \<open>le_dec\<close> reads such a list. The big-endian forms are their mirror images.
\<close>

fun le_enc :: "nat \<Rightarrow> 'a::len word \<Rightarrow> bytes" where
  "le_enc 0 v = []"
| "le_enc (Suc n) v = ucast v # le_enc n (drop_bit 8 v)"

fun le_dec :: "bytes \<Rightarrow> 'a::len word" where
  "le_dec [] = 0"
| "le_dec (b # bs) = ucast b OR push_bit 8 (le_dec bs)"

definition be_enc :: "nat \<Rightarrow> 'a::len word \<Rightarrow> bytes" where
  "be_enc n v = rev (le_enc n v)"

definition be_dec :: "bytes \<Rightarrow> 'a::len word" where
  "be_dec bs = foldl (\<lambda>v b. push_bit 8 v OR ucast b) 0 bs"

lemma length_le_enc [simp]: "length (le_enc n v) = n"
  by (induction n arbitrary: v) auto

lemma length_be_enc [simp]: "length (be_enc n v) = n"
  by (simp add: be_enc_def)

lemma be_dec_rev: "be_dec bs = le_dec (rev bs)"
proof (induction bs rule: rev_induct)
  case Nil
  then show ?case by (simp add: be_dec_def)
next
  case (snoc b bs)
  then show ?case by (simp add: be_dec_def or.commute)
qed

lemma le_dec_enc_take: "le_dec (le_enc n v) = take_bit (8 * n) (v :: 'a::len word)"
proof (induction n arbitrary: v)
  case 0
  then show ?case by simp
next
  case (Suc n)
  show ?case
    by (rule bit_word_eqI) (auto simp: Suc bit_simps)
qed

lemma le_dec_enc: "LENGTH('a) \<le> 8 * n \<Longrightarrow> le_dec (le_enc n v) = (v :: 'a::len word)"
  by (simp add: le_dec_enc_take take_bit_word_eq_self)

lemma le_enc_dec:
  "length bs = n \<Longrightarrow> 8 * n \<le> LENGTH('a) \<Longrightarrow> le_enc n (le_dec bs :: 'a::len word) = bs"
proof (induction bs arbitrary: n)
  case Nil
  then show ?case by simp
next
  case (Cons b bs)
  then obtain m where n: "n = Suc m" "length bs = m" "8 * m \<le> LENGTH('a)" "8 + 8 * m \<le> LENGTH('a)"
    by (cases n) auto
  have low: "ucast (ucast b OR push_bit 8 (le_dec bs :: 'a word)) = b"
    using n by (intro bit_word_eqI) (auto simp: bit_simps)
  have "drop_bit 8 (ucast b OR push_bit 8 (le_dec bs :: 'a word)) = take_bit (LENGTH('a) - 8) (le_dec bs)"
    using n by (intro bit_word_eqI) (auto simp: bit_simps dest: bit_imp_le_length)
  moreover have "take_bit (LENGTH('a) - 8) (le_dec bs :: 'a word) = le_dec bs"
    using le_dec_enc_take [of m "le_dec bs :: 'a word"] Cons.IH [OF n(2,3)] n
    by (metis (no_types, lifting) add_le_imp_le_diff add.commute min.absorb2 take_bit_take_bit)
  ultimately show ?case
    using Cons.IH [OF n(2,3)] n low by simp
qed

lemma be_dec_enc: "LENGTH('a) \<le> 8 * n \<Longrightarrow> be_dec (be_enc n v) = (v :: 'a::len word)"
  by (simp add: be_dec_rev be_enc_def le_dec_enc)

lemma be_enc_dec:
  "length bs = n \<Longrightarrow> 8 * n \<le> LENGTH('a) \<Longrightarrow> be_enc n (be_dec bs :: 'a::len word) = bs"
  by (simp add: be_dec_rev be_enc_def le_enc_dec)

section \<open>Words and natural numbers\<close>

lemma ucast_u8_u64 [simp]: "ucast (ucast (b :: u8) :: u64) = b"
  by (rule bit_word_eqI) (auto simp: bit_simps)

lemma ucast_u8_u32 [simp]: "ucast (ucast (b :: u8) :: u32) = b"
  by (rule bit_word_eqI) (auto simp: bit_simps)

lemma xor_cancel_left: "(a :: 'a::len word) XOR b = a XOR c \<Longrightarrow> b = c"
  by (metis xor.assoc xor_self_eq xor.left_neutral)

lemma xor_cancel_right: "(b :: 'a::len word) XOR a = c XOR a \<Longrightarrow> b = c"
  by (metis xor_cancel_left xor.commute)

lemma unat_less_64 [simp]: "unat (w :: u64) < 18446744073709551616"
  using unsigned_less [of w, where 'a = nat] by simp

lemma unat_less_32 [simp]: "unat (w :: u32) < 4294967296"
  using unsigned_less [of w, where 'a = nat] by simp

lemma unat_of_nat64 [simp]: "n < 2 ^ 64 \<Longrightarrow> unat (of_nat n :: u64) = n"
  by (simp add: unat_of_nat take_bit_nat_eq_self)

lemma unat_of_nat32 [simp]: "n < 2 ^ 32 \<Longrightarrow> unat (of_nat n :: u32) = n"
  by (simp add: unat_of_nat take_bit_nat_eq_self)

lemma unat_succ64: "w \<noteq> (- 1 :: u64) \<Longrightarrow> unat (w + 1) = Suc (unat w)"
  by (metis add.commute add_eq_0_iff unatSuc)

lemma unat_succ_less: "a < (b :: u64) \<Longrightarrow> unat (a + 1) = Suc (unat a)"
  by (rule unat_succ64) (metis word_order.extremum_strict)

lemma unat_max64 [simp]: "unat (- 1 :: u64) = 18446744073709551615"
  by (simp add: unsigned_minus_1_eq_mask mask_eq_exp_minus_1)

lemma unat_uminus64:
  assumes "(w :: u64) \<noteq> 0"
  shows "unat (- w) = 18446744073709551616 - unat w"
proof -
  have pos: "0 < unat w" using assms by (simp add: unat_gt_0)
  have "(unat (- w) + unat w) mod 2 ^ 64 = 0" using unat_word_ariths(1) [of "- w" w] by simp
  then obtain q where "unat (- w) + unat w = 18446744073709551616 * q" by (auto elim: dvdE simp: mod_eq_0_iff_dvd)
  moreover from this pos have "q = 1" using unat_less_64 [of w] unat_less_64 [of "- w"] by linarith
  ultimately show ?thesis by simp
qed

section \<open>Decimal numerals\<close>

text \<open>The decimal digits that \<^verbatim>\<open>std::to_string\<close> and \<^verbatim>\<open>std::to_chars\<close> write for an unsigned integer.\<close>

fun decimal :: "nat \<Rightarrow> string" where
  "decimal n = (if n < 10 then [char_of (48 + n)] else decimal (n div 10) @ [char_of (48 + n mod 10)])"

declare decimal.simps [simp del]

definition is_digit :: "char \<Rightarrow> bool" where
  "is_digit c \<longleftrightarrow> 48 \<le> (of_char c :: nat) \<and> of_char c < (58 :: nat)"

definition decimal_value :: "string \<Rightarrow> nat" where
  "decimal_value s = foldl (\<lambda>n c. 10 * n + (of_char c - 48)) 0 s"

lemma decimal_digits: "c \<in> set (decimal n) \<Longrightarrow> is_digit c"
proof (induction n rule: decimal.induct)
  case (1 n)
  then show ?case by (subst (asm) (2) decimal.simps) (auto simp: is_digit_def split: if_splits)
qed

lemma decimal_value_decimal [simp]: "decimal_value (decimal n) = n"
proof (induction n rule: decimal.induct)
  case (1 n)
  then show ?case by (subst decimal.simps) (auto simp: decimal_value_def)
qed

text \<open>A numeral followed by something that is not a digit can be read back.\<close>

lemma decimal_split:
  assumes "decimal m @ x # xs = decimal n @ y # ys" "\<not> is_digit x" "\<not> is_digit y"
  shows "m = n \<and> x # xs = y # ys"
proof -
  have t: "takeWhile is_digit (decimal k @ z # zs) = decimal k" if "\<not> is_digit z" for k z zs
    using that decimal_digits by (subst takeWhile_append2) auto
  have "decimal m = decimal n" 
    using arg_cong [OF assms(1), of "takeWhile is_digit"] t [OF assms(2), of m xs] t [OF assms(3), of n ys] by simp
  moreover from this have "m = n" by (metis decimal_value_decimal)
  ultimately show ?thesis using assms(1) by simp
qed

end
