(* ===== verification/Model.thy ===== *)
theory Model
  imports Prelude
begin

text \<open>
  The data types of \<^verbatim>\<open>include/detlog/model.hpp\<close>: commands, log entries, the hard state, a
  persistence batch, the four Raft messages, client replies, timers and trace records. Every
  struct is a record with the fields of the source (prefixed by the struct, because record
  fields are global), every enum and variant a datatype.
\<close>

type_synonym NodeId = u32
type_synonym Term = u64
type_synonym LogIndex = u64
type_synonym RpcId = u64
type_synonym StorageOpId = u64
type_synonym ClientToken = u64
type_synonym Tick = u64

section \<open>Sessions and commands\<close>

datatype SessionId = SessionId (sid_high: u64) (sid_low: u64)

text \<open>\<^verbatim>\<open>operator<\<close> on session ids is the lexicographic order of the two halves.\<close>

definition session_less :: "SessionId \<Rightarrow> SessionId \<Rightarrow> bool" where
  "session_less l r \<longleftrightarrow>
     sid_high l < sid_high r \<or> (sid_high l = sid_high r \<and> sid_low l < sid_low r)"

instantiation SessionId :: linorder
begin

definition less_SessionId :: "SessionId \<Rightarrow> SessionId \<Rightarrow> bool" where
  "less_SessionId l r \<longleftrightarrow> session_less l r"

definition less_eq_SessionId :: "SessionId \<Rightarrow> SessionId \<Rightarrow> bool" where
  "less_eq_SessionId l r \<longleftrightarrow> l < r \<or> l = (r :: SessionId)"

instance
proof (standard, goal_cases)
  case (5 x y)
  then show ?case
    by (cases x; cases y) (auto simp: less_SessionId_def session_less_def less_eq_SessionId_def)
qed (auto simp: less_SessionId_def session_less_def less_eq_SessionId_def)

end

datatype CommandKind = CmdPut | CmdErase | CmdGet

text \<open>The enumerators' values, and the cast of a byte back to the enum (\<open>None\<close>: no enumerator).\<close>

fun command_kind_byte :: "CommandKind \<Rightarrow> u8" where
  "command_kind_byte CmdPut = 1"
| "command_kind_byte CmdErase = 2"
| "command_kind_byte CmdGet = 3"

definition command_kind_of_byte :: "u8 \<Rightarrow> CommandKind option" where
  "command_kind_of_byte b =
     (if b = 1 then Some CmdPut else if b = 2 then Some CmdErase
      else if b = 3 then Some CmdGet else None)"

record ClientCommand =
  cmd_session :: SessionId
  cmd_sequence :: u64
  cmd_kind :: CommandKind
  cmd_key :: bytes
  cmd_value :: bytes

section \<open>Log entries and durable state\<close>

record LogEntry =
  ent_index :: LogIndex
  ent_term :: Term
  ent_command :: "ClientCommand option"

record HardState =
  hs_current_term :: Term
  hs_voted_for :: "NodeId option"

record PersistBatch =
  pb_hard_state :: "HardState option"
  pb_truncate_from :: "LogIndex option"
  pb_entries :: "LogEntry list"
  pb_commit_index :: "LogIndex option"

definition empty_batch :: PersistBatch where
  "empty_batch = \<lparr>pb_hard_state = None, pb_truncate_from = None, pb_entries = [], pb_commit_index = None\<rparr>"

definition batch_empty :: "PersistBatch \<Rightarrow> bool" where
  "batch_empty b \<longleftrightarrow> pb_hard_state b = None \<and> pb_truncate_from b = None \<and>
     pb_entries b = [] \<and> pb_commit_index b = None"

definition initial_hard_state :: HardState where
  "initial_hard_state = \<lparr>hs_current_term = 0, hs_voted_for = None\<rparr>"

section \<open>Messages\<close>

record RequestVote =
  rv_term :: Term
  rv_candidate_id :: NodeId
  rv_last_log_index :: LogIndex
  rv_last_log_term :: Term

record RequestVoteResponse =
  rvr_term :: Term
  rvr_vote_granted :: bool

record AppendEntries =
  ae_term :: Term
  ae_leader_id :: NodeId
  ae_rpc_id :: RpcId
  ae_prev_log_index :: LogIndex
  ae_prev_log_term :: Term
  ae_entries :: "LogEntry list"
  ae_leader_commit :: LogIndex

record AppendEntriesResponse =
  aer_term :: Term
  aer_rpc_id :: RpcId
  aer_success :: bool
  aer_match_index :: LogIndex
  aer_conflict_index :: LogIndex
  aer_conflict_term :: Term

datatype Message =
    MRequestVote RequestVote
  | MRequestVoteResponse RequestVoteResponse
  | MAppendEntries AppendEntries
  | MAppendEntriesResponse AppendEntriesResponse

record MessageEnvelope =
  env_from :: NodeId
  env_to :: NodeId
  env_message :: Message

section \<open>Client replies, timers, traces\<close>

datatype ClientStatus =
    CS_ok | CS_not_leader | CS_leader_not_ready | CS_busy | CS_unavailable
  | CS_stale_sequence | CS_sequence_gap | CS_request_id_conflict
  | CS_invalid_request | CS_storage_error

record ClientReply =
  rep_token :: ClientToken
  rep_status :: ClientStatus
  rep_leader_hint :: "NodeId option"
  rep_log_index :: LogIndex
  rep_value :: bytes

datatype TimerKind = TimerElection | TimerHeartbeat

record TimerRequest =
  tmr_kind :: TimerKind
  tmr_delay :: Tick
  tmr_generation :: u64

datatype TraceKind =
    TK_role_change | TK_term_change | TK_vote | TK_send | TK_receive
  | TK_storage_begin | TK_storage_complete | TK_log_change | TK_commit
  | TK_apply | TK_client_reply | TK_queue_saturated | TK_fault

record TraceRecord =
  tr_kind :: TraceKind
  tr_node :: NodeId
  tr_term :: Term
  tr_index :: LogIndex
  tr_detail :: string

section \<open>Facts\<close>

lemma command_kind_byte_inverse [simp]: "command_kind_of_byte (command_kind_byte k) = Some k"
  by (cases k) (simp_all add: command_kind_of_byte_def)

lemma command_kind_of_byte_Some: "command_kind_of_byte b = Some k \<Longrightarrow> command_kind_byte k = b"
  by (auto simp: command_kind_of_byte_def split: if_splits)

lemma empty_batch_simps [simp]:
  "pb_hard_state empty_batch = None" "pb_truncate_from empty_batch = None"
  "pb_entries empty_batch = []" "pb_commit_index empty_batch = None"
  "batch_empty empty_batch"
  by (simp_all add: empty_batch_def batch_empty_def)

end
