(* ===== verification/SessionMachine.thy ===== *)
theory SessionMachine
  imports Model
begin

text \<open>
  The interface of a replicated session machine. Both the production machine
  (\<^verbatim>\<open>src/state_machine.cpp\<close>) and the machine of the reference model
  (\<^verbatim>\<open>src/reference_model.cpp\<close>) promise the laws of the locale below: a command executes only
  when its sequence number is the successor of the session's last executed one, an execution
  moves the session to that number, and a command that does not execute changes nothing.
  From the laws alone follows the at-most-once, gap-free execution of every session's commands.
\<close>

text \<open>The commands of a list that a machine executes, in order.\<close>

fun executed_log :: "('s \<Rightarrow> ClientCommand \<Rightarrow> 's \<times> 'r) \<Rightarrow> ('r \<Rightarrow> bool) \<Rightarrow> 's \<Rightarrow> ClientCommand list \<Rightarrow> ClientCommand list" where
  "executed_log f ex m [] = []"
| "executed_log f ex m (c # cs) =
     (let (m', r) = f m c in
      if ex r then c # executed_log f ex m' cs else executed_log f ex m' cs)"

definition of_session :: "SessionId \<Rightarrow> ClientCommand list \<Rightarrow> ClientCommand list" where
  "of_session i cs = filter (\<lambda>c. cmd_session c = i) cs"

locale session_machine =
  fixes apply_fn :: "'s \<Rightarrow> ClientCommand \<Rightarrow> 's \<times> 'r"
    and executed :: "'r \<Rightarrow> bool"
    and last_seq :: "'s \<Rightarrow> SessionId \<Rightarrow> nat"
  assumes executes_next: "apply_fn m c = (m', r) \<Longrightarrow> executed r \<Longrightarrow>
      unat (cmd_sequence c) = Suc (last_seq m (cmd_session c))"
    and execution_advances: "apply_fn m c = (m', r) \<Longrightarrow> executed r \<Longrightarrow>
      last_seq m' = (last_seq m)(cmd_session c := unat (cmd_sequence c))"
    and refusal_keeps: "apply_fn m c = (m', r) \<Longrightarrow> \<not> executed r \<Longrightarrow> m' = m"
begin

lemma session_sequences:
  "map (unat \<circ> cmd_sequence) (of_session i (executed_log apply_fn executed m cs)) =
   [Suc (last_seq m i) ..< Suc (last_seq m i + length (of_session i (executed_log apply_fn executed m cs)))]"
proof (induction cs arbitrary: m)
  case Nil
  then show ?case by (simp add: of_session_def)
next
  case (Cons c cs)
  obtain m' r where step: "apply_fn m c = (m', r)" by fastforce
  show ?case
  proof (cases "executed r")
    case False
    with step refusal_keeps [OF step] Cons.IH [of m] show ?thesis by simp
  next
    case True
    note adv = execution_advances [OF step True] and nxt = executes_next [OF step True]
    show ?thesis
    proof (cases "cmd_session c = i")
      case True': True
      have "last_seq m' i = Suc (last_seq m i)" using adv nxt True' by simp
      with step True True' Cons.IH [of m'] nxt show ?thesis
        by (simp add: of_session_def upt_conv_Cons del: upt_Suc)
    next
      case False
      with adv have "last_seq m' i = last_seq m i" by simp
      with step True False Cons.IH [of m'] show ?thesis by (simp add: of_session_def)
    qed
  qed
qed

lemma executed_once:
  "distinct (map cmd_sequence (of_session i (executed_log apply_fn executed m cs)))"
proof -
  have "distinct (map (unat \<circ> cmd_sequence) (of_session i (executed_log apply_fn executed m cs)))"
    using session_sequences [of i m cs] by (simp del: upt_Suc)
  then show ?thesis by (auto simp: distinct_map inj_on_def)
qed

lemma last_seq_mono: "last_seq m i \<le> last_seq (fst (apply_fn m c)) i"
proof -
  obtain m' r where step: "apply_fn m c = (m', r)" by fastforce
  then show ?thesis
    using executes_next [OF step] execution_advances [OF step] refusal_keeps [OF step]
    by (cases "executed r") auto
qed

end

end
