(* ===== verification/ByteHash.thy ===== *)
theory ByteHash
  imports Prelude
begin

text \<open>
  The interface of a byte-wise rolling hash: a state update that is injective in the state for
  every byte and injective in the byte for every state. The FNV-1a digest of
  \<^verbatim>\<open>src/state_machine.cpp\<close> and the CRC-32C of \<^verbatim>\<open>src/wal.cpp\<close> both satisfy it, and both rely
  on what follows from it: changing one byte of the input always changes the hash.
\<close>

locale byte_hash =
  fixes upd :: "'s \<Rightarrow> u8 \<Rightarrow> 's"
  assumes upd_state_inj: "upd s b = upd t b \<Longrightarrow> s = t"
    and upd_byte_inj: "upd s a = upd s b \<Longrightarrow> a = b"
begin

lemma fold_state_inj: "foldl upd s bs = foldl upd t bs \<Longrightarrow> s = t"
  by (induction bs arbitrary: s t) (auto dest: upd_state_inj)

lemma one_byte_changes: "a \<noteq> b \<Longrightarrow> foldl upd s (xs @ a # ys) \<noteq> foldl upd s (xs @ b # ys)"
  by (auto dest: fold_state_inj upd_byte_inj)

lemma one_update_changes:
  assumes "i < length bs" and "b \<noteq> bs ! i"
  shows "foldl upd s (bs[i := b]) \<noteq> foldl upd s bs"
proof -
  have "bs = take i bs @ bs ! i # drop (Suc i) bs" using assms(1) by (rule id_take_nth_drop)
  moreover have "bs[i := b] = take i bs @ b # drop (Suc i) bs"
    using assms(1) by (simp add: upd_conv_take_nth_drop)
  ultimately show ?thesis using one_byte_changes [OF assms(2)] by metis
qed

end

end
