(* ===== verification/KvStateMachine.thy ===== *)
theory KvStateMachine
  imports SessionMachine ByteHash
begin

text \<open>
  The deterministic key/value state machine of \<^verbatim>\<open>src/state_machine.cpp\<close>: the FNV-1a command
  digest, the structural check of a command, and \<open>apply\<close>, which executes a command at most
  once per session sequence number and answers a retry from the stored result.
\<close>

section \<open>The digest\<close>

definition kFnvOffset :: u64 where
  "kFnvOffset = 14695981039346656037"

definition kFnvPrime :: u64 where
  "kFnvPrime = 1099511628211"

definition hash_byte :: "u64 \<Rightarrow> u8 \<Rightarrow> u64" where
  "hash_byte hash byte = (hash XOR ucast byte) * kFnvPrime"

definition hash_u64 :: "u64 \<Rightarrow> u64 \<Rightarrow> u64" where
  "hash_u64 hash v =
     foldl (\<lambda>h shift. hash_byte h (ucast (drop_bit shift v))) hash [0, 8, 16, 24, 32, 40, 48, 56]"

definition hash_string :: "u64 \<Rightarrow> bytes \<Rightarrow> u64" where
  "hash_string hash v = foldl hash_byte (hash_u64 hash (of_nat (length v))) v"

definition command_digest :: "ClientCommand \<Rightarrow> u64" where
  "command_digest c =
     hash_string (hash_string (hash_byte kFnvOffset (command_kind_byte (cmd_kind c))) (cmd_key c))
       (cmd_value c)"

section \<open>The state machine\<close>

definition structurally_valid :: "ClientCommand \<Rightarrow> bool" where
  "structurally_valid c =
     (if cmd_sequence c = 0 \<or> cmd_key c = [] then False
      else (case cmd_kind c of
              CmdPut \<Rightarrow> True
            | CmdErase \<Rightarrow> cmd_value c = []
            | CmdGet \<Rightarrow> cmd_value c = []))"

record SessionRecord =
  sr_sequence :: u64
  sr_command_digest :: u64
  sr_status :: ClientStatus
  sr_result :: bytes

record ApplyResult =
  ar_status :: ClientStatus
  ar_value :: bytes
  ar_executed :: bool
  ar_duplicate :: bool

record KvStateMachine =
  sm_values :: "(bytes, bytes) fmap"
  sm_sessions :: "(SessionId, SessionRecord) fmap"

definition kv_empty :: KvStateMachine where
  "kv_empty = \<lparr>sm_values = fmempty, sm_sessions = fmempty\<rparr>"

definition default_apply_result :: ApplyResult where
  "default_apply_result = \<lparr>ar_status = CS_ok, ar_value = [], ar_executed = False, ar_duplicate = False\<rparr>"

definition refuse :: "ClientStatus \<Rightarrow> ApplyResult" where
  "refuse st = \<lparr>ar_status = st, ar_value = [], ar_executed = False, ar_duplicate = False\<rparr>"

text \<open>The \<^verbatim>\<open>switch\<close> on the command kind: the new values and the result.\<close>

definition run_command :: "(bytes, bytes) fmap \<Rightarrow> ClientCommand \<Rightarrow> (bytes, bytes) fmap \<times> bytes" where
  "run_command vals c =
     (case cmd_kind c of
        CmdPut \<Rightarrow> (fmupd (cmd_key c) (cmd_value c) vals, cmd_value c)
      | CmdErase \<Rightarrow> (case fmlookup vals (cmd_key c) of
                       Some v \<Rightarrow> (fmdrop (cmd_key c) vals, v)
                     | None \<Rightarrow> (vals, []))
      | CmdGet \<Rightarrow> (case fmlookup vals (cmd_key c) of
                     Some v \<Rightarrow> (vals, v)
                   | None \<Rightarrow> (vals, [])))"

text \<open>The tail of \<open>apply\<close>: execute the command and remember its result for the session.\<close>

definition execute :: "KvStateMachine \<Rightarrow> ClientCommand \<Rightarrow> KvStateMachine \<times> ApplyResult" where
  "execute m c =
     (let (vals, result) = run_command (sm_values m) c in
      (m\<lparr>sm_values := vals,
         sm_sessions := fmupd (cmd_session c)
           \<lparr>sr_sequence = cmd_sequence c, sr_command_digest = command_digest c,
            sr_status = CS_ok, sr_result = result\<rparr> (sm_sessions m)\<rparr>,
       \<lparr>ar_status = CS_ok, ar_value = result, ar_executed = True, ar_duplicate = False\<rparr>))"

definition kv_apply :: "KvStateMachine \<Rightarrow> ClientCommand \<Rightarrow> KvStateMachine \<times> ApplyResult" where
  "kv_apply m c =
     (if \<not> structurally_valid c then (m, refuse CS_invalid_request)
      else (case fmlookup (sm_sessions m) (cmd_session c) of
         Some r \<Rightarrow>
           if cmd_sequence c < sr_sequence r then (m, refuse CS_stale_sequence)
           else if cmd_sequence c = sr_sequence r then
             (if sr_command_digest r \<noteq> command_digest c then (m, refuse CS_request_id_conflict)
              else (m, \<lparr>ar_status = sr_status r, ar_value = sr_result r,
                        ar_executed = False, ar_duplicate = True\<rparr>))
           else if sr_sequence r = - 1 \<or> cmd_sequence c \<noteq> sr_sequence r + 1
             then (m, refuse CS_sequence_gap)
           else execute m c
       | None \<Rightarrow>
           if cmd_sequence c \<noteq> 1 then (m, refuse CS_sequence_gap)
           else execute m c))"

definition session :: "KvStateMachine \<Rightarrow> SessionId \<Rightarrow> SessionRecord option" where
  "session m i = fmlookup (sm_sessions m) i"

definition value_for_test :: "KvStateMachine \<Rightarrow> bytes \<Rightarrow> bytes option" where
  "value_for_test m k = fmlookup (sm_values m) k"

text \<open>Replaying a log: entries without a command (no-ops) do not reach the machine.\<close>

definition apply_entry :: "KvStateMachine \<Rightarrow> LogEntry \<Rightarrow> KvStateMachine" where
  "apply_entry m e = (case ent_command e of None \<Rightarrow> m | Some c \<Rightarrow> fst (kv_apply m c))"

definition replay :: "KvStateMachine \<Rightarrow> LogEntry list \<Rightarrow> KvStateMachine" where
  "replay m es = foldl apply_entry m es"

section \<open>Specification\<close>

text \<open>Feeding a list of commands to the machine.\<close>

definition kv_run :: "KvStateMachine \<Rightarrow> ClientCommand list \<Rightarrow> KvStateMachine" where
  "kv_run m cs = foldl (\<lambda>m c. fst (kv_apply m c)) m cs"

text \<open>The sequence number a session has reached; 0 before its first command.\<close>

definition kv_last_seq :: "KvStateMachine \<Rightarrow> SessionId \<Rightarrow> nat" where
  "kv_last_seq m i = (case fmlookup (sm_sessions m) i of None \<Rightarrow> 0 | Some r \<Rightarrow> unat (sr_sequence r))"

text \<open>
  The value of a key, read off a history of executed commands (newest first): what the last
  write to the key left there.
\<close>

fun last_write :: "ClientCommand list \<Rightarrow> bytes \<Rightarrow> bytes option" where
  "last_write [] k = None"
| "last_write (c # cs) k =
     (if cmd_key c = k then
        (case cmd_kind c of CmdPut \<Rightarrow> Some (cmd_value c) | CmdErase \<Rightarrow> None | CmdGet \<Rightarrow> last_write cs k)
      else last_write cs k)"

text \<open>Two requests with the same identity that differ in one byte or in the kind only.\<close>

definition near_miss :: "ClientCommand \<Rightarrow> ClientCommand \<Rightarrow> bool" where
  "near_miss c d \<longleftrightarrow> cmd_session d = cmd_session c \<and> cmd_sequence d = cmd_sequence c \<and>
     (cmd_kind d \<noteq> cmd_kind c \<and> cmd_key d = cmd_key c \<and> cmd_value d = cmd_value c
    \<or> cmd_kind d = cmd_kind c \<and> cmd_value d = cmd_value c \<and>
        (\<exists>i < length (cmd_key c). \<exists>b. b \<noteq> cmd_key c ! i \<and> cmd_key d = (cmd_key c)[i := b])
    \<or> cmd_kind d = cmd_kind c \<and> cmd_key d = cmd_key c \<and>
        (\<exists>i < length (cmd_value c). \<exists>b. b \<noteq> cmd_value c ! i \<and> cmd_value d = (cmd_value c)[i := b]))"

section \<open>The digest separates near requests\<close>

text \<open>The FNV prime is odd, so multiplication by it is undone by the inverse below.\<close>

lemma fnv_prime_inverse: "kFnvPrime * 14886173955864302971 = 1"
  by (simp add: kFnvPrime_def)

lemma mult_fnv_prime_inj:
  assumes "a * kFnvPrime = b * kFnvPrime"
  shows "a = b"
proof -
  have "a * kFnvPrime * 14886173955864302971 = b * kFnvPrime * 14886173955864302971"
    using assms by simp
  then show ?thesis by (simp only: mult.assoc fnv_prime_inverse mult_1_right)
qed

interpretation fnv: byte_hash hash_byte
proof
  fix s t :: u64 and b :: u8
  assume "hash_byte s b = hash_byte t b"
  then show "s = t"
    unfolding hash_byte_def by (blast dest: mult_fnv_prime_inj xor_cancel_right)
next
  fix s :: u64 and a b :: u8
  assume "hash_byte s a = hash_byte s b"
  then have "ucast a = (ucast b :: u64)"
    unfolding hash_byte_def by (blast dest: mult_fnv_prime_inj xor_cancel_left)
  then show "a = b" by (metis ucast_u8_u64)
qed

lemma hash_u64_bytes: "hash_u64 h v = foldl hash_byte h (le_enc 8 v)"
  by (simp add: hash_u64_def numeral_eq_Suc)

lemma hash_string_bytes: "hash_string h v = foldl hash_byte h (le_enc 8 (of_nat (length v) :: u64) @ v)"
  by (simp add: hash_string_def hash_u64_bytes)

lemma hash_string_state_inj: "hash_string s v = hash_string t v \<Longrightarrow> s = t"
  unfolding hash_string_bytes by (rule fnv.fold_state_inj)

lemma hash_string_update:
  assumes "i < length v" and "b \<noteq> v ! i"
  shows "hash_string h (v[i := b]) \<noteq> hash_string h v"
  using fnv.one_update_changes [OF assms] by (simp add: hash_string_def)

lemma command_kind_byte_eq [simp]: "command_kind_byte k = command_kind_byte l \<longleftrightarrow> k = l"
  by (cases k; cases l) simp_all

lemma near_miss_digest: "near_miss c d \<Longrightarrow> command_digest d \<noteq> command_digest c"
  unfolding near_miss_def command_digest_def
  by (auto dest!: hash_string_state_inj fnv.upd_byte_inj dest: hash_string_update)

section \<open>Execution\<close>

lemma execute_simps [simp]:
  "sm_values (fst (execute m c)) = fst (run_command (sm_values m) c)"
  "sm_sessions (fst (execute m c)) = fmupd (cmd_session c)
     \<lparr>sr_sequence = cmd_sequence c, sr_command_digest = command_digest c,
      sr_status = CS_ok, sr_result = snd (run_command (sm_values m) c)\<rparr> (sm_sessions m)"
  "ar_executed (snd (execute m c))"
  "ar_status (snd (execute m c)) = CS_ok"
  "ar_value (snd (execute m c)) = snd (run_command (sm_values m) c)"
  "\<not> ar_duplicate (snd (execute m c))"
  by (simp_all add: execute_def split_beta)

lemma refuse_simps [simp]:
  "ar_status (refuse s) = s" "ar_value (refuse s) = []" "\<not> ar_executed (refuse s)" "\<not> ar_duplicate (refuse s)"
  by (simp_all add: refuse_def)

text \<open>The sequence check of \<open>apply\<close>: the command is the session's next one.\<close>

definition next_in_session :: "KvStateMachine \<Rightarrow> ClientCommand \<Rightarrow> bool" where
  "next_in_session m c = (case fmlookup (sm_sessions m) (cmd_session c) of
       None \<Rightarrow> cmd_sequence c = 1
     | Some r \<Rightarrow> sr_sequence r \<noteq> - 1 \<and> cmd_sequence c = sr_sequence r + 1)"

lemma next_in_session_unat:
  "next_in_session m c \<Longrightarrow> unat (cmd_sequence c) = Suc (kv_last_seq m (cmd_session c))"
  by (simp add: next_in_session_def kv_last_seq_def unat_succ64 split: option.splits)

lemma kv_apply_next: "structurally_valid c \<Longrightarrow> next_in_session m c \<Longrightarrow> kv_apply m c = execute m c"
  using next_in_session_unat [of m c]
  by (auto simp: kv_apply_def next_in_session_def kv_last_seq_def word_less_nat_alt split: option.splits)

lemma kv_apply_refused:
  assumes "\<not> (structurally_valid c \<and> next_in_session m c)"
  shows "fst (kv_apply m c) = m \<and> \<not> ar_executed (snd (kv_apply m c))"
  using assms
  by (cases "fmlookup (sm_sessions m) (cmd_session c)") (auto simp: kv_apply_def next_in_session_def)

lemma kv_executed_iff: "ar_executed (snd (kv_apply m c)) \<longleftrightarrow> structurally_valid c \<and> next_in_session m c"
  using kv_apply_refused [of c m] kv_apply_next [of c m] by auto

lemma kv_apply_executed: "ar_executed (snd (kv_apply m c)) \<Longrightarrow> kv_apply m c = execute m c"
  by (simp add: kv_executed_iff kv_apply_next)

lemma kv_last_seq_execute:
  "kv_last_seq (fst (execute m c)) = (kv_last_seq m)(cmd_session c := unat (cmd_sequence c))"
  by (auto simp: kv_last_seq_def)

interpretation kv: session_machine kv_apply ar_executed kv_last_seq
proof
  fix m m' :: KvStateMachine and c r
  assume step: "kv_apply m c = (m', r)"
  { assume "ar_executed r"
    with step have ex: "ar_executed (snd (kv_apply m c))" by simp
    then show "unat (cmd_sequence c) = Suc (kv_last_seq m (cmd_session c))"
      by (simp add: kv_executed_iff next_in_session_unat)
    show "kv_last_seq m' = (kv_last_seq m)(cmd_session c := unat (cmd_sequence c))"
      using kv_apply_executed [OF ex] step kv_last_seq_execute [of m c] by (metis fst_conv) }
  show "\<not> ar_executed r \<Longrightarrow> m' = m"
    using kv_apply_refused [of c m] kv_executed_iff [of m c] step by simp
qed

section \<open>Properties\<close>

text \<open>
  C6. At most once, in order, without gaps: of any list of commands given to an empty machine,
  the commands of a session that execute carry exactly the sequence numbers 1, 2, 3, and so on.
\<close>

theorem kv_exactly_once:
  "map (unat \<circ> cmd_sequence) (of_session i (executed_log kv_apply ar_executed kv_empty cs)) =
   [1 ..< Suc (length (of_session i (executed_log kv_apply ar_executed kv_empty cs)))]"
  using kv.session_sequences [of i kv_empty cs] by (simp add: kv_last_seq_def kv_empty_def)

lemma kv_run_simps [simp]:
  "kv_run m [] = m"
  "kv_run m (c # cs) = kv_run (fst (kv_apply m c)) cs"
  by (simp_all add: kv_run_def)

lemma kv_run_snoc: "kv_run m (cs @ [c]) = fst (kv_apply (kv_run m cs) c)"
  by (simp add: kv_run_def)

lemma kv_apply_other_session:
  assumes "cmd_session c \<noteq> i"
  shows "fmlookup (sm_sessions (fst (kv_apply m c))) i = fmlookup (sm_sessions m) i"
  using assms kv_apply_refused [of c m] kv_apply_next [of c m]
  by (cases "structurally_valid c \<and> next_in_session m c") auto

text \<open>A session of which no command executes keeps its record, whatever else is submitted.\<close>

lemma kv_run_silent_session:
  "of_session i (executed_log kv_apply ar_executed m cs) = [] \<Longrightarrow>
   fmlookup (sm_sessions (kv_run m cs)) i = fmlookup (sm_sessions m) i"
proof (induction cs arbitrary: m)
  case (Cons c cs)
  show ?case
  proof (cases "ar_executed (snd (kv_apply m c))")
    case True
    with Cons.prems have "cmd_session c \<noteq> i"
      and "of_session i (executed_log kv_apply ar_executed (fst (kv_apply m c)) cs) = []"
      by (auto simp: of_session_def split_beta split: if_splits)
    with Cons.IH [of "fst (kv_apply m c)"] show ?thesis by (simp add: kv_apply_other_session)
  next
    case False
    then have "fst (kv_apply m c) = m" using kv_apply_refused [of c m] kv_executed_iff [of m c] by blast
    with False Cons.IH [of m] Cons.prems show ?thesis by (simp add: split_beta)
  qed
qed simp

lemma executed_record:
  assumes "kv_apply m c = (m', r)" and "ar_executed r"
    and "of_session (cmd_session c) (executed_log kv_apply ar_executed m' cs) = []"
  shows "fmlookup (sm_sessions (kv_run m' cs)) (cmd_session c) =
      Some \<lparr>sr_sequence = cmd_sequence c, sr_command_digest = command_digest c,
            sr_status = ar_status r, sr_result = ar_value r\<rparr>"
    and "structurally_valid c"
proof -
  have ex: "ar_executed (snd (kv_apply m c))" using assms(1,2) by simp
  then show "structurally_valid c" by (simp add: kv_executed_iff)
  have "execute m c = (m', r)" using kv_apply_executed [OF ex] assms(1) by simp
  with kv_run_silent_session [OF assms(3)] execute_simps(2,4,5) [of m c]
  show "fmlookup (sm_sessions (kv_run m' cs)) (cmd_session c) =
      Some \<lparr>sr_sequence = cmd_sequence c, sr_command_digest = command_digest c,
            sr_status = ar_status r, sr_result = ar_value r\<rparr>" by simp
qed

text \<open>
  C11. An ambiguous retry does not execute twice: once a command has executed, and as long as no
  further command of its session has executed, whatever else was submitted, applying it again changes
  nothing and returns the result of the first execution, marked as a duplicate.
\<close>

theorem kv_retry:
  assumes "kv_apply m c = (m', r)" and "ar_executed r"
    and "of_session (cmd_session c) (executed_log kv_apply ar_executed m' cs) = []"
  shows "kv_apply (kv_run m' cs) c =
           (kv_run m' cs, \<lparr>ar_status = ar_status r, ar_value = ar_value r,
                           ar_executed = False, ar_duplicate = True\<rparr>)"
  using executed_record [OF assms] by (simp add: kv_apply_def)

theorem kv_retry_witness:
  "let c = \<lparr>cmd_session = SessionId 1 2, cmd_sequence = 1, cmd_kind = CmdPut, cmd_key = [7], cmd_value = [9]\<rparr>;
       d = \<lparr>cmd_session = SessionId 1 3, cmd_sequence = 1, cmd_kind = CmdPut, cmd_key = [7], cmd_value = [8]\<rparr>;
       e = \<lparr>cmd_session = SessionId 1 2, cmd_sequence = 3, cmd_kind = CmdErase, cmd_key = [7], cmd_value = []\<rparr>;
       m = kv_run (fst (kv_apply kv_empty c)) [d, e] in
     kv_apply m c = (m, \<lparr>ar_status = CS_ok, ar_value = [9], ar_executed = False, ar_duplicate = True\<rparr>)"
proof -
  let ?c = "\<lparr>cmd_session = SessionId 1 2, cmd_sequence = 1, cmd_kind = CmdPut, cmd_key = [7], cmd_value = [9]\<rparr>"
  let ?d = "\<lparr>cmd_session = SessionId 1 3, cmd_sequence = 1, cmd_kind = CmdPut, cmd_key = [7], cmd_value = [8]\<rparr>"
  let ?e = "\<lparr>cmd_session = SessionId 1 2, cmd_sequence = 3, cmd_kind = CmdErase, cmd_key = [7], cmd_value = []\<rparr>"
  have step: "kv_apply kv_empty ?c = (fst (kv_apply kv_empty ?c),
      \<lparr>ar_status = CS_ok, ar_value = [9], ar_executed = True, ar_duplicate = False\<rparr>)"
    by (simp add: kv_apply_def kv_empty_def structurally_valid_def execute_def run_command_def)
  have silent: "of_session (SessionId 1 2) (executed_log kv_apply ar_executed (fst (kv_apply kv_empty ?c)) [?d, ?e]) = []"
    by (simp add: kv_apply_def kv_empty_def structurally_valid_def execute_def run_command_def of_session_def refuse_def Let_def)
  show ?thesis using kv_retry [OF step, of "[?d, ?e]"] silent by (simp add: Let_def)
qed

text \<open>
  C12. A reused request id with different content never executes: after a command has executed, and
  as long as no further command of its session has executed, a request of the same session and sequence
  number that differs from it in the kind only, or in a single byte of its key or value, changes nothing and
  is answered with \<open>request_id_conflict\<close>, or with \<open>invalid_request\<close> when the change makes it malformed.
\<close>

theorem kv_altered_retry_conflicts:
  assumes "kv_apply m c = (m', r)" and "ar_executed r"
    and "of_session (cmd_session c) (executed_log kv_apply ar_executed m' cs) = []" and "near_miss c d"
  shows "kv_apply (kv_run m' cs) d =
    (kv_run m' cs, refuse (if structurally_valid d then CS_request_id_conflict else CS_invalid_request))"
proof -
  have same: "cmd_session d = cmd_session c" "cmd_sequence d = cmd_sequence c"
    using assms(4) by (auto simp: near_miss_def)
  with executed_record(1) [OF assms(1-3)] near_miss_digest [OF assms(4)] show ?thesis by (auto simp: kv_apply_def)
qed

theorem kv_altered_retry_conflicts_witness:
  "let c = \<lparr>cmd_session = SessionId 1 2, cmd_sequence = 1, cmd_kind = CmdPut, cmd_key = [7], cmd_value = [9]\<rparr>;
       m = fst (kv_apply kv_empty c) in
     kv_apply m (c\<lparr>cmd_value := [10]\<rparr>) = (m, refuse CS_request_id_conflict) \<and>
     kv_apply m (c\<lparr>cmd_kind := CmdGet\<rparr>) = (m, refuse CS_invalid_request)"
proof -
  let ?c = "\<lparr>cmd_session = SessionId 1 2, cmd_sequence = 1, cmd_kind = CmdPut, cmd_key = [7], cmd_value = [9]\<rparr>"
  have step: "kv_apply kv_empty ?c = (fst (kv_apply kv_empty ?c),
      \<lparr>ar_status = CS_ok, ar_value = [9], ar_executed = True, ar_duplicate = False\<rparr>)"
    by (simp add: kv_apply_def kv_empty_def structurally_valid_def execute_def run_command_def)
  have near: "near_miss ?c (?c\<lparr>cmd_value := [10]\<rparr>)" "near_miss ?c (?c\<lparr>cmd_kind := CmdGet\<rparr>)"
    by (auto simp: near_miss_def intro!: exI [of _ 10])
  have valid: "structurally_valid (?c\<lparr>cmd_value := [10]\<rparr>)" "\<not> structurally_valid (?c\<lparr>cmd_kind := CmdGet\<rparr>)"
    by (simp_all add: structurally_valid_def)
  show ?thesis
    using kv_altered_retry_conflicts [OF step _ _ near(1), of "[]"] kv_altered_retry_conflicts [OF step _ _ near(2), of "[]"] valid
    by (simp add: of_session_def Let_def)
qed

lemma run_command_values:
  "fmlookup (fst (run_command vals c)) k =
     (if cmd_key c = k then
        (case cmd_kind c of CmdPut \<Rightarrow> Some (cmd_value c) | CmdErase \<Rightarrow> None | CmdGet \<Rightarrow> fmlookup vals k)
      else fmlookup vals k)"
  by (auto simp: run_command_def split: CommandKind.splits option.splits)

lemma kv_apply_values:
  "fmlookup (sm_values (fst (kv_apply m c))) k =
     (if ar_executed (snd (kv_apply m c)) then fmlookup (fst (run_command (sm_values m) c)) k
      else fmlookup (sm_values m) k)"
  using kv_apply_refused [of c m] kv_executed_iff [of m c] kv_apply_executed [of m c] by auto

lemma last_write_run:
  "(\<And>k. fmlookup (sm_values m) k = last_write (rev es) k) \<Longrightarrow>
   fmlookup (sm_values (kv_run m cs)) k =
     last_write (rev (es @ executed_log kv_apply ar_executed m cs)) k"
proof (induction cs arbitrary: m es)
  case Nil
  then show ?case by simp
next
  case (Cons c cs)
  show ?case
  proof (cases "ar_executed (snd (kv_apply m c))")
    case True
    have "fmlookup (sm_values (fst (kv_apply m c))) j = last_write (rev (es @ [c])) j" for j
      using Cons.prems [of j] True by (simp add: kv_apply_values run_command_values split: CommandKind.splits)
    then have "fmlookup (sm_values (kv_run (fst (kv_apply m c)) cs)) k =
        last_write (rev ((es @ [c]) @ executed_log kv_apply ar_executed (fst (kv_apply m c)) cs)) k"
      by (rule Cons.IH)
    with True show ?thesis by (simp add: split_beta)
  next
    case False
    then have "fst (kv_apply m c) = m" using kv_apply_refused [of c m] kv_executed_iff [of m c] by blast
    with False Cons.IH [OF Cons.prems] show ?thesis by (simp add: split_beta)
  qed
qed

text \<open>
  C13. The machine implements a map read off the history: after any commands, an executing get
  returns what the last executed put or erase of that key left (the empty value when there is
  none), where the history is the list of commands that executed.
\<close>

theorem kv_get_reads_last_write:
  assumes "kv_apply (kv_run kv_empty cs) c = (m', r)" and "ar_executed r" and "cmd_kind c = CmdGet"
  shows "ar_value r =
     (case last_write (rev (executed_log kv_apply ar_executed kv_empty cs)) (cmd_key c) of
        None \<Rightarrow> [] | Some v \<Rightarrow> v)"
proof -
  have "fmlookup (sm_values (kv_run kv_empty cs)) (cmd_key c) =
      last_write (rev ([] @ executed_log kv_apply ar_executed kv_empty cs)) (cmd_key c)"
    by (rule last_write_run) (simp add: kv_empty_def)
  moreover have "r = snd (execute (kv_run kv_empty cs) c)"
    using assms kv_apply_executed [of "kv_run kv_empty cs" c] by (metis snd_conv)
  ultimately show ?thesis
    using assms(3) by (simp add: run_command_def split: option.splits)
qed

theorem kv_get_reads_last_write_witness:
  "ar_value (snd (kv_apply (kv_run kv_empty
       [\<lparr>cmd_session = SessionId 1 2, cmd_sequence = 1, cmd_kind = CmdPut, cmd_key = [7], cmd_value = [9]\<rparr>])
     \<lparr>cmd_session = SessionId 1 2, cmd_sequence = 2, cmd_kind = CmdGet, cmd_key = [7], cmd_value = []\<rparr>)) = [9]"
proof -
  let ?c = "\<lparr>cmd_session = SessionId 1 2, cmd_sequence = 1, cmd_kind = CmdPut, cmd_key = [7], cmd_value = [9]\<rparr>"
  let ?g = "\<lparr>cmd_session = SessionId 1 2, cmd_sequence = 2, cmd_kind = CmdGet, cmd_key = [7], cmd_value = []\<rparr>"
  let ?s = "kv_apply (kv_run kv_empty [?c]) ?g"
  have "ar_executed (snd ?s)"
    by (simp add: kv_apply_def kv_empty_def structurally_valid_def execute_def run_command_def)
  moreover have "executed_log kv_apply ar_executed kv_empty [?c] = [?c]"
    by (simp add: kv_apply_def kv_empty_def structurally_valid_def execute_def run_command_def)
  ultimately show ?thesis
    using kv_get_reads_last_write [of "[?c]" ?g "fst ?s" "snd ?s"] by simp
qed

end
