(* ===== verification/ReferenceModel.thy ===== *)
theory ReferenceModel
  imports KvStateMachine
begin

text \<open>
  The serial reference model of \<^verbatim>\<open>src/reference_model.cpp\<close>: replicas with a log, a term, a vote
  and an applied key/value state, and the eight actions of a history (elections with their
  voters, appends, replication of a prefix, commits with their quorum certificate, commit
  propagation, crashes and restarts). Every action checks its guards in the order of the source
  and answers either with the new model or with the source's error message; a rejected action
  leaves the model as it was.
\<close>

section \<open>State\<close>

record SessionState =
  ss_command :: ClientCommand
  ss_status :: ClientStatus
  ss_result :: bytes

record AppliedOutcome =
  ao_index :: LogIndex
  ao_status :: ClientStatus
  ao_value :: bytes
  ao_executed :: bool
  ao_duplicate :: bool

record ReplicaState =
  rs_id :: NodeId
  rs_alive :: bool
  rs_active_leader :: bool
  rs_current_term :: Term
  rs_voted_for :: "NodeId option"
  rs_commit_index :: LogIndex
  rs_last_applied :: LogIndex
  rs_ready_term :: Term
  rs_log :: "LogEntry list"
  rs_values :: "(bytes, bytes) fmap"
  rs_sessions :: "(SessionId, SessionState) fmap"
  rs_outcomes :: "(LogIndex, AppliedOutcome) fmap"

record RefModel =
  md_members :: "NodeId list"
  md_replicas :: "(NodeId, ReplicaState) fmap"
  md_leaders :: "(Term, NodeId) fmap"

record ProposalOutcome =
  po_status :: ClientStatus
  po_value :: bytes
  po_index :: LogIndex
  po_appended :: bool
  po_duplicate :: bool

record ActionResult =
  act_ok :: bool
  act_error :: string
  act_appended_index :: "LogIndex option"
  act_proposal :: "ProposalOutcome option"

datatype Action =
    Elect NodeId Term "NodeId list"
  | AppendNoOp NodeId
  | Propose NodeId ClientCommand
  | ReplicatePrefix NodeId NodeId LogIndex
  | CommitPrefix NodeId LogIndex "NodeId list"
  | LearnCommit NodeId NodeId LogIndex
  | Crash NodeId
  | Restart NodeId

record HistoryResult =
  hr_ok :: bool
  hr_applied_actions :: nat
  hr_error :: string

section \<open>Helpers\<close>

definition same_request :: "ClientCommand \<Rightarrow> ClientCommand \<Rightarrow> bool" where
  "same_request l r \<longleftrightarrow> cmd_session l = cmd_session r \<and> cmd_sequence l = cmd_sequence r \<and>
     cmd_kind l = cmd_kind r \<and> cmd_key l = cmd_key r \<and> cmd_value l = cmd_value r"

definition ref_structurally_valid :: "ClientCommand \<Rightarrow> bool" where
  "ref_structurally_valid c =
     (if cmd_sequence c = 0 \<or> cmd_key c = [] then False
      else (case cmd_kind c of
              CmdPut \<Rightarrow> True
            | CmdErase \<Rightarrow> cmd_value c = []
            | CmdGet \<Rightarrow> cmd_value c = []))"

definition last_term :: "LogEntry list \<Rightarrow> Term" where
  "last_term log = (if log = [] then 0 else ent_term (last log))"

definition ref_candidate_is_up_to_date :: "ReplicaState \<Rightarrow> ReplicaState \<Rightarrow> bool" where
  "ref_candidate_is_up_to_date candidate voter =
     (let ct = last_term (rs_log candidate); vt = last_term (rs_log voter) in
      if ct \<noteq> vt then ct > vt else length (rs_log candidate) \<ge> length (rs_log voter))"

definition equal_prefix :: "ReplicaState \<Rightarrow> ReplicaState \<Rightarrow> LogIndex \<Rightarrow> bool" where
  "equal_prefix l r through =
     (if unat through > length (rs_log l) \<or> unat through > length (rs_log r) then False
      else list_all (\<lambda>offset. rs_log l ! offset = rs_log r ! offset) [0 ..< unat through])"

text \<open>\<^verbatim>\<open>interpret\<close>: as the production machine, but a retry is compared field by field.\<close>

definition ref_execute :: "ReplicaState \<Rightarrow> LogIndex \<Rightarrow> ClientCommand \<Rightarrow> ReplicaState \<times> AppliedOutcome" where
  "ref_execute replica index c =
     (let (vals, result) =
        (case cmd_kind c of
           CmdPut \<Rightarrow> (fmupd (cmd_key c) (cmd_value c) (rs_values replica), cmd_value c)
         | CmdErase \<Rightarrow> (case fmlookup (rs_values replica) (cmd_key c) of
                          Some v \<Rightarrow> (fmdrop (cmd_key c) (rs_values replica), v)
                        | None \<Rightarrow> (rs_values replica, []))
         | CmdGet \<Rightarrow> (case fmlookup (rs_values replica) (cmd_key c) of
                        Some v \<Rightarrow> (rs_values replica, v)
                      | None \<Rightarrow> (rs_values replica, [])))
      in (replica\<lparr>rs_values := vals,
                  rs_sessions := fmupd (cmd_session c)
                    \<lparr>ss_command = c, ss_status = CS_ok, ss_result = result\<rparr> (rs_sessions replica)\<rparr>,
          \<lparr>ao_index = index, ao_status = CS_ok, ao_value = result,
           ao_executed = True, ao_duplicate = False\<rparr>))"

definition ref_refuse :: "LogIndex \<Rightarrow> ClientStatus \<Rightarrow> AppliedOutcome" where
  "ref_refuse index st =
     \<lparr>ao_index = index, ao_status = st, ao_value = [], ao_executed = False, ao_duplicate = False\<rparr>"

definition interpret_command :: "ReplicaState \<Rightarrow> LogIndex \<Rightarrow> ClientCommand \<Rightarrow> ReplicaState \<times> AppliedOutcome" where
  "interpret_command replica index c =
     (if \<not> ref_structurally_valid c then (replica, ref_refuse index CS_invalid_request)
      else (case fmlookup (rs_sessions replica) (cmd_session c) of
         Some s \<Rightarrow>
           if cmd_sequence c < cmd_sequence (ss_command s)
             then (replica, ref_refuse index CS_stale_sequence)
           else if cmd_sequence c = cmd_sequence (ss_command s) then
             (if \<not> same_request c (ss_command s) then (replica, ref_refuse index CS_request_id_conflict)
              else (replica, \<lparr>ao_index = index, ao_status = ss_status s, ao_value = ss_result s,
                              ao_executed = False, ao_duplicate = True\<rparr>))
           else if cmd_sequence (ss_command s) = - 1 \<or> cmd_sequence c \<noteq> cmd_sequence (ss_command s) + 1
             then (replica, ref_refuse index CS_sequence_gap)
           else ref_execute replica index c
       | None \<Rightarrow>
           if cmd_sequence c \<noteq> 1 then (replica, ref_refuse index CS_sequence_gap)
           else ref_execute replica index c))"

text \<open>One iteration of the loop of \<^verbatim>\<open>apply_through\<close>, then the loop.\<close>

definition apply_one :: "ReplicaState \<Rightarrow> ReplicaState" where
  "apply_one r =
     (let i = rs_last_applied r + 1;
          r1 = r\<lparr>rs_last_applied := i\<rparr> in
      case ent_command (rs_log r1 ! (unat i - 1)) of
        None \<Rightarrow> r1
      | Some c \<Rightarrow> (let (r2, out) = interpret_command r1 i c in
                   r2\<lparr>rs_outcomes := fmupd i out (rs_outcomes r2)\<rparr>))"

lemma ref_execute_last_applied [simp]: "rs_last_applied (fst (ref_execute r i c)) = rs_last_applied r"
  by (simp add: ref_execute_def split_beta)

lemma interpret_last_applied [simp]: "rs_last_applied (fst (interpret_command r i c)) = rs_last_applied r"
  by (simp add: interpret_command_def split: option.split)

lemma apply_one_last_applied [simp]: "rs_last_applied (apply_one r) = rs_last_applied r + 1"
  by (simp add: apply_one_def Let_def split_beta split: option.split)

function apply_through :: "ReplicaState \<Rightarrow> LogIndex \<Rightarrow> ReplicaState" where
  "apply_through r through =
     (if rs_last_applied r < through then apply_through (apply_one r) through else r)"
  by pat_completeness auto
termination
proof (relation "measure (\<lambda>(r, through). unat through - unat (rs_last_applied r))")
  fix r :: ReplicaState and through :: LogIndex
  assume less: "rs_last_applied r < through"
  then have "unat (rs_last_applied r + 1) = Suc (unat (rs_last_applied r))" by (rule unat_succ_less)
  then show "((apply_one r, through), (r, through)) \<in> measure (\<lambda>(r, through). unat through - unat (rs_last_applied r))"
    using less by (simp add: word_less_nat_alt)
qed simp

declare apply_through.simps [simp del]

definition reject :: "string \<Rightarrow> ActionResult" where
  "reject e = \<lparr>act_ok = False, act_error = e, act_appended_index = None, act_proposal = None\<rparr>"

definition accepted :: ActionResult where
  "accepted = \<lparr>act_ok = True, act_error = [], act_appended_index = None, act_proposal = None\<rparr>"

definition default_proposal :: ProposalOutcome where
  "default_proposal = \<lparr>po_status = CS_ok, po_value = [], po_index = 0, po_appended = False, po_duplicate = False\<rparr>"

definition proposal_result :: "ProposalOutcome \<Rightarrow> ActionResult" where
  "proposal_result p =
     \<lparr>act_ok = True, act_error = [],
      act_appended_index = (if po_appended p then Some (po_index p) else None),
      act_proposal = Some p\<rparr>"

section \<open>Actions\<close>

definition initial_replica :: "NodeId \<Rightarrow> ReplicaState" where
  "initial_replica n =
     \<lparr>rs_id = n, rs_alive = True, rs_active_leader = False, rs_current_term = 0,
      rs_voted_for = None, rs_commit_index = 0, rs_last_applied = 0, rs_ready_term = 0,
      rs_log = [], rs_values = fmempty, rs_sessions = fmempty, rs_outcomes = fmempty\<rparr>"

text \<open>The constructor; \<open>Inl\<close> carries the message of the exception it throws.\<close>

fun add_members :: "NodeId list \<Rightarrow> (NodeId, ReplicaState) fmap \<Rightarrow> string + (NodeId, ReplicaState) fmap" where
  "add_members [] reps = Inr reps"
| "add_members (m # ms) reps =
     (if m = 0 \<or> m |\<in>| fmdom reps then Inl ''reference model members must be unique and nonzero''
      else add_members ms (fmupd m (initial_replica m) reps))"

definition new_model :: "NodeId list \<Rightarrow> string + RefModel" where
  "new_model members =
     (if members = [] then Inl ''reference model requires members''
      else bind_res (add_members members fmempty)
        (\<lambda>reps. Inr \<lparr>md_members = members, md_replicas = reps, md_leaders = fmempty\<rparr>))"

definition find_replica :: "RefModel \<Rightarrow> NodeId \<Rightarrow> ReplicaState option" where
  "find_replica m n = fmlookup (md_replicas m) n"

definition put_replica :: "RefModel \<Rightarrow> NodeId \<Rightarrow> ReplicaState \<Rightarrow> RefModel" where
  "put_replica m n r = m\<lparr>md_replicas := fmupd n r (md_replicas m)\<rparr>"

definition is_leader_of :: "RefModel \<Rightarrow> ReplicaState \<Rightarrow> bool" where
  "is_leader_of m r \<longleftrightarrow> rs_active_leader r \<and> fmlookup (md_leaders m) (rs_current_term r) = Some (rs_id r)"

definition ref_quorum_size :: "RefModel \<Rightarrow> nat" where
  "ref_quorum_size m = length (md_members m) div 2 + 1"

text \<open>The loop over the voters of an election; \<open>seen\<close> is the set of unique voters so far.\<close>

fun check_voters :: "RefModel \<Rightarrow> NodeId \<Rightarrow> Term \<Rightarrow> ReplicaState \<Rightarrow> NodeId list \<Rightarrow> NodeId list \<Rightarrow> string + NodeId list" where
  "check_voters m cand t candidate [] seen = Inr seen"
| "check_voters m cand t candidate (v # vs) seen =
     (case find_replica m v of
        None \<Rightarrow> Inl ''election voter is not a member''
      | Some voter \<Rightarrow>
          if v \<in> set seen then Inl ''election voter is duplicated''
          else if \<not> rs_alive voter then Inl ''crashed replica cannot vote''
          else if rs_current_term voter > t then Inl ''voter has already observed a higher term''
          else if rs_current_term voter = t \<and> rs_voted_for voter \<noteq> None \<and> rs_voted_for voter \<noteq> Some cand
            then Inl ''voter already voted for another candidate''
          else if \<not> ref_candidate_is_up_to_date candidate voter
            then Inl ''candidate log is not up to date for a voter''
          else check_voters m cand t candidate vs (seen @ [v]))"

definition cast_vote :: "Term \<Rightarrow> NodeId \<Rightarrow> ReplicaState \<Rightarrow> ReplicaState" where
  "cast_vote t cand voter =
     (let v1 = (if rs_current_term voter < t
                then voter\<lparr>rs_active_leader := False, rs_current_term := t, rs_voted_for := None\<rparr>
                else voter)
      in v1\<lparr>rs_voted_for := Some cand\<rparr>)"

definition cast_votes :: "Term \<Rightarrow> NodeId \<Rightarrow> NodeId list \<Rightarrow> (NodeId, ReplicaState) fmap \<Rightarrow> (NodeId, ReplicaState) fmap" where
  "cast_votes t cand voters reps =
     foldl (\<lambda>rs v. case fmlookup rs v of None \<Rightarrow> rs | Some r \<Rightarrow> fmupd v (cast_vote t cand r) rs) reps (sort voters)"

definition elect :: "RefModel \<Rightarrow> NodeId \<Rightarrow> Term \<Rightarrow> NodeId list \<Rightarrow> RefModel \<times> ActionResult" where
  "elect m cand t voters =
     (case find_replica m cand of
        None \<Rightarrow> (m, reject ''election candidate is not a member'')
      | Some candidate \<Rightarrow>
          if \<not> rs_alive candidate then (m, reject ''crashed candidate cannot be elected'')
          else if t = 0 \<or> t \<le> rs_current_term candidate
            then (m, reject ''election term must advance the candidate term'')
          else (case check_voters m cand t candidate voters [] of
            Inl e \<Rightarrow> (m, reject e)
          | Inr unique_voters \<Rightarrow>
              if cand \<notin> set unique_voters then (m, reject ''candidate's self-vote is missing'')
              else if length unique_voters < length (md_members m) div 2 + 1
                then (m, reject ''election has no quorum'')
              else if fmlookup (md_leaders m) t \<noteq> None \<and> fmlookup (md_leaders m) t \<noteq> Some cand
                then (m, reject ''term already has a different leader'')
              else
                (let reps = cast_votes t cand unique_voters (md_replicas m);
                     m1 = m\<lparr>md_replicas := reps\<rparr> in
                 case find_replica m1 cand of
                   None \<Rightarrow> (m1, accepted)
                 | Some c \<Rightarrow>
                     ((put_replica m1 cand
                        (c\<lparr>rs_current_term := t, rs_voted_for := Some cand, rs_active_leader := True\<rparr>))
                        \<lparr>md_leaders := fmupd t cand (md_leaders m)\<rparr>,
                      accepted))))"

definition append_noop :: "RefModel \<Rightarrow> NodeId \<Rightarrow> RefModel \<times> ActionResult" where
  "append_noop m leader =
     (case find_replica m leader of
        None \<Rightarrow> (m, reject ''no-op leader is not a member'')
      | Some r \<Rightarrow>
          if \<not> rs_alive r \<or> \<not> is_leader_of m r
            then (m, reject ''only a live elected leader may append a no-op'')
          else
            (let index = of_nat (length (rs_log r)) + 1 in
             (put_replica m leader
                (r\<lparr>rs_log := rs_log r @ [\<lparr>ent_index = index, ent_term = rs_current_term r, ent_command = None\<rparr>]\<rparr>),
              accepted\<lparr>act_appended_index := Some index\<rparr>)))"

definition propose :: "RefModel \<Rightarrow> NodeId \<Rightarrow> ClientCommand \<Rightarrow> RefModel \<times> ActionResult" where
  "propose m leader c =
     (case find_replica m leader of
        None \<Rightarrow> (m, reject ''proposal target is not a member'')
      | Some r \<Rightarrow>
          if \<not> rs_alive r \<or> \<not> is_leader_of m r
            then (m, reject ''proposal target is not a live elected leader'')
          else if rs_ready_term r \<noteq> rs_current_term r
            then (m, reject ''leader has not committed an entry in its current term'')
          else if \<not> ref_structurally_valid c
            then (m, proposal_result (default_proposal\<lparr>po_status := CS_invalid_request\<rparr>))
          else
            (let index = of_nat (length (rs_log r)) + 1;
                 append = (put_replica m leader
                    (r\<lparr>rs_log := rs_log r @ [\<lparr>ent_index = index, ent_term = rs_current_term r, ent_command = Some c\<rparr>]\<rparr>),
                  proposal_result (default_proposal\<lparr>po_index := index, po_appended := True\<rparr>)) in
             case fmlookup (rs_sessions r) (cmd_session c) of
               Some s \<Rightarrow>
                 if cmd_sequence c < cmd_sequence (ss_command s)
                   then (m, proposal_result (default_proposal\<lparr>po_status := CS_stale_sequence\<rparr>))
                 else if cmd_sequence c = cmd_sequence (ss_command s) then
                   (if \<not> same_request c (ss_command s)
                      then (m, proposal_result (default_proposal\<lparr>po_status := CS_request_id_conflict\<rparr>))
                    else (m, proposal_result (default_proposal\<lparr>po_status := ss_status s,
                              po_value := ss_result s, po_duplicate := True\<rparr>)))
                 else if cmd_sequence (ss_command s) = - 1 \<or> cmd_sequence c \<noteq> cmd_sequence (ss_command s) + 1
                   then (m, proposal_result (default_proposal\<lparr>po_status := CS_sequence_gap\<rparr>))
                 else append
             | None \<Rightarrow>
                 if cmd_sequence c \<noteq> 1
                   then (m, proposal_result (default_proposal\<lparr>po_status := CS_sequence_gap\<rparr>))
                 else append))"

text \<open>
  The first index (from one) at which two logs differ within the common limit; 0 when they agree.
\<close>

fun first_divergence :: "LogEntry list \<Rightarrow> LogEntry list \<Rightarrow> nat \<Rightarrow> nat \<Rightarrow> nat" where
  "first_divergence (f # fs) (s # ss) (Suc limit) index =
     (if f \<noteq> s then index else first_divergence fs ss limit (Suc index))"
| "first_divergence _ _ _ index = 0"

definition follow_term :: "ReplicaState \<Rightarrow> ReplicaState \<Rightarrow> ReplicaState" where
  "follow_term source follower =
     (if rs_current_term follower < rs_current_term source
      then follower\<lparr>rs_active_leader := False, rs_current_term := rs_current_term source, rs_voted_for := None\<rparr>
      else follower)"

definition replicate_log :: "LogEntry list \<Rightarrow> LogEntry list \<Rightarrow> LogIndex \<Rightarrow> LogIndex \<Rightarrow> (LogEntry list) option" where
  "replicate_log source follower commit through =
     (let common = min (unat through) (length follower);
          d0 = first_divergence follower source common 1;
          d = (if d0 = 0 \<and> length follower < unat through then length follower + 1 else d0) in
      if d \<noteq> 0 then
        (if d \<le> unat commit then None
         else Some (take (d - 1) follower @ drop (d - 1) (take (unat through) source)))
      else Some follower)"

definition replicate_prefix :: "RefModel \<Rightarrow> NodeId \<Rightarrow> NodeId \<Rightarrow> LogIndex \<Rightarrow> RefModel \<times> ActionResult" where
  "replicate_prefix m leader fol through =
     (case (find_replica m leader, find_replica m fol) of
        (Some source, Some follower) \<Rightarrow>
          if leader = fol then (m, reject ''replication endpoints must differ'')
          else if \<not> rs_alive source \<or> \<not> rs_alive follower \<or> \<not> is_leader_of m source
            then (m, reject ''replication requires a live leader and follower'')
          else if rs_current_term follower > rs_current_term source
            then (m, reject ''higher-term follower rejects replication'')
          else if unat through > length (rs_log source)
            then (m, reject ''replication exceeds the leader log'')
          else (case replicate_log (rs_log source) (rs_log follower) (rs_commit_index follower) through of
              None \<Rightarrow> (m, reject ''replication would overwrite a committed entry'')
            | Some log \<Rightarrow> (put_replica m fol (follow_term source (follower\<lparr>rs_log := log\<rparr>)), accepted))
      | _ \<Rightarrow> (m, reject ''replication endpoint is not a member''))"

text \<open>The loop over the acknowledgers of a commit.\<close>

fun check_acks :: "RefModel \<Rightarrow> ReplicaState \<Rightarrow> LogIndex \<Rightarrow> NodeId list \<Rightarrow> NodeId list \<Rightarrow> string + NodeId list" where
  "check_acks m source through [] seen = Inr seen"
| "check_acks m source through (a # as) seen =
     (case find_replica m a of
        None \<Rightarrow> Inl ''commit acknowledger is not a member''
      | Some r \<Rightarrow>
          if a \<in> set seen then Inl ''commit acknowledger is duplicated''
          else if \<not> rs_alive r then Inl ''crashed replica cannot acknowledge a commit''
          else if \<not> equal_prefix source r through then Inl ''commit acknowledger lacks the leader prefix''
          else check_acks m source through as (seen @ [a]))"

definition commit :: "RefModel \<Rightarrow> NodeId \<Rightarrow> LogIndex \<Rightarrow> NodeId list \<Rightarrow> RefModel \<times> ActionResult" where
  "commit m leader through acks =
     (case find_replica m leader of
        None \<Rightarrow> (m, reject ''commit leader is not a member'')
      | Some source \<Rightarrow>
          if \<not> rs_alive source \<or> \<not> is_leader_of m source
            then (m, reject ''only a live elected leader may commit'')
          else if through < rs_commit_index source \<or> unat through > length (rs_log source)
            then (m, reject ''commit index is outside the leader's legal range'')
          else (case check_acks m source through acks [] of
            Inl e \<Rightarrow> (m, reject e)
          | Inr unique \<Rightarrow>
              if length unique < length (md_members m) div 2 + 1 then (m, reject ''commit has no quorum'')
              else if leader \<notin> set unique
                then (m, reject ''commit certificate omits the leader's durable copy'')
              else if through > rs_commit_index source \<and> through \<noteq> 0 \<and>
                  ent_term (rs_log source ! (unat through - 1)) \<noteq> rs_current_term source
                then (m, reject ''leader may advance commit only through current-term entry'')
              else
                (let s1 = apply_through (source\<lparr>rs_commit_index := through\<rparr>) through;
                     s2 = (if through \<noteq> 0 \<and> ent_term (rs_log s1 ! (unat through - 1)) = rs_current_term s1
                           then s1\<lparr>rs_ready_term := rs_current_term s1\<rparr> else s1)
                 in (put_replica m leader s2, accepted))))"

definition learn :: "RefModel \<Rightarrow> NodeId \<Rightarrow> NodeId \<Rightarrow> LogIndex \<Rightarrow> RefModel \<times> ActionResult" where
  "learn m leader fol through =
     (case (find_replica m leader, find_replica m fol) of
        (Some source, Some follower) \<Rightarrow>
          if \<not> rs_alive source \<or> \<not> rs_alive follower \<or> \<not> is_leader_of m source
            then (m, reject ''commit propagation requires a live leader and follower'')
          else if rs_current_term follower > rs_current_term source
            then (m, reject ''higher-term follower rejects commit propagation'')
          else if through < rs_commit_index follower \<or> through > rs_commit_index source \<or>
              \<not> equal_prefix source follower through
            then (m, reject ''follower cannot learn the requested commit prefix'')
          else
            (put_replica m fol
              (follow_term source (apply_through (follower\<lparr>rs_commit_index := through\<rparr>) through)), accepted)
      | _ \<Rightarrow> (m, reject ''commit propagation endpoint is not a member''))"

definition crash :: "RefModel \<Rightarrow> NodeId \<Rightarrow> RefModel \<times> ActionResult" where
  "crash m n =
     (case find_replica m n of
        None \<Rightarrow> (m, reject ''crash target is not a member'')
      | Some r \<Rightarrow>
          if \<not> rs_alive r then (m, reject ''replica is already crashed'')
          else (put_replica m n (r\<lparr>rs_alive := False, rs_active_leader := False\<rparr>), accepted))"

definition restart :: "RefModel \<Rightarrow> NodeId \<Rightarrow> RefModel \<times> ActionResult" where
  "restart m n =
     (case find_replica m n of
        None \<Rightarrow> (m, reject ''restart target is not a member'')
      | Some r \<Rightarrow>
          if rs_alive r then (m, reject ''replica is already alive'')
          else (put_replica m n (r\<lparr>rs_alive := True, rs_active_leader := False\<rparr>), accepted))"

fun apply_action :: "RefModel \<Rightarrow> Action \<Rightarrow> RefModel \<times> ActionResult" where
  "apply_action m (Elect c t vs) = elect m c t vs"
| "apply_action m (AppendNoOp l) = append_noop m l"
| "apply_action m (Propose l c) = propose m l c"
| "apply_action m (ReplicatePrefix l f t) = replicate_prefix m l f t"
| "apply_action m (CommitPrefix l t as) = commit m l t as"
| "apply_action m (LearnCommit l f t) = learn m l f t"
| "apply_action m (Crash n) = crash m n"
| "apply_action m (Restart n) = restart m n"

fun apply_history :: "RefModel \<Rightarrow> nat \<Rightarrow> Action list \<Rightarrow> RefModel \<times> HistoryResult" where
  "apply_history m index [] = (m, \<lparr>hr_ok = True, hr_applied_actions = index, hr_error = []\<rparr>)"
| "apply_history m index (a # as) =
     (let (m', result) = apply_action m a in
      if \<not> act_ok result
      then (m', \<lparr>hr_ok = False, hr_applied_actions = index, hr_error = act_error result\<rparr>)
      else apply_history m' (Suc index) as)"

text \<open>A model built for the members and driven by a history; a refused construction runs nothing.\<close>

definition run_model :: "NodeId list \<Rightarrow> Action list \<Rightarrow> RefModel \<times> HistoryResult" where
  "run_model ms as = (case new_model ms of
      Inl e \<Rightarrow> (\<lparr>md_members = [], md_replicas = fmempty, md_leaders = fmempty\<rparr>,
                \<lparr>hr_ok = False, hr_applied_actions = 0, hr_error = e\<rparr>)
    | Inr m \<Rightarrow> apply_history m 0 as)"

section \<open>Queries\<close>

record ReplicaView =
  vw_id :: NodeId
  vw_alive :: bool
  vw_current_term :: Term
  vw_voted_for :: "NodeId option"
  vw_commit_index :: LogIndex
  vw_last_applied :: LogIndex
  vw_leader_ready :: bool
  vw_log :: "LogEntry list"

definition replica :: "RefModel \<Rightarrow> NodeId \<Rightarrow> ReplicaView option" where
  "replica m n = map_option (\<lambda>r.
     \<lparr>vw_id = rs_id r, vw_alive = rs_alive r, vw_current_term = rs_current_term r,
      vw_voted_for = rs_voted_for r, vw_commit_index = rs_commit_index r,
      vw_last_applied = rs_last_applied r,
      vw_leader_ready = (is_leader_of m r \<and> rs_ready_term r \<noteq> 0 \<and> rs_ready_term r = rs_current_term r),
      vw_log = rs_log r\<rparr>) (find_replica m n)"

definition ref_value :: "RefModel \<Rightarrow> NodeId \<Rightarrow> bytes \<Rightarrow> bytes option" where
  "ref_value m n k = (case find_replica m n of None \<Rightarrow> None | Some r \<Rightarrow> fmlookup (rs_values r) k)"

definition applied_outcome :: "RefModel \<Rightarrow> NodeId \<Rightarrow> LogIndex \<Rightarrow> AppliedOutcome option" where
  "applied_outcome m n i = (case find_replica m n of None \<Rightarrow> None | Some r \<Rightarrow> fmlookup (rs_outcomes r) i)"

definition is_leader :: "RefModel \<Rightarrow> NodeId \<Rightarrow> bool" where
  "is_leader m n = (case find_replica m n of None \<Rightarrow> False | Some r \<Rightarrow> rs_alive r \<and> is_leader_of m r)"

end
