(* ===== verification/Quorum.thy ===== *)
theory Quorum
  imports Prelude
begin

text \<open>
  Quorums. The protocol relies on one law only, stated as a locale: two quorums of the same
  membership share a node. The quorum rule of the code (\<^verbatim>\<open>RaftNode::quorum_size\<close>,
  \<^verbatim>\<open>Model::quorum_size\<close>) is the strict majority, which satisfies it.
\<close>

locale quorum_system =
  fixes members :: "'n set" and quorum :: "'n set \<Rightarrow> bool"
  assumes quorum_members: "quorum Q \<Longrightarrow> Q \<subseteq> members"
    and quorum_meet: "quorum Q \<Longrightarrow> quorum R \<Longrightarrow> Q \<inter> R \<noteq> {}"
begin

lemma common_member:
  assumes "quorum Q" and "quorum R"
  obtains x where "x \<in> members" "x \<in> Q" "x \<in> R"
  using assms quorum_members quorum_meet by blast

text \<open>Two quorums that each voted for one choice voted for the same choice.\<close>

lemma single_choice:
  assumes "quorum Q" and "quorum R"
    and "\<And>x. x \<in> Q \<Longrightarrow> vote x = Some a" and "\<And>x. x \<in> R \<Longrightarrow> vote x = Some b"
  shows "a = b"
  using assms(1,2) by (rule common_member) (use assms(3,4) in fastforce)

end

definition majority :: "'n list \<Rightarrow> 'n set \<Rightarrow> bool" where
  "majority ms Q \<longleftrightarrow> Q \<subseteq> set ms \<and> length ms div 2 + 1 \<le> card Q"

interpretation maj: quorum_system "set ms" "majority ms" for ms :: "'n list"
proof
  fix Q R :: "'n set"
  assume Q: "majority ms Q" and R: "majority ms R"
  show "Q \<subseteq> set ms" using Q by (simp add: majority_def)
  show "Q \<inter> R \<noteq> {}"
  proof
    assume "Q \<inter> R = {}"
    moreover have fin: "finite Q" "finite R"
      using Q R by (auto simp: majority_def intro: finite_subset)
    ultimately have "card Q + card R = card (Q \<union> R)" by (simp add: card_Un_disjoint)
    also have "\<dots> \<le> card (set ms)" using Q R by (intro card_mono) (auto simp: majority_def)
    also have "\<dots> \<le> length ms" by (rule card_length)
    finally show False using Q R by (auto simp: majority_def)
  qed
qed

lemma majority_list: "distinct qs \<Longrightarrow> set qs \<subseteq> set ms \<Longrightarrow> length ms div 2 + 1 \<le> length qs \<Longrightarrow> majority ms (set qs)"
  by (simp add: majority_def distinct_card)

end
