(* ===== verification/AbstractRaft.thy ===== *)
theory AbstractRaft
  imports Quorum Model
begin

text \<open>
  The abstract contract of the replication protocol, as a step relation on the durable state of
  the nodes (term, vote, log, commit index) and on a history: who led each term, the log that
  leader started with and the log it has built, who voted for whom and with which log, how much
  of a leader's log a node has acknowledged in that leader's term, and which points have been
  committed. The implementation-level models are shown to take only such steps; the safety
  theorems are proved here once.
\<close>

section \<open>State and steps\<close>

record AbsState =
  a_term :: "NodeId \<Rightarrow> Term"
  a_vote :: "NodeId \<Rightarrow> NodeId option"
  a_log :: "NodeId \<Rightarrow> LogEntry list"
  a_commit :: "NodeId \<Rightarrow> nat"
  a_active :: "NodeId \<Rightarrow> bool"
  a_leader :: "Term \<Rightarrow> NodeId option"
  a_ilog :: "Term \<Rightarrow> LogEntry list"
  a_llog :: "Term \<Rightarrow> LogEntry list"
  a_clog :: "Term \<Rightarrow> NodeId \<Rightarrow> LogEntry list option"
  a_votes :: "Term \<Rightarrow> NodeId \<Rightarrow> (NodeId \<times> LogEntry list) option"
  a_acked :: "Term \<Rightarrow> NodeId \<Rightarrow> nat"
  a_committed :: "(Term \<times> nat) set"

definition abs_init :: AbsState where
  "abs_init = \<lparr>a_term = (\<lambda>_. 0), a_vote = (\<lambda>_. None), a_log = (\<lambda>_. []), a_commit = (\<lambda>_. 0),
     a_active = (\<lambda>_. False), a_leader = (\<lambda>_. None), a_ilog = (\<lambda>_. []), a_llog = (\<lambda>_. []),
     a_clog = (\<lambda>_ _. None), a_votes = (\<lambda>_ _. None), a_acked = (\<lambda>_ _. 0), a_committed = {}\<rparr>"

definition log_last_term :: "LogEntry list \<Rightarrow> Term" where
  "log_last_term l = (if l = [] then 0 else ent_term (last l))"

definition up_to_date :: "LogEntry list \<Rightarrow> LogEntry list \<Rightarrow> bool" where
  "up_to_date cand voter \<longleftrightarrow> log_last_term voter < log_last_term cand \<or>
     (log_last_term cand = log_last_term voter \<and> length voter \<le> length cand)"

text \<open>The log of a follower after it has received the first \<open>n\<close> entries of a leader's log.\<close>

definition adopt :: "LogEntry list \<Rightarrow> nat \<Rightarrow> LogEntry list \<Rightarrow> LogEntry list" where
  "adopt leader n own = (if n \<le> length own \<and> take n own = take n leader then own else take n leader)"

inductive astep :: "NodeId list \<Rightarrow> AbsState \<Rightarrow> AbsState \<Rightarrow> bool" for ms :: "NodeId list" where
  adv_term: "a_term s n < t \<Longrightarrow>
    astep ms s (s\<lparr>a_term := (a_term s)(n := t), a_vote := (a_vote s)(n := None),
                  a_active := (a_active s)(n := False)\<rparr>)"
| campaign: "a_term s c < t \<Longrightarrow>
    astep ms s (s\<lparr>a_term := (a_term s)(c := t), a_vote := (a_vote s)(c := Some c),
                  a_active := (a_active s)(c := False),
                  a_clog := (a_clog s)(t := (a_clog s t)(c := Some (a_log s c))),
                  a_votes := (if a_leader s t = None
                     then (a_votes s)(t := (a_votes s t)(c := Some (c, a_log s c))) else a_votes s)\<rparr>)"
| vote: "a_term s v = t \<Longrightarrow> a_vote s v = None \<or> a_vote s v = Some c \<Longrightarrow> a_clog s t c = Some cl \<Longrightarrow>
    up_to_date cl (a_log s v) \<Longrightarrow>
    astep ms s (s\<lparr>a_vote := (a_vote s)(v := Some c),
                  a_votes := (if a_leader s t = None
                     then (a_votes s)(t := (a_votes s t)(v := Some (c, a_log s v))) else a_votes s)\<rparr>)"
| become_leader: "a_leader s t = None \<Longrightarrow> a_term s c = t \<Longrightarrow> a_clog s t c = Some (a_log s c) \<Longrightarrow>
    majority ms V \<Longrightarrow> (\<And>v. v \<in> V \<Longrightarrow> \<exists>l. a_votes s t v = Some (c, l)) \<Longrightarrow>
    astep ms s (s\<lparr>a_leader := (a_leader s)(t := Some c), a_ilog := (a_ilog s)(t := a_log s c),
                  a_llog := (a_llog s)(t := a_log s c), a_active := (a_active s)(c := True)\<rparr>)"
| leader_append: "a_active s c \<Longrightarrow> ent_term e = a_term s c \<Longrightarrow>
    astep ms s (s\<lparr>a_log := (a_log s)(c := a_log s c @ [e]),
                  a_llog := (a_llog s)(a_term s c := a_llog s (a_term s c) @ [e])\<rparr>)"
| receive: "a_leader s (a_term s v) = Some l \<Longrightarrow> l \<noteq> v \<Longrightarrow> n \<le> length (a_llog s (a_term s v)) \<Longrightarrow>
    new = adopt (a_llog s (a_term s v)) n (a_log s v) \<Longrightarrow>
    a_commit s v \<le> length new \<Longrightarrow> take (a_commit s v) new = take (a_commit s v) (a_log s v) \<Longrightarrow>
    astep ms s (s\<lparr>a_log := (a_log s)(v := new)\<rparr>)"
| ack: "a_term s v = t \<Longrightarrow> a_leader s t \<noteq> None \<Longrightarrow> n \<le> length (a_llog s t) \<Longrightarrow>
    take n (a_log s v) = take n (a_llog s t) \<Longrightarrow>
    astep ms s (s\<lparr>a_acked := (a_acked s)(t := (a_acked s t)(v := max n (a_acked s t v)))\<rparr>)"
| commit_point: "a_leader s t \<noteq> None \<Longrightarrow> 0 < i \<Longrightarrow> i \<le> length (a_llog s t) \<Longrightarrow>
    ent_term (a_llog s t ! (i - 1)) = t \<Longrightarrow> majority ms Q \<Longrightarrow> (\<And>a. a \<in> Q \<Longrightarrow> i \<le> a_acked s t a) \<Longrightarrow>
    astep ms s (s\<lparr>a_committed := insert (t, i) (a_committed s)\<rparr>)"
| learn_commit: "(t, i) \<in> a_committed s \<Longrightarrow> t \<le> a_term s n \<Longrightarrow> k \<le> i \<Longrightarrow> k \<le> length (a_log s n) \<Longrightarrow>
    take k (a_log s n) = take k (a_llog s t) \<Longrightarrow>
    astep ms s (s\<lparr>a_commit := (a_commit s)(n := k)\<rparr>)"
| lose_role: "astep ms s (s\<lparr>a_active := (a_active s)(n := False)\<rparr>)"

inductive areach :: "NodeId list \<Rightarrow> AbsState \<Rightarrow> bool" for ms :: "NodeId list" where
  areach_init: "areach ms abs_init"
| areach_step: "areach ms s \<Longrightarrow> astep ms s s' \<Longrightarrow> areach ms s'"

section \<open>Matched logs\<close>

text \<open>
  A log is matched when every entry sits where the leader of its term put it, with the same
  entries before it. Leaders' logs only grow, so a matched log stays matched.
\<close>

definition matched :: "AbsState \<Rightarrow> LogEntry list \<Rightarrow> bool" where
  "matched s l \<longleftrightarrow> (\<forall>j < length l. a_leader s (ent_term (l ! j)) \<noteq> None \<and>
     take (Suc j) l = take (Suc j) (a_llog s (ent_term (l ! j))))"

definition history_grows :: "AbsState \<Rightarrow> AbsState \<Rightarrow> bool" where
  "history_grows s s' \<longleftrightarrow> (\<forall>t. a_leader s t \<noteq> None \<longrightarrow>
     a_leader s' t = a_leader s t \<and> a_ilog s' t = a_ilog s t \<and> (\<exists>es. a_llog s' t = a_llog s t @ es))"

lemma history_grows_refl: "history_grows s s"
  by (simp add: history_grows_def)

lemma astep_history_grows: "astep ms s s' \<Longrightarrow> history_grows s s'"
  by (induction rule: astep.induct) (auto simp: history_grows_def)

lemma astep_term_mono: "astep ms s s' \<Longrightarrow> a_term s n \<le> a_term s' n"
  by (induction rule: astep.induct) auto

lemma take_append_same: "n \<le> length l \<Longrightarrow> take n (l @ es) = take n l"
  by simp

lemma matched_length:
  assumes "matched s l" "j < length l"
  shows "Suc j \<le> length (a_llog s (ent_term (l ! j)))"
  using assms by (auto simp: matched_def) (metis Suc_leI length_take min.absorb_iff2 min.cobounded2)

lemma matched_grows:
  assumes "matched s l" and "history_grows s s'"
  shows "matched s' l"
  unfolding matched_def
proof (intro allI impI)
  fix j assume j: "j < length l"
  let ?t = "ent_term (l ! j)"
  from assms(1) j have lead: "a_leader s ?t \<noteq> None" and eq: "take (Suc j) l = take (Suc j) (a_llog s ?t)"
    by (auto simp: matched_def)
  from assms(2) lead obtain es where "a_leader s' ?t = a_leader s ?t" "a_llog s' ?t = a_llog s ?t @ es"
    by (auto simp: history_grows_def)
  with lead eq matched_length [OF assms(1) j]
  show "a_leader s' ?t \<noteq> None \<and> take (Suc j) l = take (Suc j) (a_llog s' ?t)" by simp
qed

lemma matched_take: "matched s l \<Longrightarrow> matched s (take n l)"
  by (auto simp: matched_def min_def take_Suc_conv_app_nth)

lemma matched_snoc:
  assumes "matched s l" and "a_leader s (ent_term e) \<noteq> None" and "l @ [e] = take (Suc (length l)) (a_llog s (ent_term e))"
  shows "matched s (l @ [e])"
  unfolding matched_def
proof (intro allI impI)
  fix j assume "j < length (l @ [e])"
  then consider "j < length l" | "j = length l" by fastforce
  then show "a_leader s (ent_term ((l @ [e]) ! j)) \<noteq> None \<and>
      take (Suc j) (l @ [e]) = take (Suc j) (a_llog s (ent_term ((l @ [e]) ! j)))"
  proof cases
    case 1
    then show ?thesis using assms(1) by (simp add: matched_def nth_append)
  next
    case 2
    then have "(l @ [e]) ! j = e" and "take (Suc j) (l @ [e]) = l @ [e]" by simp_all
    with 2 assms(2,3) show ?thesis by metis
  qed
qed

lemma matched_whole:
  assumes "matched s l" and "l \<noteq> []"
  shows "l = take (length l) (a_llog s (log_last_term l))" and "a_leader s (log_last_term l) \<noteq> None"
  using assms unfolding matched_def log_last_term_def
  by (auto simp: last_conv_nth dest!: spec [of _ "length l - 1"])

text \<open>Two matched logs that hold an entry of the same term at an index agree up to it.\<close>

lemma matched_agree:
  assumes "matched s l" "matched s l'" "j < length l" "j < length l'" "ent_term (l ! j) = ent_term (l' ! j)"
  shows "take (Suc j) l = take (Suc j) l'"
  using assms by (auto simp: matched_def)

end
