(* ===== verification/AbstractRaftSafety.thy ===== *)
theory AbstractRaftSafety
  imports AbstractRaft
begin

text \<open>
  The inductive invariant of the abstract protocol and its consequences: election safety, log
  matching, leader completeness and agreement of committed prefixes. The invariant is a
  conjunction of nine groups, each preserved by every step.
\<close>

section \<open>The invariant\<close>

definition inv_log :: "AbsState \<Rightarrow> bool" where
  "inv_log s \<longleftrightarrow> (\<forall>n. matched s (a_log s n) \<and> (\<forall>e \<in> set (a_log s n). ent_term e \<le> a_term s n))"

definition inv_llog :: "AbsState \<Rightarrow> bool" where
  "inv_llog s \<longleftrightarrow> (\<forall>t. a_leader s t \<noteq> None \<longrightarrow>
     matched s (a_llog s t) \<and> (\<exists>es. a_llog s t = a_ilog s t @ es \<and> (\<forall>e \<in> set es. ent_term e = t)) \<and>
     (\<forall>e \<in> set (a_ilog s t). ent_term e < t))"

definition inv_clog :: "AbsState \<Rightarrow> bool" where
  "inv_clog s \<longleftrightarrow> (\<forall>t c cl. a_clog s t c = Some cl \<longrightarrow>
     0 < t \<and> t \<le> a_term s c \<and> matched s cl \<and> (\<forall>e \<in> set cl. ent_term e < t))"

definition inv_votes :: "AbsState \<Rightarrow> bool" where
  "inv_votes s \<longleftrightarrow> (\<forall>t v c l. a_votes s t v = Some (c, l) \<longrightarrow>
     t \<le> a_term s v \<and> (a_term s v = t \<longrightarrow> a_vote s v = Some c) \<and> matched s l \<and>
     (\<exists>cl. a_clog s t c = Some cl \<and> up_to_date cl l))"

definition inv_leader :: "NodeId list \<Rightarrow> AbsState \<Rightarrow> bool" where
  "inv_leader ms s \<longleftrightarrow> (\<forall>t c. a_leader s t = Some c \<longrightarrow> a_clog s t c = Some (a_ilog s t) \<and>
     (\<exists>V. majority ms V \<and> (\<forall>v \<in> V. \<exists>l. a_votes s t v = Some (c, l))))"

definition inv_active :: "AbsState \<Rightarrow> bool" where
  "inv_active s \<longleftrightarrow> (\<forall>n. a_active s n \<longrightarrow>
     a_leader s (a_term s n) = Some n \<and> a_log s n = a_llog s (a_term s n))"

text \<open>
  An acknowledged prefix survives in the node's log, and in the log it later votes with, unless
  a leader of an intermediate term started without that prefix.
\<close>

definition retained :: "AbsState \<Rightarrow> Term \<Rightarrow> nat \<Rightarrow> LogEntry list \<Rightarrow> Term set \<Rightarrow> bool" where
  "retained s t i l later \<longleftrightarrow> take i l = take i (a_llog s t) \<or>
     (\<exists>t' \<in> later. t < t' \<and> a_leader s t' \<noteq> None \<and> take i (a_ilog s t') \<noteq> take i (a_llog s t))"

definition inv_acked :: "AbsState \<Rightarrow> bool" where
  "inv_acked s \<longleftrightarrow> (\<forall>t v i. 0 < i \<and> i \<le> a_acked s t v \<longrightarrow>
     t \<le> a_term s v \<and> a_leader s t \<noteq> None \<and> i \<le> length (a_llog s t) \<and>
     retained s t i (a_log s v) {.. a_term s v} \<and>
     (\<forall>t' c l. a_votes s t' v = Some (c, l) \<and> t < t' \<longrightarrow> retained s t i l {..< t'}))"

definition inv_committed :: "NodeId list \<Rightarrow> AbsState \<Rightarrow> bool" where
  "inv_committed ms s \<longleftrightarrow> (\<forall>t i. (t, i) \<in> a_committed s \<longrightarrow>
     a_leader s t \<noteq> None \<and> 0 < i \<and> i \<le> length (a_llog s t) \<and> ent_term (a_llog s t ! (i - 1)) = t \<and>
     (\<exists>Q. majority ms Q \<and> (\<forall>a \<in> Q. i \<le> a_acked s t a)))"

definition inv_commit :: "AbsState \<Rightarrow> bool" where
  "inv_commit s \<longleftrightarrow> (\<forall>n. a_commit s n \<le> length (a_log s n) \<and> (0 < a_commit s n \<longrightarrow>
     (\<exists>t i. (t, i) \<in> a_committed s \<and> t \<le> a_term s n \<and> a_commit s n \<le> i \<and>
            take (a_commit s n) (a_log s n) = take (a_commit s n) (a_llog s t))))"

definition ainv :: "NodeId list \<Rightarrow> AbsState \<Rightarrow> bool" where
  "ainv ms s \<longleftrightarrow> inv_log s \<and> inv_llog s \<and> inv_clog s \<and> inv_votes s \<and> inv_leader ms s \<and>
     inv_active s \<and> inv_acked s \<and> inv_committed ms s \<and> inv_commit s"

lemma ainvD:
  assumes "ainv ms s"
  shows "inv_log s" "inv_llog s" "inv_clog s" "inv_votes s" "inv_leader ms s"
    "inv_active s" "inv_acked s" "inv_committed ms s" "inv_commit s"
  using assms by (simp_all add: ainv_def)

lemma ainv_init: "ainv ms abs_init"
  by (auto simp: ainv_def abs_init_def inv_log_def inv_llog_def inv_clog_def inv_votes_def inv_leader_def
      inv_active_def inv_acked_def inv_committed_def inv_commit_def matched_def)

section \<open>Facts that hold under the invariant\<close>

lemma leader_unique_quorum:
  assumes "inv_leader ms s" and "a_leader s t = Some c"
    and "majority ms V" and "\<And>v. v \<in> V \<Longrightarrow> \<exists>l. a_votes s t v = Some (d, l)"
  shows "d = c"
proof -
  from assms(1,2) obtain W where W: "majority ms W" "\<forall>v \<in> W. \<exists>l. a_votes s t v = Some (c, l)"
    unfolding inv_leader_def by blast
  from maj.common_member [OF assms(3) W(1)] obtain v where "v \<in> V" "v \<in> W" by blast
  with assms(4) W(2) show ?thesis by fastforce
qed

lemma llog_split:
  assumes "inv_llog s" "a_leader s t \<noteq> None"
  obtains es where "a_llog s t = a_ilog s t @ es" "\<forall>e \<in> set es. ent_term e = t"
    "\<forall>e \<in> set (a_ilog s t). ent_term e < t" "matched s (a_llog s t)"
  using assms by (auto simp: inv_llog_def)

lemma ilog_prefix:
  assumes "inv_llog s" "a_leader s t \<noteq> None" "n \<le> length (a_ilog s t)"
  shows "take n (a_llog s t) = take n (a_ilog s t)"
  using assms by (auto elim!: llog_split)

lemma llog_terms_le:
  assumes "inv_llog s" "a_leader s t \<noteq> None" "e \<in> set (a_llog s t)"
  shows "ent_term e \<le> t"
  using assms by (auto elim!: llog_split simp: order_less_imp_le)

text \<open>Terms never decrease along a matched log.\<close>

lemma matched_sorted:
  assumes "inv_llog s" "matched s l" "i \<le> j" "j < length l"
  shows "ent_term (l ! i) \<le> ent_term (l ! j)"
proof -
  let ?t = "ent_term (l ! j)"
  from assms(2,4) have lead: "a_leader s ?t \<noteq> None" and eq: "take (Suc j) l = take (Suc j) (a_llog s ?t)"
    by (auto simp: matched_def)
  have "l ! i = take (Suc j) l ! i" using assms(3,4) by simp
  also have "\<dots> = a_llog s ?t ! i" using eq assms(3) by simp
  finally have "l ! i \<in> set (a_llog s ?t)"
    using matched_length [OF assms(2,4)] assms(3) by simp
  with assms(1) lead show ?thesis by (rule llog_terms_le)
qed

lemma last_term_ge:
  assumes "inv_llog s" "matched s l" "i < length l"
  shows "ent_term (l ! i) \<le> log_last_term l"
proof -
  have "ent_term (l ! i) \<le> ent_term (l ! (length l - 1))"
    using assms by (intro matched_sorted) auto
  with assms(3) show ?thesis by (auto simp: log_last_term_def last_conv_nth)
qed

section \<open>Preservation\<close>

lemma matched_upd [simp]:
  "matched (s\<lparr>a_term := f1\<rparr>) l = matched s l" "matched (s\<lparr>a_vote := f2\<rparr>) l = matched s l"
  "matched (s\<lparr>a_log := f3\<rparr>) l = matched s l" "matched (s\<lparr>a_commit := f4\<rparr>) l = matched s l"
  "matched (s\<lparr>a_active := f5\<rparr>) l = matched s l" "matched (s\<lparr>a_ilog := f6\<rparr>) l = matched s l"
  "matched (s\<lparr>a_clog := f7\<rparr>) l = matched s l" "matched (s\<lparr>a_votes := f8\<rparr>) l = matched s l"
  "matched (s\<lparr>a_acked := f9\<rparr>) l = matched s l" "matched (s\<lparr>a_committed := f10\<rparr>) l = matched s l"
  by (simp_all add: matched_def)

lemma retained_grows:
  assumes "retained s t i l later" "history_grows s s'" "a_leader s t \<noteq> None" "i \<le> length (a_llog s t)"
    "later \<subseteq> later'"
  shows "retained s' t i l later'"
proof -
  from assms(2,3,4) have "take i (a_llog s' t) = take i (a_llog s t)"
    by (auto simp: history_grows_def)
  with assms(1,2,5) show ?thesis unfolding retained_def history_grows_def by (metis subsetD)
qed

lemma append_matched:
  assumes "ainv ms s" "a_active s c" "ent_term e = a_term s c"
    and "s' = s\<lparr>a_log := (a_log s)(c := a_log s c @ [e]),
                a_llog := (a_llog s)(a_term s c := a_llog s (a_term s c) @ [e])\<rparr>"
  shows "matched s' (a_llog s (a_term s c) @ [e])" and "a_log s c = a_llog s (a_term s c)"
    and "a_leader s (a_term s c) = Some c"
proof -
  let ?t = "a_term s c"
  show lead: "a_leader s ?t = Some c" and eq: "a_log s c = a_llog s ?t"
    using ainvD(6) [OF assms(1)] assms(2) by (auto simp: inv_active_def)
  have "history_grows s s'"
    using astep.leader_append [OF assms(2,3)] assms(4) by (blast intro: astep_history_grows)
  then have "matched s' (a_llog s ?t)"
    using ainvD(2) [OF assms(1)] lead by (auto simp: inv_llog_def intro: matched_grows)
  then show "matched s' (a_llog s ?t @ [e])"
    by (rule matched_snoc) (simp_all add: assms(3,4) lead)
qed

lemma adopt_matched:
  assumes "matched s own" "matched s leader"
  shows "matched s (adopt leader n own)"
  using assms by (simp add: adopt_def matched_take)

lemma set_adopt: "set (adopt leader n own) \<subseteq> set own \<union> set leader"
  using set_take_subset [of n leader] by (auto simp: adopt_def)

lemma step_inv_log:
  assumes "ainv ms s" "astep ms s s'"
  shows "inv_log s'"
proof -
  note I = ainvD [OF assms(1)]
  have grow: "history_grows s s'" using assms(2) by (rule astep_history_grows)
  have old: "matched s' (a_log s n)" and tm: "e \<in> set (a_log s n) \<Longrightarrow> ent_term e \<le> a_term s' n" for n e
    using I(1) grow astep_term_mono [OF assms(2)]
    by (auto simp: inv_log_def intro: matched_grows order_trans)
  from assms(2) show ?thesis
  proof cases
    case (leader_append c e)
    note am = append_matched [OF assms(1) leader_append(2,3,1)]
    show ?thesis
      using old tm am leader_append by (auto simp: inv_log_def)
  next
    case (receive v l n new)
    have "matched s' (a_llog s (a_term s v))"
      using I(2) grow receive by (auto simp: inv_llog_def intro: matched_grows)
    then have m: "matched s' new" using receive old by (simp add: adopt_matched)
    have "ent_term e \<le> a_term s v" if "e \<in> set new" for e
      using that set_adopt [of "a_llog s (a_term s v)" n "a_log s v"] receive tm [of e v]
        llog_terms_le [OF I(2), of "a_term s v" e] by auto
    with m old tm receive show ?thesis by (auto simp: inv_log_def)
  qed (use old tm in \<open>auto simp: inv_log_def\<close>)
qed

lemma step_inv_llog:
  assumes "ainv ms s" "astep ms s s'"
  shows "inv_llog s'"
proof -
  note I = ainvD [OF assms(1)]
  have grow: "history_grows s s'" using assms(2) by (rule astep_history_grows)
  have old: "a_leader s t \<noteq> None \<Longrightarrow> matched s' (a_llog s t)" for t
    using I(2) grow by (auto simp: inv_llog_def intro: matched_grows)
  from assms(2) show ?thesis
  proof cases
    case (become_leader t c V)
    have "matched s' (a_log s c)" using I(1) grow by (auto simp: inv_log_def intro: matched_grows)
    moreover have "\<forall>e \<in> set (a_log s c). ent_term e < t"
      using I(3) become_leader by (auto simp: inv_clog_def)
    ultimately show ?thesis using I(2) old become_leader by (auto simp: inv_llog_def)
  next
    case (leader_append c e)
    note am = append_matched [OF assms(1) leader_append(2,3,1)]
    obtain es where "a_llog s (a_term s c) = a_ilog s (a_term s c) @ es" "\<forall>e \<in> set es. ent_term e = a_term s c"
      by (rule llog_split [OF I(2), of "a_term s c"]) (use am(3) in auto)
    then have "\<exists>es. a_llog s (a_term s c) @ [e] = a_ilog s (a_term s c) @ es \<and> (\<forall>e \<in> set es. ent_term e = a_term s c)"
      using leader_append(3) by (intro exI [of _ "es @ [e]"]) auto
    then show ?thesis using I(2) old am leader_append by (auto simp: inv_llog_def)
  qed (use I(2) in \<open>auto simp: inv_llog_def\<close>)
qed

lemma step_inv_clog:
  assumes "ainv ms s" "astep ms s s'"
  shows "inv_clog s'"
proof -
  note I = ainvD [OF assms(1)]
  have grow: "history_grows s s'" using assms(2) by (rule astep_history_grows)
  have old: "a_clog s t c = Some cl \<Longrightarrow> 0 < t \<and> t \<le> a_term s' c \<and> matched s' cl \<and> (\<forall>e \<in> set cl. ent_term e < t)" for t c cl
    using I(3) grow astep_term_mono [OF assms(2), of c] by (auto simp: inv_clog_def intro: matched_grows order_trans)
  from assms(2) show ?thesis
  proof cases
    case (campaign c t)
    have "matched s' (a_log s c)" "\<forall>e \<in> set (a_log s c). ent_term e < t"
      using I(1) grow campaign(2) by (auto simp: inv_log_def intro: matched_grows le_less_trans)
    moreover have "0 < t" using campaign(2) by (metis word_gt_0 word_not_simps(1))
    ultimately have new: "0 < t \<and> t \<le> a_term s' c \<and> matched s' (a_log s c) \<and> (\<forall>e \<in> set (a_log s c). ent_term e < t)"
      using campaign by simp
    have "cl = a_log s c \<and> t' = t \<and> d = c \<or> a_clog s t' d = Some cl" if "a_clog s' t' d = Some cl" for t' d cl
      using that campaign by (auto split: if_splits)
    with new old show ?thesis unfolding inv_clog_def by blast
  qed (use old in \<open>auto simp: inv_clog_def\<close>)
qed

lemma clog_fresh: "inv_clog s \<Longrightarrow> a_term s c < t \<Longrightarrow> a_clog s t c = None"
  by (metis inv_clog_def leD not_None_eq)

lemma step_inv_votes:
  assumes "ainv ms s" "astep ms s s'"
  shows "inv_votes s'"
proof -
  note I = ainvD [OF assms(1)]
  have grow: "history_grows s s'" using assms(2) by (rule astep_history_grows)
  have old: "t \<le> a_term s v \<and> (a_term s v = t \<longrightarrow> a_vote s v = Some c) \<and> matched s' l \<and>
      (\<exists>cl. a_clog s t c = Some cl \<and> up_to_date cl l)" if "a_votes s t v = Some (c, l)" for t v c l
    using I(4) grow that unfolding inv_votes_def by (blast intro: matched_grows)
  have lg: "matched s' (a_log s n)" for n
    using I(1) grow by (auto simp: inv_log_def intro: matched_grows)
  from assms(2) show ?thesis
  proof cases
    case (adv_term n t)
    show ?thesis
      unfolding inv_votes_def
    proof (intro allI impI)
      fix t' v c l assume "a_votes s' t' v = Some (c, l)"
      then have "a_votes s t' v = Some (c, l)" using adv_term by simp
      from old [OF this] adv_term show "t' \<le> a_term s' v \<and> (a_term s' v = t' \<longrightarrow> a_vote s' v = Some c) \<and>
          matched s' l \<and> (\<exists>cl. a_clog s' t' c = Some cl \<and> up_to_date cl l)"
        by auto
    qed
  next
    case (campaign c t)
    note fresh = clog_fresh [OF I(3) campaign(2)]
    show ?thesis
      unfolding inv_votes_def
    proof (intro allI impI)
      fix t' v d l assume vt: "a_votes s' t' v = Some (d, l)"
      show "t' \<le> a_term s' v \<and> (a_term s' v = t' \<longrightarrow> a_vote s' v = Some d) \<and>
          matched s' l \<and> (\<exists>cl. a_clog s' t' d = Some cl \<and> up_to_date cl l)"
      proof (cases "a_votes s t' v = Some (d, l)")
        case True
        from old [OF True] fresh campaign show ?thesis by auto
      next
        case False
        with vt campaign have "t' = t" "v = c" "d = c" "l = a_log s c" by (auto split: if_splits)
        with lg campaign show ?thesis by (auto simp: up_to_date_def)
      qed
    qed
  next
    case (vote v t c cl)
    show ?thesis
      unfolding inv_votes_def
    proof (intro allI impI)
      fix t' w d l assume vt: "a_votes s' t' w = Some (d, l)"
      show "t' \<le> a_term s' w \<and> (a_term s' w = t' \<longrightarrow> a_vote s' w = Some d) \<and>
          matched s' l \<and> (\<exists>cl. a_clog s' t' d = Some cl \<and> up_to_date cl l)"
      proof (cases "t' = t \<and> w = v \<and> a_leader s t = None")
        case True
        with vt vote have "d = c" "l = a_log s v" by auto
        with True lg vote show ?thesis by auto
      next
        case False
        with vt vote have "a_votes s t' w = Some (d, l)" by (auto split: if_splits)
        from old [OF this] vote show ?thesis by auto
      qed
    qed
  qed (use old in \<open>auto simp: inv_votes_def\<close>)
qed

lemma step_inv_leader:
  assumes "ainv ms s" "astep ms s s'"
  shows "inv_leader ms s'"
proof -
  note I = ainvD [OF assms(1)]
  have old: "a_clog s t c = Some (a_ilog s t) \<and> (\<exists>V. majority ms V \<and> (\<forall>v \<in> V. \<exists>l. a_votes s t v = Some (c, l)))"
    if "a_leader s t = Some c" for t c
    using I(5) that unfolding inv_leader_def by blast
  from assms(2) show ?thesis
  proof cases
    case (campaign c t)
    note fresh = clog_fresh [OF I(3) campaign(2)]
    show ?thesis
      unfolding inv_leader_def
    proof (intro allI impI)
      fix t' d assume "a_leader s' t' = Some d"
      then have ld: "a_leader s t' = Some d" using campaign by simp
      from old [OF this] fresh have "\<not> (t' = t \<and> d = c)" by auto
      with old [OF ld] ld campaign
      show "a_clog s' t' d = Some (a_ilog s' t') \<and> (\<exists>V. majority ms V \<and> (\<forall>v \<in> V. \<exists>l. a_votes s' t' v = Some (d, l)))"
        by (cases "t' = t") auto
    qed
  next
    case (vote v t c cl)
    show ?thesis
      unfolding inv_leader_def
    proof (intro allI impI)
      fix t' d assume "a_leader s' t' = Some d"
      then have ld: "a_leader s t' = Some d" using vote by simp
      with old [OF ld] vote
      show "a_clog s' t' d = Some (a_ilog s' t') \<and> (\<exists>V. majority ms V \<and> (\<forall>v \<in> V. \<exists>l. a_votes s' t' v = Some (d, l)))"
        by (cases "t' = t") auto
    qed
  next
    case (become_leader t c V)
    then show ?thesis using old unfolding inv_leader_def by auto
  qed (use old in \<open>auto simp: inv_leader_def\<close>)
qed

lemma step_inv_active:
  assumes "ainv ms s" "astep ms s s'"
  shows "inv_active s'"
proof -
  note I = ainvD(6) [OF assms(1)]
  from assms(2) show ?thesis
  proof cases
    case (leader_append c e)
    have "n = c" if "a_active s n" "a_term s n = a_term s c" for n
      using that I leader_append(2) unfolding inv_active_def by (metis option.inject)
    with leader_append I show ?thesis by (auto simp: inv_active_def)
  next
    case (receive v l n new)
    have "\<not> a_active s v" using receive I unfolding inv_active_def by (metis option.inject)
    with receive I show ?thesis by (auto simp: inv_active_def)
  qed (use I in \<open>auto simp: inv_active_def\<close>)
qed

lemma step_inv_committed:
  assumes "ainv ms s" "astep ms s s'"
  shows "inv_committed ms s'"
proof -
  note I = ainvD(8) [OF assms(1)]
  have grow: "history_grows s s'" using assms(2) by (rule astep_history_grows)
  have acked: "a_acked s t a \<le> a_acked s' t a" for t a
    using assms(2) by cases auto
  have old: "a_leader s' t \<noteq> None \<and> 0 < i \<and> i \<le> length (a_llog s' t) \<and> ent_term (a_llog s' t ! (i - 1)) = t \<and>
     (\<exists>Q. majority ms Q \<and> (\<forall>a \<in> Q. i \<le> a_acked s' t a))" if com: "(t, i) \<in> a_committed s" for t i
  proof -
    from com I have lead: "a_leader s t \<noteq> None" and i: "0 < i" "i \<le> length (a_llog s t)"
      and last: "ent_term (a_llog s t ! (i - 1)) = t" and Q: "\<exists>Q. majority ms Q \<and> (\<forall>a \<in> Q. i \<le> a_acked s t a)"
      unfolding inv_committed_def by blast+
    from grow lead obtain es where es: "a_leader s' t \<noteq> None" "a_llog s' t = a_llog s t @ es"
      unfolding history_grows_def by metis
    moreover have "a_llog s' t ! (i - 1) = a_llog s t ! (i - 1)" using es i by (simp add: nth_append)
    moreover have "\<exists>Q. majority ms Q \<and> (\<forall>a \<in> Q. i \<le> a_acked s' t a)" using Q acked by (meson le_trans)
    ultimately show ?thesis using i last by simp
  qed
  from assms(2) show ?thesis
  proof cases
    case (commit_point t i Q)
    then show ?thesis using old unfolding inv_committed_def by auto
  qed (use old in \<open>auto simp: inv_committed_def\<close>)
qed

lemma retained_extend:
  assumes "retained s t i l later" "i \<le> length (a_llog s t)"
  shows "retained s t i (l @ es) later"
proof (cases "take i l = take i (a_llog s t)")
  case True
  then have "i \<le> length l" using assms(2) by (metis length_take min.absorb_iff2 min.cobounded1 min.absorb2)
  with True show ?thesis by (simp add: retained_def)
qed (use assms in \<open>simp add: retained_def\<close>)

text \<open>Receiving from the leader of the node's term keeps what was acknowledged.\<close>

lemma retained_adopt:
  assumes llog: "inv_llog s" and lead: "a_leader s u \<noteq> None" and n: "n \<le> length (a_llog s u)"
    and ret: "retained s t i l {.. u}" and i: "i \<le> length (a_llog s t)" and tu: "t \<le> u"
  shows "retained s t i (adopt (a_llog s u) n l) {.. u}"
proof (cases "take i l = take i (a_llog s t)")
  case False
  with ret show ?thesis by (simp add: retained_def)
next
  case True
  then have il: "i \<le> length l" using i by (metis length_take min.absorb_iff2 min.cobounded1 min.absorb2)
  show ?thesis
  proof (cases "take i (a_llog s u) = take i (a_llog s t)")
    case same: True
    then have "take i (adopt (a_llog s u) n l) = take i (a_llog s t)"
    proof (cases "i \<le> n")
      case True
      with same \<open>take i l = _\<close> show ?thesis by (simp add: adopt_def min_absorb1)
    next
      case False
      then have "n \<le> length l" "take n l = take n (a_llog s u)"
        using il same \<open>take i l = _\<close> by (auto simp: not_le) (metis less_imp_le min.absorb1 take_take)
      with \<open>take i l = _\<close> show ?thesis by (simp add: adopt_def)
    qed
    then show ?thesis by (simp add: retained_def)
  next
    case differ: False
    then have "t < u" using tu by (cases "t = u") auto
    moreover have "take i (a_ilog s u) \<noteq> take i (a_llog s t)"
    proof
      assume eq: "take i (a_ilog s u) = take i (a_llog s t)"
      then have "i \<le> length (a_ilog s u)" using i by (metis length_take min.absorb_iff2 min.cobounded1 min.absorb2)
      with eq differ ilog_prefix [OF llog lead] show False by simp
    qed
    ultimately show ?thesis using lead by (auto simp: retained_def)
  qed
qed

lemma step_inv_acked:
  assumes "ainv ms s" "astep ms s s'"
  shows "inv_acked s'"
proof -
  note I = ainvD [OF assms(1)]
  have grow: "history_grows s s'" using assms(2) by (rule astep_history_grows)
  have old: "t \<le> a_term s v" "a_leader s t \<noteq> None" "i \<le> length (a_llog s t)"
      "retained s t i (a_log s v) {.. a_term s v}"
      "a_votes s t' v = Some (c, l) \<Longrightarrow> t < t' \<Longrightarrow> retained s t i l {..< t'}"
    if "0 < i" "i \<le> a_acked s t v" for t v i t' c l
    using I(7) that unfolding inv_acked_def by blast+
  have basic: "t \<le> a_term s' v" "a_leader s' t \<noteq> None" "i \<le> length (a_llog s' t)"
    if "0 < i" "i \<le> a_acked s t v" for t v i
    using old(1-3) [OF that] astep_term_mono [OF assms(2), of v] grow unfolding history_grows_def
    by (auto intro: order_trans)
  have lift: "retained s' t i l later'" if "retained s t i l later" "0 < i" "i \<le> a_acked s t v" "later \<subseteq> later'" for t v i l later later'
    using retained_grows [OF that(1) grow old(2,3) [OF that(2,3)] that(4)] .
  have keep_log: "retained s' t i (a_log s' v) {.. a_term s' v}" if i: "0 < i" "i \<le> a_acked s t v" for t v i
  proof -
    have sub: "{.. a_term s v} \<subseteq> {.. a_term s' v}" using astep_term_mono [OF assms(2), of v] by auto
    from assms(2) have "retained s t i (a_log s' v) {.. a_term s v}"
    proof cases
      case (leader_append c e)
      with old(4) [OF i] retained_extend [OF old(4) [OF i] old(3) [OF i]] show ?thesis by auto
    next
      case (receive w l n new)
      with old(4) [OF i] retained_adopt [OF I(2) _ receive(4) _ old(3) [OF i]] old(1) [OF i] show ?thesis
        by auto
    qed (use old(4) [OF i] in auto)
    from lift [OF this i sub] show ?thesis .
  qed
  have keep_votes: "retained s' t i l {..< t'}"
    if i: "0 < i" "i \<le> a_acked s t v" and vt: "a_votes s' t' v = Some (c, l)" "t < t'" for t v i t' c l
  proof -
    have "retained s t i l {..< t'}"
    proof (cases "a_votes s t' v = Some (c, l)")
      case True
      with old(5) [OF i] vt show ?thesis by blast
    next
      case False
      from assms(2) show ?thesis
      proof cases
        case (campaign d u)
        with vt False have "t' = u" "v = d" "l = a_log s d" by (auto split: if_splits)
        moreover have "{.. a_term s d} \<subseteq> {..< u}" using campaign by auto
        ultimately show ?thesis using old(4) [OF i] unfolding retained_def by blast
      next
        case (vote w u d cl)
        with vt False have eq: "t' = a_term s v" "l = a_log s v" "a_leader s t' = None" by (auto split: if_splits)
        with old(4) [OF i] show ?thesis unfolding retained_def by (metis atMost_iff lessThan_iff order_le_less)
      qed (use vt False in auto)
    qed
    from lift [OF this i] show ?thesis by blast
  qed
  have core: "t \<le> a_term s' v \<and> a_leader s' t \<noteq> None \<and> i \<le> length (a_llog s' t) \<and>
      retained s' t i (a_log s' v) {.. a_term s' v} \<and>
      (\<forall>t' c l. a_votes s' t' v = Some (c, l) \<and> t < t' \<longrightarrow> retained s' t i l {..< t'})"
    if "0 < i" "i \<le> a_acked s t v" for t v i
    using basic [OF that] keep_log [OF that] keep_votes [OF that] by blast
  have whole: "inv_acked s'" if "a_acked s' = a_acked s"
    unfolding inv_acked_def that by (intro allI impI core) simp_all
  from assms(2) show ?thesis
  proof cases
    case (ack w u n)
    have new: "u \<le> a_term s' w \<and> a_leader s' u \<noteq> None \<and> i \<le> length (a_llog s' u) \<and>
       retained s' u i (a_log s' w) {.. a_term s' w} \<and>
       (\<forall>t' c l. a_votes s' t' w = Some (c, l) \<and> u < t' \<longrightarrow> retained s' u i l {..< t'})" if "i \<le> n" for i
    proof -
      have "take i (a_log s w) = take i (a_llog s u)" using ack that by (metis min.absorb1 take_take)
      moreover have "\<not> u < t'" if "a_votes s t' w = Some (c, l)" for t' c l
        using I(4) that ack unfolding inv_votes_def by (metis leD)
      ultimately show ?thesis using ack that by (auto simp: retained_def)
    qed
    show ?thesis
      unfolding inv_acked_def
    proof (intro allI impI)
      fix t v i assume i: "0 < i \<and> i \<le> a_acked s' t v"
      show "t \<le> a_term s' v \<and> a_leader s' t \<noteq> None \<and> i \<le> length (a_llog s' t) \<and>
        retained s' t i (a_log s' v) {.. a_term s' v} \<and>
        (\<forall>t' c l. a_votes s' t' v = Some (c, l) \<and> t < t' \<longrightarrow> retained s' t i l {..< t'})"
      proof (cases "i \<le> a_acked s t v")
        case True
        with i core [of i t v] show ?thesis by blast
      next
        case False
        with i ack have "t = u" "v = w" "i \<le> n" by (auto split: if_splits)
        with new show ?thesis by blast
      qed
    qed
  qed (rule whole, simp)+
qed

lemma step_inv_commit:
  assumes "ainv ms s" "astep ms s s'"
  shows "inv_commit s'"
proof -
  note I = ainvD [OF assms(1)]
  have grow: "history_grows s s'" using assms(2) by (rule astep_history_grows)
  have com: "a_committed s \<subseteq> a_committed s'" using assms(2) by cases auto
  have same: "take k (a_llog s' t) = take k (a_llog s t)" if "(t, i) \<in> a_committed s" "k \<le> i" for t i k
    using that I(8) grow unfolding inv_committed_def history_grows_def
    by (metis (no_types, lifting) le_trans take_append_same)
  have old: "a_commit s n \<le> length (a_log s n)" "0 < a_commit s n \<Longrightarrow>
     \<exists>t i. (t, i) \<in> a_committed s' \<and> t \<le> a_term s' n \<and> a_commit s n \<le> i \<and>
            take (a_commit s n) (a_log s n) = take (a_commit s n) (a_llog s' t)" for n
  proof -
    show "a_commit s n \<le> length (a_log s n)" using I(9) by (simp add: inv_commit_def)
    assume "0 < a_commit s n"
    with I(9) obtain t i where ti: "(t, i) \<in> a_committed s" "t \<le> a_term s n" "a_commit s n \<le> i"
      "take (a_commit s n) (a_log s n) = take (a_commit s n) (a_llog s t)"
      unfolding inv_commit_def by blast
    moreover have "t \<le> a_term s' n" using ti(2) astep_term_mono [OF assms(2), of n] by simp
    moreover have "(t, i) \<in> a_committed s'" using ti(1) com by blast
    ultimately show "\<exists>t i. (t, i) \<in> a_committed s' \<and> t \<le> a_term s' n \<and> a_commit s n \<le> i \<and>
            take (a_commit s n) (a_log s n) = take (a_commit s n) (a_llog s' t)"
      using same [OF ti(1,3)] by metis
  qed
  from assms(2) show ?thesis
  proof cases
    case (leader_append c e)
    have "take (a_commit s c) (a_log s c @ [e]) = take (a_commit s c) (a_log s c)" using old(1) [of c] by simp
    with old leader_append show ?thesis unfolding inv_commit_def by (auto simp: le_SucI)
  next
    case (receive v l n new)
    have "a_commit s' m \<le> length (a_log s' m) \<and> take (a_commit s' m) (a_log s' m) = take (a_commit s m) (a_log s m)" for m
      using receive old(1) [of m] by auto
    moreover have "a_commit s' = a_commit s" using receive by simp
    ultimately show ?thesis using old(2) unfolding inv_commit_def by (metis (no_types, lifting))
  next
    case (learn_commit t i n k)
    then show ?thesis using old unfolding inv_commit_def by auto
  qed (use old in \<open>auto simp: inv_commit_def\<close>)
qed

lemma step_ainv: "ainv ms s \<Longrightarrow> astep ms s s' \<Longrightarrow> ainv ms s'"
  unfolding ainv_def [of ms s']
  by (intro conjI step_inv_log step_inv_llog step_inv_clog step_inv_votes step_inv_leader
      step_inv_active step_inv_acked step_inv_committed step_inv_commit)

lemma areach_ainv: "areach ms s \<Longrightarrow> ainv ms s"
  by (induction rule: areach.induct) (auto intro: ainv_init step_ainv)

section \<open>Leader completeness\<close>

text \<open>
  A candidate whose log is up to date with a voter that holds a prefix ending in term \<open>t\<close> holds
  that prefix too, provided the leaders between \<open>t\<close> and the candidate's term started with it.
\<close>

lemma up_to_date_has_prefix:
  assumes llog: "inv_llog s" and ml: "matched s l" and mc: "matched s cl"
    and utd: "up_to_date cl l" and i: "0 < i" "i \<le> length l"
    and pre: "take i l = take i (a_llog s t)" and last: "ent_term (a_llog s t ! (i - 1)) = t" and t0: "0 < t"
    and between: "\<And>u. u = log_last_term cl \<Longrightarrow> t < u \<Longrightarrow> a_leader s u \<noteq> None \<Longrightarrow>
        take i (a_ilog s u) = take i (a_llog s t)"
  shows "take i cl = take i (a_llog s t)"
proof -
  have len: "i \<le> length (a_llog s t)"
    using i pre by (metis length_take min.absorb_iff2 min.cobounded1 min.absorb2)
  have "l ! (i - 1) = a_llog s t ! (i - 1)"
    using pre i len by (metis Suc_diff_1 lessI nth_take)
  then have tl: "t \<le> log_last_term l"
    using last_term_ge [OF llog ml, of "i - 1"] i last by simp
  then have cl0: "cl \<noteq> []"
    using utd t0 by (auto simp: up_to_date_def log_last_term_def split: if_splits)
  note whole = matched_whole [OF mc cl0]
  show ?thesis
  proof (cases "log_last_term cl = log_last_term l")
    case True
    then have "length l \<le> length cl" using utd by (auto simp: up_to_date_def)
    moreover have "l \<noteq> []" using i by auto
    ultimately have "take i cl = take i l"
      using whole(1) matched_whole(1) [OF ml] True i
      by (metis (no_types, lifting) dual_order.trans min.absorb1 take_take)
    with pre show ?thesis by simp
  next
    case False
    let ?u = "log_last_term cl"
    have tu: "t < ?u" using False utd tl by (auto simp: up_to_date_def)
    have eq: "take i (a_ilog s ?u) = take i (a_llog s t)" using between [OF refl tu whole(2)] .
    then have il: "i \<le> length (a_ilog s ?u)" using len by (metis length_take min.absorb_iff2 min.cobounded1 min.absorb2)
    have "length (a_ilog s ?u) < length cl"
    proof (rule ccontr)
      assume "\<not> ?thesis"
      then have "length cl \<le> length (a_ilog s ?u)" by simp
      then have "cl = take (length cl) (a_ilog s ?u)"
        using whole ilog_prefix [OF llog whole(2)] by metis
      then have "last cl \<in> set (a_ilog s ?u)" using cl0 by (metis in_set_takeD last_in_set)
      then have "ent_term (last cl) < ?u" using llog whole(2) by (auto simp: inv_llog_def)
      with cl0 show False by (simp add: log_last_term_def)
    qed
    then have "take i cl = take i (a_llog s ?u)"
      using whole(1) il by (metis (no_types, lifting) dual_order.trans less_imp_le min.absorb1 take_take)
    also have "\<dots> = take i (a_ilog s ?u)" using ilog_prefix [OF llog whole(2) il] .
    finally show ?thesis using eq by simp
  qed
qed

lemma leader_completeness_ilog:
  assumes inv: "ainv ms s" and com: "(t, i) \<in> a_committed s"
  shows "t < u \<Longrightarrow> a_leader s u \<noteq> None \<Longrightarrow> take i (a_ilog s u) = take i (a_llog s t)"
proof (induction u rule: less_induct)
  case (less u)
  note I = ainvD [OF inv]
  from com I(8) have lead: "a_leader s t \<noteq> None" and i: "0 < i" "i \<le> length (a_llog s t)"
    and last: "ent_term (a_llog s t ! (i - 1)) = t"
    and "\<exists>Q. majority ms Q \<and> (\<forall>a \<in> Q. i \<le> a_acked s t a)"
    by (auto simp: inv_committed_def)
  then obtain Q where Q: "majority ms Q" "\<And>a. a \<in> Q \<Longrightarrow> i \<le> a_acked s t a" by blast
  from less.prems obtain c where c: "a_leader s u = Some c" by blast
  with I(5) obtain V where V: "majority ms V" "\<And>v. v \<in> V \<Longrightarrow> \<exists>l. a_votes s u v = Some (c, l)"
    and clog: "a_clog s u c = Some (a_ilog s u)"
    unfolding inv_leader_def by blast
  from maj.common_member [OF Q(1) V(1)] obtain v where v: "v \<in> Q" "v \<in> V" by blast
  then obtain l where l: "a_votes s u v = Some (c, l)" using V(2) by blast
  have "retained s t i l {..< u}"
    using I(7) Q(2) [OF v(1)] i l less.prems unfolding inv_acked_def by blast
  moreover have "\<not> (\<exists>u' \<in> {..< u}. t < u' \<and> a_leader s u' \<noteq> None \<and> take i (a_ilog s u') \<noteq> take i (a_llog s t))"
    using less.IH by (metis lessThan_iff)
  ultimately have pre: "take i l = take i (a_llog s t)" by (auto simp: retained_def)
  then have il: "i \<le> length l" using i by (metis length_take min.absorb_iff2 min.cobounded1 min.absorb2)
  have ml: "matched s l" and utd: "up_to_date (a_ilog s u) l"
    using I(4) l clog unfolding inv_votes_def by (blast, metis option.inject)
  from I(3) clog have mc: "matched s (a_ilog s u)" and ct: "\<forall>e \<in> set (a_ilog s u). ent_term e < u"
    by (auto simp: inv_clog_def)
  have t0: "0 < t" using I(5,3) lead unfolding inv_leader_def inv_clog_def by blast
  show ?case
  proof (rule up_to_date_has_prefix [OF I(2) ml mc utd i(1) il pre last t0])
    fix w assume w: "w = log_last_term (a_ilog s u)" "t < w" "a_leader s w \<noteq> None"
    then have "a_ilog s u \<noteq> []" by (auto simp: log_last_term_def)
    then have "w < u" using ct w(1) by (simp add: log_last_term_def)
    with less.IH w show "take i (a_ilog s w) = take i (a_llog s t)" by blast
  qed
qed

lemma leader_completeness:
  assumes inv: "ainv ms s" and com: "(t, i) \<in> a_committed s" and "t \<le> u" "a_leader s u \<noteq> None"
  shows "take i (a_llog s u) = take i (a_llog s t)"
proof (cases "t = u")
  case False
  then have eq: "take i (a_ilog s u) = take i (a_llog s t)"
    using leader_completeness_ilog [OF inv com] assms by simp
  moreover have "i \<le> length (a_llog s t)" using com ainvD(8) [OF inv] by (auto simp: inv_committed_def)
  ultimately have "i \<le> length (a_ilog s u)" by (metis length_take min.absorb_iff2 min.cobounded1 min.absorb2)
  with eq ilog_prefix [OF ainvD(2) [OF inv] assms(4)] show ?thesis by simp
qed simp

text \<open>Two committed points agree on their common prefix.\<close>

lemma committed_agree:
  assumes "ainv ms s" "(t, i) \<in> a_committed s" "(u, j) \<in> a_committed s" "k \<le> i" "k \<le> j"
  shows "take k (a_llog s t) = take k (a_llog s u)"
proof -
  have wlog: "take k (a_llog s t') = take k (a_llog s u')"
    if "(t', i') \<in> a_committed s" "(u', j') \<in> a_committed s" "k \<le> i'" "t' \<le> u'" for t' u' i' j'
  proof -
    have "a_leader s u' \<noteq> None" using that(2) ainvD(8) [OF assms(1)] by (auto simp: inv_committed_def)
    then have "take i' (a_llog s u') = take i' (a_llog s t')"
      using leader_completeness [OF assms(1) that(1,4)] by blast
    then show ?thesis using that(3) by (metis min.absorb1 take_take)
  qed
  show ?thesis
    using wlog [OF assms(2,3,4)] wlog [OF assms(3,2,5)] linear [of t u] by force
qed

lemma commit_agree:
  assumes inv: "ainv ms s" and "k \<le> a_commit s m" "k \<le> a_commit s n"
  shows "take k (a_log s m) = take k (a_log s n)"
proof (cases "k = 0")
  case False
  from ainvD(9) [OF inv] False assms obtain t i u j where
    "(t, i) \<in> a_committed s" "a_commit s m \<le> i" "take (a_commit s m) (a_log s m) = take (a_commit s m) (a_llog s t)"
    "(u, j) \<in> a_committed s" "a_commit s n \<le> j" "take (a_commit s n) (a_log s n) = take (a_commit s n) (a_llog s u)"
    unfolding inv_commit_def by (metis bot_nat_0.not_eq_extremum le_zero_eq)
  then show ?thesis
    using committed_agree [OF inv, of t i u j k] assms(2,3)
    by (metis dual_order.trans min.absorb1 take_take)
qed simp

text \<open>
  The guard of \<open>receive\<close> always holds: a leader never asks a node to give up an entry that the
  node knows to be committed.
\<close>

lemma receive_keeps_commit:
  assumes inv: "ainv ms s" and lead: "a_leader s (a_term s v) \<noteq> None"
  shows "a_commit s v \<le> length (adopt (a_llog s (a_term s v)) n (a_log s v)) \<and>
    take (a_commit s v) (adopt (a_llog s (a_term s v)) n (a_log s v)) = take (a_commit s v) (a_log s v)"
proof (cases "a_commit s v = 0")
  case False
  let ?k = "a_commit s v" and ?u = "a_term s v"
  from ainvD(9) [OF inv] False have len: "?k \<le> length (a_log s v)" by (simp add: inv_commit_def)
  from ainvD(9) [OF inv] False obtain t i where ti: "(t, i) \<in> a_committed s" "t \<le> ?u" "?k \<le> i"
    "take ?k (a_log s v) = take ?k (a_llog s t)"
    unfolding inv_commit_def by blast
  have "take i (a_llog s ?u) = take i (a_llog s t)"
    using leader_completeness [OF inv ti(1,2) lead] .
  then have eq: "take ?k (a_log s v) = take ?k (a_llog s ?u)"
    using ti(3,4) by (metis min.absorb1 take_take)
  then have lu: "?k \<le> length (a_llog s ?u)" using len by (metis length_take min.absorb_iff2 min.cobounded1 min.absorb2)
  show ?thesis
  proof (cases "?k \<le> n")
    case True
    with eq lu len show ?thesis by (simp add: adopt_def min_absorb1)
  next
    case False
    then have "n \<le> length (a_log s v)" "take n (a_log s v) = take n (a_llog s ?u)"
      using len eq by (auto simp: not_le) (metis less_imp_le min.absorb1 take_take)
    with len show ?thesis by (simp add: adopt_def)
  qed
qed simp

end
