(* ===== verification/ReferenceSimulation.thy ===== *)
theory ReferenceSimulation
  imports ReferenceModel AbstractRaftSafety
begin

text \<open>
  The runs of the reference model and the relation that ties its states to the abstract
  protocol: a model and an abstract state agree on terms, votes, logs and leaders, and an active
  leader of the model is active in the abstract state. The relation comes in two strengths, with and
  without the commit indices: elections and replication refine the protocol in every run, commits
  only in the runs whose commit certificates are current.
\<close>

section \<open>Runs\<close>

text \<open>The model after a list of actions, accepted or refused.\<close>

fun after_actions :: "RefModel \<Rightarrow> Action list \<Rightarrow> RefModel" where
  "after_actions m [] = m"
| "after_actions m (a # as) = after_actions (fst (apply_action m a)) as"

text \<open>
  A condition on the actions that the safety of commits needs: an acknowledgement counts for a
  leader's commit only while the acknowledging replica has not moved to a higher term.
  (\<^verbatim>\<open>RaftNode\<close> enforces it by comparing the response's term with its own; \<^verbatim>\<open>Model::commit\<close> does
  not check it.)
\<close>

fun acks_current :: "RefModel \<Rightarrow> Action \<Rightarrow> bool" where
  "acks_current m (CommitPrefix l t acks) =
     (case find_replica m l of
        None \<Rightarrow> True
      | Some source \<Rightarrow> list_all (\<lambda>a. case find_replica m a of
            None \<Rightarrow> True | Some r \<Rightarrow> rs_current_term r \<le> rs_current_term source) acks)"
| "acks_current m _ = True"

fun certificates_current :: "RefModel \<Rightarrow> Action list \<Rightarrow> bool" where
  "certificates_current m [] \<longleftrightarrow> True"
| "certificates_current m (a # as) \<longleftrightarrow> acks_current m a \<and> certificates_current (fst (apply_action m a)) as"

section \<open>Frames\<close>

lemma ref_execute_frame:
  "fst (ref_execute r i c) = r\<lparr>rs_values := rs_values (fst (ref_execute r i c)),
     rs_sessions := rs_sessions (fst (ref_execute r i c))\<rparr>"
  by (simp add: ref_execute_def split_beta)

lemma interpret_frame:
  "\<exists>vals sess. fst (interpret_command r i c) = r\<lparr>rs_values := vals, rs_sessions := sess\<rparr>"
proof -
  have keep: "\<exists>vals sess. r = r\<lparr>rs_values := vals, rs_sessions := sess\<rparr>"
    by (rule exI [of _ "rs_values r"], rule exI [of _ "rs_sessions r"]) simp
  have "\<exists>vals sess. fst (ref_execute r i c) = r\<lparr>rs_values := vals, rs_sessions := sess\<rparr>"
    using ref_execute_frame by blast
  with keep show ?thesis by (simp add: interpret_command_def split: option.split)
qed

text \<open>Applying entries changes only the applied state.\<close>

definition same_protocol_state :: "ReplicaState \<Rightarrow> ReplicaState \<Rightarrow> bool" where
  "same_protocol_state r r' \<longleftrightarrow> rs_id r' = rs_id r \<and> rs_alive r' = rs_alive r \<and>
     rs_active_leader r' = rs_active_leader r \<and> rs_current_term r' = rs_current_term r \<and>
     rs_voted_for r' = rs_voted_for r \<and> rs_commit_index r' = rs_commit_index r \<and>
     rs_log r' = rs_log r"

lemma apply_one_frame: "same_protocol_state r (apply_one r)"
proof -
  have "same_protocol_state (r\<lparr>rs_last_applied := i\<rparr>) (fst (interpret_command (r\<lparr>rs_last_applied := i\<rparr>) i c))" for i c
    using interpret_frame [of "r\<lparr>rs_last_applied := i\<rparr>" i c] by (auto simp: same_protocol_state_def)
  then show ?thesis
    by (auto simp: same_protocol_state_def apply_one_def Let_def split_beta split: option.split)
qed

lemma same_protocol_state_trans:
  "same_protocol_state r r' \<Longrightarrow> same_protocol_state r' r'' \<Longrightarrow> same_protocol_state r r''"
  by (simp add: same_protocol_state_def)

lemma apply_through_frame: "same_protocol_state r (apply_through r t)"
proof (induction r t rule: apply_through.induct)
  case (1 r t)
  show ?case
  proof (cases "rs_last_applied r < t")
    case True
    with 1 have "same_protocol_state (apply_one r) (apply_through (apply_one r) t)" by blast
    with True show ?thesis
      by (subst apply_through.simps) (auto intro: same_protocol_state_trans [OF apply_one_frame])
  next
    case False
    then show ?thesis by (subst apply_through.simps) (simp add: same_protocol_state_def)
  qed
qed

section \<open>Simulation\<close>

text \<open>With \<open>b\<close> the abstract commit indices are those of the model, without it the abstract state commits nothing.\<close>

definition sim :: "bool \<Rightarrow> NodeId list \<Rightarrow> RefModel \<Rightarrow> AbsState \<Rightarrow> bool" where
  "sim b ms m s \<longleftrightarrow> md_members m = ms \<and> fset (fmdom (md_replicas m)) = set ms \<and>
     (\<forall>t. a_leader s t = fmlookup (md_leaders m) t) \<and>
     (\<forall>n r. find_replica m n = Some r \<longrightarrow> rs_id r = n \<and> a_term s n = rs_current_term r \<and>
        a_vote s n = rs_voted_for r \<and> a_log s n = rs_log r \<and> a_commit s n = (if b then unat (rs_commit_index r) else 0) \<and>
        (rs_active_leader r \<longrightarrow> a_active s n))"

lemma simD:
  assumes "sim b ms m s" "find_replica m n = Some r"
  shows "rs_id r = n" "a_term s n = rs_current_term r" "a_vote s n = rs_voted_for r" "a_log s n = rs_log r"
    "a_commit s n = (if b then unat (rs_commit_index r) else 0)" "rs_active_leader r \<Longrightarrow> a_active s n" "n \<in> set ms"
  using assms by (auto simp: sim_def find_replica_def dest: fmdomI)

lemma sim_members: "sim b ms m s \<Longrightarrow> md_members m = ms" "sim b ms m s \<Longrightarrow> a_leader s t = fmlookup (md_leaders m) t"
  by (simp_all add: sim_def)

lemma find_put [simp]:
  "find_replica (put_replica m n r) k = (if k = n then Some r else find_replica m k)"
  "md_members (put_replica m n r) = md_members m" "md_leaders (put_replica m n r) = md_leaders m"
  "fmdom (md_replicas (put_replica m n r)) = finsert n (fmdom (md_replicas m))"
  by (auto simp: find_replica_def put_replica_def)

text \<open>Replacing one replica keeps the simulation when the new replica matches the new abstract node.\<close>

lemma sim_put:
  assumes "sim b ms m s" and "find_replica m n = Some r" and "rs_id r' = n"
    and "a_term s' n = rs_current_term r'" "a_vote s' n = rs_voted_for r'" "a_log s' n = rs_log r'"
      "a_commit s' n = (if b then unat (rs_commit_index r') else 0)" "rs_active_leader r' \<longrightarrow> a_active s' n"
    and "a_leader s' = a_leader s"
    and "\<And>k. k \<noteq> n \<Longrightarrow> a_term s' k = a_term s k \<and> a_vote s' k = a_vote s k \<and> a_log s' k = a_log s k \<and>
           a_commit s' k = a_commit s k \<and> (a_active s k \<longrightarrow> a_active s' k)"
  shows "sim b ms (put_replica m n r') s'"
proof -
  have "n \<in> set ms" using simD(7) [OF assms(1,2)] .
  then show ?thesis using assms unfolding sim_def by (auto simp: insert_absorb)
qed

section \<open>Every action is simulated\<close>

lemma add_members_lookup:
  "add_members ns reps = Inr reps' \<Longrightarrow>
   fmlookup reps' n = (if n \<in> set ns then Some (initial_replica n) else fmlookup reps n)"
  by (induction ns arbitrary: reps) (auto split: if_splits)

lemma sim_init:
  assumes "new_model ms = Inr m"
  shows "sim b ms m abs_init"
proof -
  from assms obtain reps where reps: "add_members ms fmempty = Inr reps"
    and m: "m = \<lparr>md_members = ms, md_replicas = reps, md_leaders = fmempty\<rparr>"
    by (auto simp: new_model_def bind_res_eq_Inr split: if_splits)
  have look: "fmlookup reps n = (if n \<in> set ms then Some (initial_replica n) else None)" for n
    using add_members_lookup [OF reps] by simp
  then have "fset (fmdom reps) = set ms" by (auto simp: fmlookup_dom_iff split: if_splits)
  with m look show ?thesis
    by (auto simp: sim_def find_replica_def abs_init_def initial_replica_def split: if_splits)
qed

lemma check_voters_ok:
  "check_voters m c t cand vs seen = Inr us \<Longrightarrow> distinct seen \<Longrightarrow>
   us = seen @ vs \<and> distinct us \<and>
   (\<forall>v \<in> set vs. \<exists>r. find_replica m v = Some r \<and> rs_current_term r \<le> t \<and>
      (rs_current_term r = t \<longrightarrow> rs_voted_for r = None \<or> rs_voted_for r = Some c) \<and>
      ref_candidate_is_up_to_date cand r)"
proof (induction vs arbitrary: seen)
  case Nil
  then show ?case by simp
next
  case (Cons v vs)
  from Cons.prems obtain r where r: "find_replica m v = Some r" "v \<notin> set seen" "rs_current_term r \<le> t"
      "rs_current_term r = t \<longrightarrow> rs_voted_for r = None \<or> rs_voted_for r = Some c"
      "ref_candidate_is_up_to_date cand r" "check_voters m c t cand vs (seen @ [v]) = Inr us"
    by (auto split: option.splits if_splits simp: not_less)
  have "distinct (seen @ [v])" using r(2) Cons.prems(2) by simp
  from Cons.IH [OF r(6) this] r show ?case by auto
qed

lemma cast_votes_lookup:
  assumes "distinct vs"
  shows "fmlookup (cast_votes t c vs reps) n =
    (if n \<in> set vs then map_option (cast_vote t c) (fmlookup reps n) else fmlookup reps n)"
proof -
  have "distinct ws \<Longrightarrow> fmlookup (foldl (\<lambda>rs v. case fmlookup rs v of None \<Rightarrow> rs | Some r \<Rightarrow> fmupd v (cast_vote t c r) rs) reps ws) n =
      (if n \<in> set ws then map_option (cast_vote t c) (fmlookup reps n) else fmlookup reps n)" for ws
    by (induction ws arbitrary: reps) (auto split: option.splits)
  from this [of "sort vs"] assms show ?thesis by (simp add: cast_votes_def)
qed

lemma up_to_date_ref: "ref_candidate_is_up_to_date c v = up_to_date (rs_log c) (rs_log v)"
  by (auto simp: ref_candidate_is_up_to_date_def up_to_date_def last_term_def log_last_term_def Let_def)

text \<open>The abstract nodes other than those of \<open>vs\<close> are as before.\<close>

definition voted_frame :: "Term \<Rightarrow> NodeId \<Rightarrow> NodeId set \<Rightarrow> AbsState \<Rightarrow> AbsState \<Rightarrow> bool" where
  "voted_frame t c vs s s' \<longleftrightarrow> a_log s' = a_log s \<and> a_commit s' = a_commit s \<and> a_leader s' = a_leader s \<and>
     a_clog s' = a_clog s \<and>
     (\<forall>n. a_term s' n = (if n \<in> vs then t else a_term s n)) \<and>
     (\<forall>n. a_vote s' n = (if n \<in> vs then Some c else a_vote s n)) \<and>
     (\<forall>n. a_active s' n = (a_active s n \<and> \<not> (n \<in> vs \<and> a_term s n < t))) \<and>
     (\<forall>n. n \<notin> vs \<longrightarrow> a_votes s' t n = a_votes s t n) \<and>
     (\<forall>v \<in> vs. \<exists>l. a_votes s' t v = Some (c, l))"

lemma areach_vote:
  assumes "areach ms s" and "a_clog s t c = Some cl" and "a_leader s t = None" and "a_term s v \<le> t"
    and "a_term s v = t \<longrightarrow> a_vote s v = None \<or> a_vote s v = Some c" and "up_to_date cl (a_log s v)"
  shows "\<exists>s'. areach ms s' \<and> voted_frame t c {v} s s'"
proof (cases "a_term s v = t")
  case True
  let ?s = "s\<lparr>a_vote := (a_vote s)(v := Some c),
       a_votes := (if a_leader s t = None then (a_votes s)(t := (a_votes s t)(v := Some (c, a_log s v))) else a_votes s)\<rparr>"
  have "astep ms s ?s" using True assms by (intro astep.vote) auto
  with assms(1) have "areach ms ?s" by (rule areach_step)
  moreover have "voted_frame t c {v} s ?s" using True assms(3) by (auto simp: voted_frame_def)
  ultimately show ?thesis by blast
next
  case False
  let ?s1 = "s\<lparr>a_term := (a_term s)(v := t), a_vote := (a_vote s)(v := None), a_active := (a_active s)(v := False)\<rparr>"
  let ?s = "?s1\<lparr>a_vote := (a_vote ?s1)(v := Some c),
       a_votes := (if a_leader ?s1 t = None then (a_votes ?s1)(t := (a_votes ?s1 t)(v := Some (c, a_log ?s1 v))) else a_votes ?s1)\<rparr>"
  have lt: "a_term s v < t" using False assms(4) by simp
  with assms(1) have "areach ms ?s1" by (blast intro: areach_step astep.adv_term)
  moreover have "astep ms ?s1 ?s" using assms by (intro astep.vote) auto
  ultimately have "areach ms ?s" by (rule areach_step)
  moreover have "voted_frame t c {v} s ?s" using lt assms(3) by (auto simp: voted_frame_def)
  ultimately show ?thesis by blast
qed

lemma areach_votes:
  assumes "areach ms s" and "a_clog s t c = Some cl" and "a_leader s t = None" and "distinct vs"
    and "\<forall>v \<in> set vs. a_term s v \<le> t \<and> (a_term s v = t \<longrightarrow> a_vote s v = None \<or> a_vote s v = Some c) \<and>
           up_to_date cl (a_log s v)"
  shows "\<exists>s'. areach ms s' \<and> voted_frame t c (set vs) s s'"
  using assms
proof (induction vs arbitrary: s)
  case Nil
  then show ?case by (intro exI [of _ s]) (auto simp: voted_frame_def)
next
  case (Cons v vs)
  then obtain s1 where s1: "areach ms s1" "voted_frame t c {v} s s1"
    using areach_vote [of ms s t c cl v] by auto
  have "\<exists>s'. areach ms s' \<and> voted_frame t c (set vs) s1 s'"
    using Cons.prems s1 by (intro Cons.IH) (auto simp: voted_frame_def)
  then obtain s' where "areach ms s'" "voted_frame t c (set vs) s1 s'" by blast
  with s1 Cons.prems(4) show ?case
    by (intro exI [of _ s']) (auto simp: voted_frame_def)
qed

end
