(* ===== verification/ReferenceReplay.thy ===== *)
theory ReferenceReplay
  imports ReferenceModel
begin

text \<open>
  The reference model against the production machine: what a replica of the model has applied is
  what \<^verbatim>\<open>KvStateMachine\<close> computes from the replica's committed entries. The two differ only in
  how a retry is recognised (field by field, or by digest), so the comparison assumes that no two
  different requests of a session with one sequence number share a digest.
\<close>

section \<open>The correspondence\<close>

definition commands :: "LogEntry list \<Rightarrow> ClientCommand list" where
  "commands es = List.map_filter ent_command es"

definition digests_separate :: "LogEntry list \<Rightarrow> bool" where
  "digests_separate es \<longleftrightarrow> list_all (\<lambda>c. list_all (\<lambda>d.
     cmd_session c = cmd_session d \<and> cmd_sequence c = cmd_sequence d \<and> command_digest c = command_digest d
       \<longrightarrow> same_request c d) (commands es)) (commands es)"

definition session_record :: "SessionState \<Rightarrow> SessionRecord" where
  "session_record s = \<lparr>sr_sequence = cmd_sequence (ss_command s), sr_command_digest = command_digest (ss_command s),
     sr_status = ss_status s, sr_result = ss_result s\<rparr>"

definition outcome_of :: "LogIndex \<Rightarrow> ApplyResult \<Rightarrow> AppliedOutcome" where
  "outcome_of i a = \<lparr>ao_index = i, ao_status = ar_status a, ao_value = ar_value a,
     ao_executed = ar_executed a, ao_duplicate = ar_duplicate a\<rparr>"

text \<open>The results the production machine returns along a log; no-ops have none.\<close>

definition entry_result :: "KvStateMachine \<Rightarrow> LogEntry \<Rightarrow> ApplyResult option" where
  "entry_result m e = map_option (\<lambda>c. snd (kv_apply m c)) (ent_command e)"

fun replay_results :: "KvStateMachine \<Rightarrow> LogEntry list \<Rightarrow> ApplyResult option list" where
  "replay_results m [] = []"
| "replay_results m (e # es) = entry_result m e # replay_results (apply_entry m e) es"

definition sessions_of :: "LogEntry list \<Rightarrow> (SessionId, SessionState) fmap \<Rightarrow> bool" where
  "sessions_of es ss \<longleftrightarrow> (\<forall>i s. fmlookup ss i = Some s \<longrightarrow>
     ss_command s \<in> set (commands es) \<and> cmd_session (ss_command s) = i)"

definition replayed :: "ReplicaState \<Rightarrow> bool" where
  "replayed r \<longleftrightarrow> (let es = take (unat (rs_last_applied r)) (rs_log r); m = replay kv_empty es in
     rs_values r = sm_values m \<and> fmmap session_record (rs_sessions r) = sm_sessions m \<and>
     sessions_of es (rs_sessions r) \<and>
     (\<forall>i. fmlookup (rs_outcomes r) i =
        (if 0 < i \<and> i \<le> rs_last_applied r
         then map_option (outcome_of i) (replay_results kv_empty es ! (unat i - 1)) else None)))"

section \<open>One entry\<close>

lemma replay_snoc: "replay m (es @ [e]) = apply_entry (replay m es) e"
  by (simp add: replay_def)

lemma replay_results_snoc:
  "replay_results m (es @ [e]) = replay_results m es @ [entry_result (replay m es) e]"
  by (induction es arbitrary: m) (simp_all add: replay_def)

lemma length_replay_results [simp]: "length (replay_results m es) = length es"
  by (induction es arbitrary: m) simp_all

lemma commands_snoc: "commands (es @ [e]) = commands es @ (case ent_command e of None \<Rightarrow> [] | Some c \<Rightarrow> [c])"
  by (induction es) (auto simp: commands_def List.map_filter_simps split: option.splits)

lemma structurally_valid_ref: "ref_structurally_valid c = structurally_valid c"
  by (simp add: ref_structurally_valid_def structurally_valid_def Let_def split: CommandKind.splits)

lemma ref_execute_execute:
  assumes "rs_values r = sm_values m" and "fmmap session_record (rs_sessions r) = sm_sessions m"
  shows "rs_values (fst (ref_execute r i c)) = sm_values (fst (execute m c))"
    and "fmmap session_record (rs_sessions (fst (ref_execute r i c))) = sm_sessions (fst (execute m c))"
    and "snd (ref_execute r i c) = outcome_of i (snd (execute m c))"
  using assms
  by (auto simp: ref_execute_def execute_def run_command_def session_record_def outcome_of_def split_beta
      fmmap_fmupd split: CommandKind.splits option.splits)

text \<open>The two interpreters agree on a command, when the digests recognise retries.\<close>

lemma interpret_apply:
  assumes v: "rs_values r = sm_values m" and s: "fmmap session_record (rs_sessions r) = sm_sessions m"
    and sep: "\<And>st. fmlookup (rs_sessions r) (cmd_session c) = Some st \<Longrightarrow> cmd_sequence c = cmd_sequence (ss_command st) \<Longrightarrow>
      command_digest c = command_digest (ss_command st) \<longleftrightarrow> same_request c (ss_command st)"
  shows "rs_values (fst (interpret_command r i c)) = sm_values (fst (kv_apply m c)) \<and>
    fmmap session_record (rs_sessions (fst (interpret_command r i c))) = sm_sessions (fst (kv_apply m c)) \<and>
    snd (interpret_command r i c) = outcome_of i (snd (kv_apply m c))"
proof (cases "fmlookup (rs_sessions r) (cmd_session c)")
  case None
  then have "fmlookup (sm_sessions m) (cmd_session c) = None" using s by (metis fmlookup_map option.map_disc_iff)
  with None v s ref_execute_execute [OF v s] show ?thesis
    by (auto simp: interpret_command_def kv_apply_def structurally_valid_ref ref_refuse_def refuse_def outcome_of_def)
next
  case (Some st)
  then have "fmlookup (sm_sessions m) (cmd_session c) = Some (session_record st)"
    using s by (metis fmlookup_map option.simps(9))
  with Some v s sep [OF Some] ref_execute_execute [OF v s] show ?thesis
    by (auto simp: interpret_command_def kv_apply_def structurally_valid_ref ref_refuse_def refuse_def outcome_of_def
        session_record_def)
qed

lemma digests_separate_take: "digests_separate es \<Longrightarrow> digests_separate (take n es)"
proof -
  have "set (commands (take n es)) \<subseteq> set (commands es)"
    by (auto simp: commands_def List.map_filter_def dest!: in_set_takeD)
  then show "digests_separate es \<Longrightarrow> digests_separate (take n es)"
    unfolding digests_separate_def list_all_iff by blast
qed

lemma interpret_sessions:
  "sessions_of es (rs_sessions r) \<Longrightarrow> sessions_of (es @ [e]) (rs_sessions r)"
  "sessions_of es (rs_sessions r) \<Longrightarrow> ent_command e = Some c \<Longrightarrow>
     sessions_of (es @ [e]) (rs_sessions (fst (interpret_command r i c)))"
  by (auto simp: sessions_of_def commands_snoc interpret_command_def ref_execute_def split_beta
      split: option.splits if_splits)

lemma outcomes_snoc:
  fixes n :: LogIndex
  assumes n: "unat (n + 1) = Suc (unat n)" and xs: "length xs = unat n"
    and out: "\<And>j. fmlookup outs j =
      (if 0 < j \<and> j \<le> n then map_option (outcome_of j) (xs ! (unat j - 1)) else None)"
  shows "(if j = n + 1 then map_option (outcome_of j) x else fmlookup outs j) =
    (if 0 < j \<and> j \<le> n + 1 then map_option (outcome_of j) ((xs @ [x]) ! (unat j - 1)) else None)"
proof -
  consider "j = n + 1" | "0 < j" "j \<le> n" "j \<noteq> n + 1" | "j \<noteq> n + 1" "\<not> (0 < j \<and> j \<le> n)" by blast
  then show ?thesis
  proof cases
    case 1
    then have "0 < j" using n by (simp add: word_less_nat_alt)
    then show ?thesis using 1 n xs by (simp add: nth_append)
  next
    case 2
    then have "unat j - 1 < unat n" "j \<le> n + 1" using n by (auto simp: word_less_nat_alt word_le_nat_alt)
    then show ?thesis using 2 xs out [of j] by (simp add: nth_append)
  next
    case 3
    then have "\<not> (0 < j \<and> j \<le> n + 1)"
      using n by (auto simp: word_less_nat_alt word_le_nat_alt le_Suc_eq word_unat_eq_iff)
    then have no: "(0 < j \<and> j \<le> n) = False" "(0 < j \<and> j \<le> n + 1) = False" using 3 by blast+
    show ?thesis unfolding out no using 3(1) by simp
  qed
qed

lemma apply_one_replayed:
  assumes rep: "replayed r" and in_log: "unat (rs_last_applied r) < length (rs_log r)"
    and room: "rs_last_applied r < through"
    and sep: "digests_separate (take (Suc (unat (rs_last_applied r))) (rs_log r))"
  shows "replayed (apply_one r)"
proof -
  let ?n = "unat (rs_last_applied r)" and ?i = "rs_last_applied r + 1"
  let ?es = "take ?n (rs_log r)" and ?e = "rs_log r ! ?n" and ?r = "r\<lparr>rs_last_applied := ?i\<rparr>"
  let ?m = "replay kv_empty ?es"
  have i: "unat ?i = Suc ?n" using unat_succ_less [OF room] .
  have take: "take (unat ?i) (rs_log r) = ?es @ [?e]" using in_log i by (simp add: take_Suc_conv_app_nth)
  from rep have v: "rs_values ?r = sm_values ?m" and s: "fmmap session_record (rs_sessions ?r) = sm_sessions ?m"
      and so: "sessions_of ?es (rs_sessions ?r)"
      and out: "\<And>j. fmlookup (rs_outcomes r) j = (if 0 < j \<and> j \<le> rs_last_applied r
         then map_option (outcome_of j) (replay_results kv_empty ?es ! (unat j - 1)) else None)"
    by (auto simp: replayed_def Let_def)
  have outs: "(if j = ?i then map_option (outcome_of j) (entry_result ?m ?e) else fmlookup (rs_outcomes r) j) =
      (if 0 < j \<and> j \<le> ?i then map_option (outcome_of j)
         (replay_results kv_empty (?es @ [?e]) ! (unat j - 1)) else None)" for j
    unfolding replay_results_snoc by (rule outcomes_snoc [OF i _ out]) (use in_log in simp)
  show ?thesis
  proof (cases "ent_command ?e")
    case None
    then have one: "apply_one r = ?r" using i by (simp add: apply_one_def Let_def)
    have none: "entry_result ?m ?e = None" using None by (simp add: entry_result_def)
    have "fmlookup (rs_outcomes r) j = (if 0 < j \<and> j \<le> ?i then map_option (outcome_of j)
         (replay_results kv_empty (?es @ [?e]) ! (unat j - 1)) else None)" for j
      using outs [of j] none out [of ?i] i by (auto simp: word_le_nat_alt split: if_splits)
    moreover have "replay kv_empty (?es @ [?e]) = ?m" using None by (simp add: replay_snoc apply_entry_def)
    ultimately show ?thesis unfolding one replayed_def Let_def
      using v s interpret_sessions(1) [OF so] take by simp
  next
    case (Some c)
    let ?p = "interpret_command ?r ?i c"
    have one: "apply_one r = (fst ?p)\<lparr>rs_outcomes := fmupd ?i (snd ?p) (rs_outcomes (fst ?p))\<rparr>"
      using Some i by (simp add: apply_one_def Let_def split_beta)
    have same: "rs_outcomes (fst ?p) = rs_outcomes r" "rs_log (fst ?p) = rs_log r"
      by (auto simp: interpret_command_def ref_execute_def split_beta split: option.split)
    have "command_digest c = command_digest (ss_command st) \<longleftrightarrow> same_request c (ss_command st)"
      if "fmlookup (rs_sessions ?r) (cmd_session c) = Some st" "cmd_sequence c = cmd_sequence (ss_command st)" for st
    proof -
      have "ss_command st \<in> set (commands (?es @ [?e]))" "cmd_session (ss_command st) = cmd_session c"
        "c \<in> set (commands (?es @ [?e]))"
        using so that Some by (auto simp: sessions_of_def commands_snoc)
      with sep that take i show ?thesis
        by (auto simp: digests_separate_def list_all_iff same_request_def command_digest_def)
    qed
    from interpret_apply [OF v s this]
    have "rs_values (fst ?p) = sm_values (replay kv_empty (?es @ [?e]))"
      "fmmap session_record (rs_sessions (fst ?p)) = sm_sessions (replay kv_empty (?es @ [?e]))"
      and res: "map_option (outcome_of ?i) (entry_result ?m ?e) = Some (snd ?p)"
      using Some by (simp_all add: replay_snoc apply_entry_def entry_result_def)
    moreover have "sessions_of (?es @ [?e]) (rs_sessions (fst ?p))" using interpret_sessions(2) [OF so Some] .
    moreover have "fmlookup (fmupd ?i (snd ?p) (rs_outcomes r)) j = (if 0 < j \<and> j \<le> ?i then map_option (outcome_of j)
         (replay_results kv_empty (?es @ [?e]) ! (unat j - 1)) else None)" for j
      using outs [of j] res by (auto split: if_splits)
    ultimately show ?thesis unfolding one replayed_def Let_def using take same by simp
  qed
qed

section \<open>Every history\<close>

lemma apply_through_replayed:
  assumes "replayed r" and "rs_last_applied r \<le> through" and "unat through \<le> length (rs_log r)"
    and "digests_separate (take (unat through) (rs_log r))"
  shows "replayed (apply_through r through)"
  using assms
proof (induction r through rule: apply_through.induct)
  case (1 r through)
  show ?case
  proof (cases "rs_last_applied r < through")
    case True
    then have la: "Suc (unat (rs_last_applied r)) \<le> unat through" by (simp add: word_less_nat_alt Suc_le_eq)
    have "digests_separate (take (Suc (unat (rs_last_applied r))) (rs_log r))"
      using digests_separate_take [OF 1(5), of "Suc (unat (rs_last_applied r))"] la by (simp add: min_absorb1)
    then have "replayed (apply_one r)" using 1(2,4) True la by (intro apply_one_replayed) auto
    moreover have "rs_log (apply_one r) = rs_log r"
      by (auto simp: apply_one_def Let_def interpret_command_def ref_execute_def split_beta split: option.split)
    moreover have "rs_last_applied (apply_one r) \<le> through"
      using la unat_succ_less [OF True] by (simp add: word_le_nat_alt)
    ultimately show ?thesis using 1 True by (subst apply_through.simps) simp
  qed (use 1 in \<open>subst apply_through.simps, simp\<close>)
qed

text \<open>
  The invariant of a replica: the applied state covers exactly the committed entries, and is what
  the production machine computes from them.
\<close>

definition replica_inv :: "ReplicaState \<Rightarrow> bool" where
  "replica_inv r \<longleftrightarrow> rs_last_applied r = rs_commit_index r \<and> unat (rs_commit_index r) \<le> length (rs_log r) \<and>
     (digests_separate (take (unat (rs_commit_index r)) (rs_log r)) \<longrightarrow> replayed r)"

definition model_inv :: "RefModel \<Rightarrow> bool" where
  "model_inv m \<longleftrightarrow> (\<forall>n r. find_replica m n = Some r \<longrightarrow> replica_inv r)"

lemma model_invD: "model_inv m \<Longrightarrow> find_replica m n = Some r \<Longrightarrow> replica_inv r"
  by (auto simp: model_inv_def)

lemma model_inv_put: "model_inv m \<Longrightarrow> replica_inv r \<Longrightarrow> model_inv (put_replica m n r)"
  by (auto simp: model_inv_def find_replica_def put_replica_def)

text \<open>Fields that do not matter to the invariant, and a log that keeps its committed prefix.\<close>

lemma replayed_frame [simp]:
  "replayed (r\<lparr>rs_commit_index := k\<rparr>) = replayed r"
  "take (unat (rs_last_applied r)) l = take (unat (rs_last_applied r)) (rs_log r) \<Longrightarrow>
     replayed (r\<lparr>rs_log := l\<rparr>) = replayed r"
  by (simp_all add: replayed_def)

lemma replica_inv_roles [simp]:
  "replica_inv (r\<lparr>rs_alive := a\<rparr>) = replica_inv r" "replica_inv (r\<lparr>rs_active_leader := b\<rparr>) = replica_inv r"
  "replica_inv (r\<lparr>rs_current_term := t\<rparr>) = replica_inv r" "replica_inv (r\<lparr>rs_voted_for := v\<rparr>) = replica_inv r"
  "replica_inv (r\<lparr>rs_ready_term := t\<rparr>) = replica_inv r"
  by (simp_all add: replica_inv_def replayed_def)

lemma replica_inv_log:
  assumes "replica_inv r" and "unat (rs_commit_index r) \<le> length l"
    and "take (unat (rs_commit_index r)) l = take (unat (rs_commit_index r)) (rs_log r)"
  shows "replica_inv (r\<lparr>rs_log := l\<rparr>)"
  using assms by (auto simp: replica_inv_def)

lemma replica_inv_commit:
  assumes "replica_inv r" and "rs_commit_index r \<le> k" and "unat k \<le> length (rs_log r)"
  shows "replica_inv (apply_through (r\<lparr>rs_commit_index := k\<rparr>) k)"
proof -
  let ?r = "r\<lparr>rs_commit_index := k\<rparr>"
  have la: "rs_last_applied ?r \<le> k" using assms by (simp add: replica_inv_def)
  have log: "rs_log (apply_one q) = rs_log q" "rs_commit_index (apply_one q) = rs_commit_index q" for q
    by (auto simp: apply_one_def Let_def interpret_command_def ref_execute_def split_beta split: option.split)
  have frame: "rs_log (apply_through q t) = rs_log q \<and> rs_commit_index (apply_through q t) = rs_commit_index q \<and>
      (rs_last_applied q \<le> t \<longrightarrow> rs_last_applied (apply_through q t) = t)" for q t
  proof (induction q t rule: apply_through.induct)
    case (1 q t)
    show ?case
    proof (cases "rs_last_applied q < t")
      case True
      then have "rs_last_applied q + 1 \<le> t" using unat_succ_less [OF True] by (simp add: word_le_nat_alt word_less_nat_alt)
      with 1 True log show ?thesis by (subst (1 2 3) apply_through.simps) simp
    qed (subst (1 2 3) apply_through.simps, simp)
  qed
  have "replayed (apply_through ?r k)" if sep: "digests_separate (take (unat k) (rs_log r))"
  proof -
    have "digests_separate (take (unat (rs_commit_index r)) (rs_log r))"
      using digests_separate_take [OF sep, of "unat (rs_commit_index r)"] assms(2)
      by (simp add: word_le_nat_alt min_absorb1)
    with assms(1) have "replayed ?r" by (simp add: replica_inv_def)
    with la assms(3) sep show ?thesis by (intro apply_through_replayed) simp_all
  qed
  with frame [of ?r k] la assms(3) show ?thesis by (simp add: replica_inv_def)
qed

lemma replicate_log_keeps:
  assumes "replicate_log src fol c through = Some l" and "unat c \<le> length fol"
  shows "unat c \<le> length l \<and> take (unat c) l = take (unat c) fol"
proof -
  let ?d0 = "first_divergence fol src (min (unat through) (length fol)) 1"
  let ?d = "if ?d0 = 0 \<and> length fol < unat through then length fol + 1 else ?d0"
  from assms(1) consider "l = fol" | "unat c < ?d" "?d \<noteq> 0" "l = take (?d - 1) fol @ drop (?d - 1) (take (unat through) src)"
    unfolding replicate_log_def Let_def by (auto split: if_splits)
  then show ?thesis using assms(2) by cases (auto simp: min_def)
qed

lemma cast_votes_inv:
  assumes "model_inv m"
  shows "model_inv (m\<lparr>md_replicas := cast_votes t c vs (md_replicas m)\<rparr>)"
proof -
  let ?f = "\<lambda>rs v. case fmlookup rs v of None \<Rightarrow> rs | Some r \<Rightarrow> fmupd v (cast_vote t c r) rs"
  have one: "\<forall>n r. fmlookup (?f reps v) n = Some r \<longrightarrow> replica_inv r"
    if "\<forall>n r. fmlookup reps n = Some r \<longrightarrow> replica_inv r" for reps v
    using that by (auto simp: cast_vote_def Let_def split: option.splits)
  have "\<forall>n r. fmlookup reps n = Some r \<longrightarrow> replica_inv r \<Longrightarrow>
      \<forall>n r. fmlookup (foldl ?f reps ws) n = Some r \<longrightarrow> replica_inv r" for ws reps
  proof (induction ws arbitrary: reps)
    case (Cons v ws)
    then show ?case using Cons.IH [OF one [OF Cons.prems]] by simp
  qed simp
  with assms show ?thesis by (simp add: model_inv_def find_replica_def cast_votes_def)
qed

lemma model_inv_leaders [simp]: "model_inv (m\<lparr>md_leaders := ls\<rparr>) = model_inv m"
  by (simp add: model_inv_def find_replica_def)

lemma elect_inv: "model_inv m \<Longrightarrow> model_inv (fst (elect m c t vs))"
  unfolding elect_def Let_def
  by (auto split: option.split sum.split intro!: model_inv_put intro: cast_votes_inv
      dest: model_invD [OF cast_votes_inv])

lemma append_inv: "model_inv m \<Longrightarrow> find_replica m n = Some r \<Longrightarrow> model_inv (put_replica m n (r\<lparr>rs_log := rs_log r @ es\<rparr>))"
  by (intro model_inv_put replica_inv_log) (auto dest: model_invD simp: replica_inv_def)

lemma replicate_inv:
  assumes inv: "model_inv m"
  shows "model_inv (fst (replicate_prefix m l v k))"
proof -
  have "replica_inv (r\<lparr>rs_log := log\<rparr>)"
    if "find_replica m v = Some r" "replicate_log src (rs_log r) (rs_commit_index r) k = Some log" for r src log
  proof -
    have r: "replica_inv r" using inv that(1) by (rule model_invD)
    then show ?thesis using replicate_log_keeps [OF that(2)] by (intro replica_inv_log) (auto simp: replica_inv_def)
  qed
  with inv show ?thesis
    by (auto simp: replicate_prefix_def follow_term_def split: option.split intro!: model_inv_put)
qed

lemma commit_inv:
  assumes inv: "model_inv m"
  shows "model_inv (fst (commit m l k as))"
proof (cases "find_replica m l")
  case (Some r)
  have "replica_inv (apply_through (r\<lparr>rs_commit_index := k\<rparr>) k)"
    if "\<not> (k < rs_commit_index r \<or> length (rs_log r) < unat k)"
    using that inv Some by (intro replica_inv_commit) (auto dest: model_invD)
  with Some inv show ?thesis
    by (auto simp: commit_def Let_def split: sum.split intro!: model_inv_put simp del: not_less)
qed (use inv in \<open>simp add: commit_def\<close>)

lemma learn_inv: "model_inv m \<Longrightarrow> model_inv (fst (learn m l v k))"
  by (auto simp: learn_def follow_term_def equal_prefix_def not_less dest: model_invD split: option.splits if_splits
      intro!: model_inv_put replica_inv_commit)

lemma crash_restart_inv: "model_inv m \<Longrightarrow> model_inv (fst (crash m n))" "model_inv m \<Longrightarrow> model_inv (fst (restart m n))"
  by (auto simp: crash_def restart_def dest: model_invD split: option.splits intro!: model_inv_put)

lemma append_noop_inv: "model_inv m \<Longrightarrow> model_inv (fst (append_noop m l))"
  by (simp add: append_noop_def Let_def append_inv split: option.split)

lemma propose_inv: "model_inv m \<Longrightarrow> model_inv (fst (propose m l c))"
  by (simp add: propose_def Let_def append_inv split: option.split)

lemma action_inv: "model_inv m \<Longrightarrow> model_inv (fst (apply_action m a))"
  by (cases a) (simp_all add: elect_inv append_noop_inv propose_inv replicate_inv commit_inv learn_inv crash_restart_inv)

lemma history_inv: "model_inv m \<Longrightarrow> model_inv (fst (apply_history m i as))"
proof (induction "as" arbitrary: m i)
  case (Cons a "as")
  then show ?case using action_inv [OF Cons.prems, of a] by (auto simp: split_beta Let_def)
qed simp

lemma initial_inv: "replica_inv (initial_replica n)"
  by (simp add: replica_inv_def replayed_def Let_def initial_replica_def replay_def kv_empty_def sessions_of_def)

lemma new_model_inv:
  assumes "new_model ms = Inr m"
  shows "model_inv m"
proof -
  have add: "add_members ns reps = Inr reps' \<Longrightarrow> \<forall>n r. fmlookup reps n = Some r \<longrightarrow> replica_inv r \<Longrightarrow>
      \<forall>n r. fmlookup reps' n = Some r \<longrightarrow> replica_inv r" for ns reps reps'
  proof (induction ns arbitrary: reps)
    case (Cons k ns)
    have "\<forall>n r. fmlookup (fmupd k (initial_replica k) reps) n = Some r \<longrightarrow> replica_inv r"
      using Cons.prems(2) by (simp add: initial_inv)
    moreover have "add_members ns (fmupd k (initial_replica k) reps) = Inr reps'"
      using Cons.prems(1) by (simp split: if_splits)
    ultimately show ?case by (intro Cons.IH)
  qed simp
  from assms obtain reps where reps: "add_members ms fmempty = Inr reps"
    and m: "m = \<lparr>md_members = ms, md_replicas = reps, md_leaders = fmempty\<rparr>"
    by (auto simp: new_model_def bind_res_eq_Inr split: if_splits)
  show ?thesis using add [OF reps] by (simp add: m model_inv_def find_replica_def)
qed

lemma run_model_inv: "model_inv (fst (run_model ms as))"
proof (cases "new_model ms")
  case (Inr m)
  then show ?thesis using history_inv [OF new_model_inv [OF Inr]] by (simp add: run_model_def)
qed (simp add: run_model_def model_inv_def find_replica_def)

section \<open>Properties\<close>

definition sample_command :: ClientCommand where
  "sample_command = \<lparr>cmd_session = SessionId 7 9, cmd_sequence = 1, cmd_kind = CmdPut, cmd_key = [107], cmd_value = [118]\<rparr>"

definition sample_history :: "Action list" where
  "sample_history = [Elect 1 1 [1, 2], AppendNoOp 1, ReplicatePrefix 1 2 1, CommitPrefix 1 1 [1, 2],
     Propose 1 sample_command, ReplicatePrefix 1 2 2, CommitPrefix 1 2 [1, 2], LearnCommit 1 2 2,
     Crash 1, Elect 2 2 [2, 3], AppendNoOp 2, ReplicatePrefix 2 3 2, LearnCommit 2 3 2]"

text \<open>
  C5. After any history whatsoever, what a replica of the reference model has applied is what the
  production machine computes by replaying the replica's committed entries: the same values, and
  for every committed index the same outcome. The proviso: the production machine recognises a retry by its
  64-bit digest, the reference model by its content, so the digests of the replica's committed requests must
  separate different requests that carry one session and sequence number.
\<close>

theorem reference_matches_production:
  assumes "find_replica (fst (run_model ms as)) n = Some r"
    and "digests_separate (take (unat (rs_commit_index r)) (rs_log r))"
  shows "let es = take (unat (rs_commit_index r)) (rs_log r); m = replay kv_empty es in
     length es = unat (rs_commit_index r) \<and> rs_last_applied r = rs_commit_index r \<and>
     (\<forall>k. ref_value (fst (run_model ms as)) n k = value_for_test m k) \<and>
     (\<forall>i. applied_outcome (fst (run_model ms as)) n i =
        (if 0 < i \<and> i \<le> rs_commit_index r
         then map_option (outcome_of i) (replay_results kv_empty es ! (unat i - 1)) else None))"
proof -
  have inv: "replica_inv r" using run_model_inv assms(1) by (rule model_invD)
  then have "replayed r" using assms(2) by (auto simp: replica_inv_def)
  with inv assms(1) show ?thesis
    by (simp add: replica_inv_def replayed_def Let_def ref_value_def applied_outcome_def value_for_test_def)
qed

theorem reference_matches_production_witness:
  "ref_value (fst (run_model [1, 2, 3] sample_history)) 3 [107] = Some [118] \<and>
   applied_outcome (fst (run_model [1, 2, 3] sample_history)) 3 2 =
     Some (outcome_of 2 \<lparr>ar_status = CS_ok, ar_value = [118], ar_executed = True, ar_duplicate = False\<rparr>)"
proof -
  have "case find_replica (fst (run_model [1, 2, 3] sample_history)) 3 of None \<Rightarrow> False
    | Some r \<Rightarrow> digests_separate (rs_log r) \<and> rs_commit_index r = 2 \<and>
        take 2 (rs_log r) = [\<lparr>ent_index = 1, ent_term = 1, ent_command = None\<rparr>,
          \<lparr>ent_index = 2, ent_term = 1, ent_command = Some sample_command\<rparr>]" by code_simp
  then obtain r where r: "find_replica (fst (run_model [1, 2, 3] sample_history)) 3 = Some r"
      "digests_separate (rs_log r)" "rs_commit_index r = 2"
      "take 2 (rs_log r) = [\<lparr>ent_index = 1, ent_term = 1, ent_command = None\<rparr>,
          \<lparr>ent_index = 2, ent_term = 1, ent_command = Some sample_command\<rparr>]"
    by (auto split: option.splits)
  have "value_for_test (replay kv_empty (take 2 (rs_log r))) [107] = Some [118]"
    "replay_results kv_empty (take 2 (rs_log r)) ! 1 =
       Some \<lparr>ar_status = CS_ok, ar_value = [118], ar_executed = True, ar_duplicate = False\<rparr>"
    unfolding r(4) by code_simp+
  with reference_matches_production [OF r(1) digests_separate_take [OF r(2)]] r(3) show ?thesis by (simp add: Let_def)
qed

end
