(* ===== verification/ReferenceSafety.thy ===== *)
theory ReferenceSafety
  imports ReferenceSimulation ReferenceReplay
begin

text \<open>
  The reference model takes only steps of the abstract protocol as far as elections and logs go,
  so log matching and one leader per term hold in every run. Its commits are steps of the
  protocol when every commit certificate is current: no acknowledger has observed a term above the
  leader's. Under that proviso committed entries agree and leaders are complete; without it they
  need not be, and the model accepts a history that commits two different entries at one index.
\<close>

section \<open>Elections\<close>

lemma elect_changes:
  assumes "elect m c t vs = (m', res)" and "m' \<noteq> m"
  obtains r where "find_replica m c = Some r" "rs_current_term r < t"
    "check_voters m c t r vs [] = Inr vs" "c \<in> set vs" "length (md_members m) div 2 + 1 \<le> length vs"
    "fmlookup (md_leaders m) t = None \<or> fmlookup (md_leaders m) t = Some c"
    "m' = (put_replica (m\<lparr>md_replicas := cast_votes t c vs (md_replicas m)\<rparr>) c
       ((cast_vote t c r)\<lparr>rs_current_term := t, rs_voted_for := Some c, rs_active_leader := True\<rparr>))
       \<lparr>md_leaders := fmupd t c (md_leaders m)\<rparr>"
proof -
  from assms obtain r us where r: "find_replica m c = Some r" "rs_current_term r < t"
      and chk: "check_voters m c t r vs [] = Inr us" and rest: "c \<in> set us"
      "length (md_members m) div 2 + 1 \<le> length us"
      "fmlookup (md_leaders m) t = None \<or> fmlookup (md_leaders m) t = Some c"
      and m': "m' = fst (let m1 = m\<lparr>md_replicas := cast_votes t c us (md_replicas m)\<rparr> in
         case find_replica m1 c of None \<Rightarrow> (m1, accepted)
         | Some r' \<Rightarrow> ((put_replica m1 c (r'\<lparr>rs_current_term := t, rs_voted_for := Some c, rs_active_leader := True\<rparr>))
                        \<lparr>md_leaders := fmupd t c (md_leaders m)\<rparr>, accepted))"
    unfolding elect_def Let_def
    by (cases "find_replica m c"; cases "check_voters m c t (the (find_replica m c)) vs []")
      (auto simp: not_le not_less split: if_splits)
  from check_voters_ok [OF chk] have us: "us = vs" "distinct vs" by auto
  with rest(1) r(1) have "find_replica (m\<lparr>md_replicas := cast_votes t c us (md_replicas m)\<rparr>) c = Some (cast_vote t c r)"
    by (simp add: find_replica_def cast_votes_lookup)
  with m' us r chk rest that show thesis by simp
qed

text \<open>The model after an election and the abstract state after the votes and the new leader.\<close>

lemma sim_elected:
  assumes sim: "sim b ms m s" and r: "find_replica m c = Some r" "rs_current_term r < t" and c: "c \<in> set vs"
    and d: "distinct vs" and f: "voted_frame t c (set vs) s1 s2"
    and low: "\<And>v q. v \<in> set vs \<Longrightarrow> find_replica m v = Some q \<Longrightarrow> rs_current_term q \<le> t"
    and s1: "a_log s1 = a_log s" "a_commit s1 = a_commit s" "a_leader s1 = a_leader s"
      "a_term s1 = (a_term s)(c := t)" "a_vote s1 = (a_vote s)(c := Some c)" "a_active s1 = (a_active s)(c := False)"
    and s3: "a_log s3 = a_log s2" "a_commit s3 = a_commit s2" "a_leader s3 = (a_leader s2)(t := Some c)"
      "a_term s3 = a_term s2" "a_vote s3 = a_vote s2" "a_active s3 = (a_active s2)(c := True)"
  shows "sim b ms ((put_replica (m\<lparr>md_replicas := cast_votes t c vs (md_replicas m)\<rparr>) c
       ((cast_vote t c r)\<lparr>rs_current_term := t, rs_voted_for := Some c, rs_active_leader := True\<rparr>))
       \<lparr>md_leaders := fmupd t c (md_leaders m)\<rparr>) s3" (is "sim b ms ?m s3")
proof -
  have look: "find_replica ?m n = (if n = c
      then Some ((cast_vote t c r)\<lparr>rs_current_term := t, rs_voted_for := Some c, rs_active_leader := True\<rparr>)
      else if n \<in> set vs then map_option (cast_vote t c) (find_replica m n) else find_replica m n)" for n
    using d by (simp add: find_replica_def put_replica_def cast_votes_lookup)
  have "n |\<in>| fmdom (md_replicas ?m) \<longleftrightarrow> n |\<in>| fmdom (md_replicas m)" for n
    using r(1) d by (auto simp: fmlookup_dom_iff find_replica_def put_replica_def cast_votes_lookup split: if_splits)
  then have dom: "fset (fmdom (md_replicas ?m)) = set ms" using sim by (auto simp: sim_def)
  have rep: "rs_id r' = n \<and> a_term s3 n = rs_current_term r' \<and> a_vote s3 n = rs_voted_for r' \<and>
      a_log s3 n = rs_log r' \<and> a_commit s3 n = (if b then unat (rs_commit_index r') else 0) \<and> (rs_active_leader r' \<longrightarrow> a_active s3 n)"
    if n: "find_replica ?m n = Some r'" for n r'
  proof -
    consider "n = c" | (voter) q where "n \<noteq> c" "n \<in> set vs" "find_replica m n = Some q" "r' = cast_vote t c q"
      | (other) "n \<noteq> c" "n \<notin> set vs" "find_replica m n = Some r'"
      using n unfolding look by (auto split: if_splits)
    then show ?thesis
    proof cases
      case 1
      with n have "r' = (cast_vote t c r)\<lparr>rs_current_term := t, rs_voted_for := Some c, rs_active_leader := True\<rparr>"
        unfolding look by simp
      with 1 simD [OF sim r(1)] f s1 s3 c show ?thesis by (simp add: voted_frame_def cast_vote_def Let_def)
    next
      case voter
      with simD [OF sim voter(3)] low [OF voter(2,3)] f s1 s3 show ?thesis
        by (auto simp: voted_frame_def cast_vote_def Let_def)
    next
      case other
      with simD [OF sim other(3)] f s1 s3 show ?thesis by (simp add: voted_frame_def)
    qed
  qed
  have "md_members ?m = ms" "\<forall>u. a_leader s3 u = fmlookup (md_leaders ?m) u"
    using sim_members [OF sim] f s1 s3 by (simp_all add: put_replica_def voted_frame_def)
  with dom rep show ?thesis unfolding sim_def by blast
qed

lemma sim_elect:
  assumes reach: "areach ms s" and sim: "sim b ms m s" and step: "elect m c t vs = (m', res)"
  shows "\<exists>s'. areach ms s' \<and> sim b ms m' s'"
proof (cases "m' = m")
  case True
  then show ?thesis using reach sim by blast
next
  case False
  with step obtain r where r: "find_replica m c = Some r" "rs_current_term r < t"
      and chk: "check_voters m c t r vs [] = Inr vs" and mem: "c \<in> set vs"
      and q: "length (md_members m) div 2 + 1 \<le> length vs"
      and lead: "fmlookup (md_leaders m) t = None \<or> fmlookup (md_leaders m) t = Some c"
      and m': "m' = (put_replica (m\<lparr>md_replicas := cast_votes t c vs (md_replicas m)\<rparr>) c
            ((cast_vote t c r)\<lparr>rs_current_term := t, rs_voted_for := Some c, rs_active_leader := True\<rparr>))
            \<lparr>md_leaders := fmupd t c (md_leaders m)\<rparr>"
    by (rule elect_changes)
  from check_voters_ok [OF chk] have vs: "distinct vs"
    and voter: "\<And>v. v \<in> set vs \<Longrightarrow> \<exists>q. find_replica m v = Some q \<and> rs_current_term q \<le> t \<and>
      (rs_current_term q = t \<longrightarrow> rs_voted_for q = None \<or> rs_voted_for q = Some c) \<and> ref_candidate_is_up_to_date r q"
    by auto
  note I = ainvD [OF areach_ainv [OF reach]]
  note D = simD [OF sim]
  have no_leader: "a_leader s t = None"
  proof (rule ccontr)
    assume "a_leader s t \<noteq> None"
    with lead sim_members(2) [OF sim] have "a_leader s t = Some c" by auto
    with I(5) have "a_clog s t c = Some (a_ilog s t)" by (simp add: inv_leader_def)
    with I(3) have "t \<le> a_term s c" by (auto simp: inv_clog_def)
    with D(2) [OF r(1)] r(2) show False by simp
  qed
  let ?s1 = "s\<lparr>a_term := (a_term s)(c := t), a_vote := (a_vote s)(c := Some c),
                  a_active := (a_active s)(c := False),
                  a_clog := (a_clog s)(t := (a_clog s t)(c := Some (a_log s c))),
                  a_votes := (if a_leader s t = None
                     then (a_votes s)(t := (a_votes s t)(c := Some (c, a_log s c))) else a_votes s)\<rparr>"
  have "astep ms s ?s1" using D(2) [OF r(1)] r(2) by (intro astep.campaign) simp
  with reach have s1: "areach ms ?s1" by (rule areach_step)
  have ok: "a_term ?s1 v \<le> t \<and> (a_term ?s1 v = t \<longrightarrow> a_vote ?s1 v = None \<or> a_vote ?s1 v = Some c) \<and>
      up_to_date (a_log s c) (a_log ?s1 v)" if v: "v \<in> set vs" for v
  proof -
    obtain q where "find_replica m v = Some q" "rs_current_term q \<le> t"
        "rs_current_term q = t \<longrightarrow> rs_voted_for q = None \<or> rs_voted_for q = Some c" "ref_candidate_is_up_to_date r q"
      using voter [OF v] by blast
    with D [of v q] D [OF r(1)] show ?thesis by (simp add: up_to_date_ref)
  qed
  have "\<exists>s2. areach ms s2 \<and> voted_frame t c (set vs) ?s1 s2"
    using s1 no_leader vs ok by (intro areach_votes [where cl = "a_log s c"]) auto
  then obtain s2 where s2: "areach ms s2" "voted_frame t c (set vs) ?s1 s2" by blast
  have "set vs \<subseteq> set ms" using voter D(7) by blast
  then have maj: "majority ms (set vs)" using vs q sim_members(1) [OF sim] by (intro majority_list) auto
  let ?s3 = "s2\<lparr>a_leader := (a_leader s2)(t := Some c), a_ilog := (a_ilog s2)(t := a_log s2 c),
                  a_llog := (a_llog s2)(t := a_log s2 c), a_active := (a_active s2)(c := True)\<rparr>"
  have "astep ms s2 ?s3"
    using s2(2) mem no_leader maj by (intro astep.become_leader) (auto simp: voted_frame_def)
  with s2(1) have "areach ms ?s3" by (rule areach_step)
  moreover have "sim b ms m' ?s3"
    unfolding m' by (rule sim_elected [OF sim r mem vs s2(2)]) (use voter in fastforce)+
  ultimately show ?thesis by blast
qed

text \<open>An append of the elected leader.\<close>

lemma sim_append:
  assumes reach: "areach ms s" and sim: "sim b ms m s" and r: "find_replica m n = Some r" "is_leader_of m r"
    and e: "ent_term e = rs_current_term r"
  shows "\<exists>s'. areach ms s' \<and> sim b ms (put_replica m n (r\<lparr>rs_log := rs_log r @ [e]\<rparr>)) s'"
proof -
  note D = simD [OF sim r(1)]
  let ?s = "s\<lparr>a_log := (a_log s)(n := a_log s n @ [e]),
                  a_llog := (a_llog s)(a_term s n := a_llog s (a_term s n) @ [e])\<rparr>"
  have "astep ms s ?s" using D r(2) e by (intro astep.leader_append) (auto simp: is_leader_of_def)
  with reach have "areach ms ?s" by (rule areach_step)
  moreover have "sim b ms (put_replica m n (r\<lparr>rs_log := rs_log r @ [e]\<rparr>)) ?s"
    using D by (intro sim_put [OF sim r(1)]) auto
  ultimately show ?thesis by blast
qed

lemma sim_append_noop:
  assumes "areach ms s" "sim b ms m s" "append_noop m n = (m', res)"
  shows "\<exists>s'. areach ms s' \<and> sim b ms m' s'"
  using assms sim_append [OF assms(1,2)]
  by (auto simp: append_noop_def Let_def split: option.splits if_splits)

lemma sim_propose:
  assumes "areach ms s" "sim b ms m s" "propose m n c = (m', res)"
  shows "\<exists>s'. areach ms s' \<and> sim b ms m' s'"
  using assms sim_append [OF assms(1,2)]
  by (auto simp: propose_def Let_def split: option.splits if_splits)

text \<open>A node that hears from a leader of a higher term moves to that term.\<close>

lemma sim_follow:
  assumes reach: "areach ms s" and sim: "sim b ms m s" and r: "find_replica m n = Some r"
  shows "\<exists>s'. areach ms s' \<and> sim b ms (put_replica m n (follow_term source r)) s' \<and>
    a_committed s' = a_committed s \<and> a_llog s' = a_llog s"
proof (cases "rs_current_term r < rs_current_term source")
  case True
  note D = simD [OF sim r]
  let ?s = "s\<lparr>a_term := (a_term s)(n := rs_current_term source), a_vote := (a_vote s)(n := None),
                  a_active := (a_active s)(n := False)\<rparr>"
  have "astep ms s ?s" using D True by (intro astep.adv_term) simp
  with reach have "areach ms ?s" by (rule areach_step)
  moreover have "sim b ms (put_replica m n (follow_term source r)) ?s"
    using D True by (intro sim_put [OF sim r]) (auto simp: follow_term_def)
  ultimately show ?thesis by (intro exI [of _ ?s]) simp
next
  case False
  then have "follow_term source r = r" by (simp add: follow_term_def)
  moreover have "sim b ms (put_replica m n r) s"
    using simD [OF sim r] by (intro sim_put [OF sim r]) auto
  ultimately show ?thesis using reach by (intro exI [of _ s]) simp
qed

lemma first_divergence_spec:
  assumes "limit \<le> length fs" and "limit \<le> length gs" and "0 < i"
  shows "(first_divergence fs gs limit i = 0 \<and> take limit fs = take limit gs) \<or>
    (\<exists>k < limit. first_divergence fs gs limit i = i + k \<and> take k fs = take k gs \<and> fs ! k \<noteq> gs ! k)"
  using assms
proof (induction fs gs limit i rule: first_divergence.induct)
  case (1 f fs g gs limit i)
  show ?case
  proof (cases "f = g")
    case True
    with 1 have "(first_divergence fs gs limit (Suc i) = 0 \<and> take limit fs = take limit gs) \<or>
      (\<exists>k < limit. first_divergence fs gs limit (Suc i) = Suc i + k \<and> take k fs = take k gs \<and> fs ! k \<noteq> gs ! k)"
      by simp
    then show ?thesis
    proof (elim disjE exE conjE)
      fix k assume k: "k < limit" "first_divergence fs gs limit (Suc i) = Suc i + k" "take k fs = take k gs" "fs ! k \<noteq> gs ! k"
      then show ?thesis using True by (intro disjI2 exI [of _ "Suc k"]) simp
    qed (use True in simp)
  next
    case False
    then show ?thesis by (intro disjI2 exI [of _ 0]) simp
  qed
qed auto

lemma take_drop_common: "k \<le> n \<Longrightarrow> take k fs = take k gs \<Longrightarrow> take k fs @ drop k (take n gs) = take n gs"
  by (metis append_take_drop_id min.absorb1 take_take)

lemma take_neq: "k < n \<Longrightarrow> n \<le> length fs \<Longrightarrow> n \<le> length gs \<Longrightarrow> fs ! k \<noteq> gs ! k \<Longrightarrow> take n fs \<noteq> take n gs"
  by (metis nth_take)

lemma replicate_log_cases:
  assumes n: "unat through \<le> length src"
  obtains (same) "unat through \<le> length fol" "take (unat through) fol = take (unat through) src"
      "replicate_log src fol c through = Some fol"
  | (extend) "length fol < unat through"
      "replicate_log src fol c through = (if length fol < unat c then None else Some (take (unat through) src))"
  | (diverge) k where "k < unat through" "k < length fol" "fol ! k \<noteq> src ! k"
      "replicate_log src fol c through = (if k < unat c then None else Some (take (unat through) src))"
proof -
  define lim where "lim = min (unat through) (length fol)"
  have "lim \<le> length fol" "lim \<le> length src" using n by (auto simp: lim_def)
  from first_divergence_spec [OF this, of 1]
  consider (agree) "first_divergence fol src lim 1 = 0" "take lim fol = take lim src"
    | (diff) k where "k < lim" "first_divergence fol src lim 1 = Suc k" "take k fol = take k src" "fol ! k \<noteq> src ! k"
    by auto
  then show thesis
  proof cases
    case agree
    show thesis
    proof (cases "unat through \<le> length fol")
      case True
      then have "lim = unat through" by (simp add: lim_def)
      with agree True have "replicate_log src fol c through = Some fol"
        by (simp add: replicate_log_def lim_def [symmetric] Let_def)
      with agree True \<open>lim = unat through\<close> same show thesis by simp
    next
      case False
      then have lim: "lim = length fol" by (simp add: lim_def)
      have "replicate_log src fol c through = (if length fol < unat c then None
          else Some (fol @ drop (length fol) (take (unat through) src)))"
        using agree(1) False by (simp add: replicate_log_def lim_def [symmetric] Let_def Suc_le_eq)
      moreover have "fol @ drop (length fol) (take (unat through) src) = take (unat through) src"
        using take_drop_common [of "length fol" "unat through" fol src] agree(2) False lim by simp
      ultimately show thesis using False extend by simp
    qed
  next
    case diff
    then have "k < unat through" "k < length fol" by (simp_all add: lim_def)
    moreover have "replicate_log src fol c through = (if k < unat c then None
        else Some (take k fol @ drop k (take (unat through) src)))"
      using diff(2) by (simp add: replicate_log_def lim_def [symmetric] Let_def Suc_le_eq)
    ultimately show thesis using diverge diff(4) take_drop_common [OF _ diff(3), of "unat through"] by simp
  qed
qed

text \<open>Replication copies the leader's prefix unless the follower already holds it.\<close>

lemma replicate_log_adopt:
  assumes "unat through \<le> length src" and "replicate_log src fol c through = Some l"
  shows "l = adopt src (unat through) fol"
  using assms(1)
proof (cases rule: replicate_log_cases [where fol = fol and c = c])
  case (diverge k)
  then have "\<not> (unat through \<le> length fol \<and> take (unat through) fol = take (unat through) src)"
    using take_neq [of k "unat through" fol src] assms(1) by blast
  with diverge assms(2) show ?thesis by (auto simp: adopt_def split: if_splits)
qed (use assms(2) in \<open>auto simp: adopt_def split: if_splits\<close>)

text \<open>It is refused only when it would lose a committed entry of the follower.\<close>

lemma replicate_log_refused:
  assumes "unat through \<le> length src" and "replicate_log src fol c through = None"
    and "unat c \<le> length fol" and "unat c \<le> length (adopt src (unat through) fol)"
  shows "take (unat c) (adopt src (unat through) fol) \<noteq> take (unat c) fol"
  using assms(1)
proof (cases rule: replicate_log_cases [where fol = fol and c = c])
  case (diverge k)
  then have "\<not> (unat through \<le> length fol \<and> take (unat through) fol = take (unat through) src)"
    using take_neq [of k "unat through" fol src] assms(1) by blast
  then have ad: "adopt src (unat through) fol = take (unat through) src" by (auto simp: adopt_def)
  have "k < unat c" using diverge(4) assms(2) by (simp split: if_splits)
  with ad diverge(1,3) assms(3,4) show ?thesis
    by (metis nth_take order_less_le_trans)
qed (use assms in \<open>auto split: if_splits\<close>)

lemma follow_term_log: "follow_term a (r\<lparr>rs_log := l\<rparr>) = (follow_term a r)\<lparr>rs_log := l\<rparr>"
  by (simp add: follow_term_def)

lemma put_put [simp]: "put_replica (put_replica m n r) n r' = put_replica m n r'"
  by (simp add: put_replica_def)

text \<open>The first steps of every action on an elected leader and a follower that is not ahead of it.\<close>

lemma follower_of_leader:
  assumes reach: "areach ms s" and sim: "sim b ms m s"
    and l: "find_replica m l = Some source" "is_leader_of m source"
    and f: "find_replica m v = Some r" "rs_current_term r \<le> rs_current_term source"
  obtains s' where "areach ms s'" "sim b ms (put_replica m v (follow_term source r)) s'"
    "a_term s' v = rs_current_term source" "a_leader s' (rs_current_term source) = Some l"
    "a_llog s' (rs_current_term source) = rs_log source" "a_committed s' = a_committed s" "a_llog s' = a_llog s"
proof -
  from sim_follow [OF reach sim f(1), of source] obtain s' where
    s': "areach ms s'" "sim b ms (put_replica m v (follow_term source r)) s'"
      "a_committed s' = a_committed s" "a_llog s' = a_llog s" by blast
  note D = simD [OF sim l(1)]
  from l(2) D ainvD(6) [OF areach_ainv [OF reach]] have "a_llog s (rs_current_term source) = rs_log source"
    by (auto simp: inv_active_def is_leader_of_def)
  moreover have "a_term s' v = rs_current_term source"
    using simD(2) [OF s'(2), of v] f(2) by (auto simp: follow_term_def)
  moreover have "a_leader s' (rs_current_term source) = Some l"
    using sim_members(2) [OF s'(2)] l(2) D(1) by (simp add: is_leader_of_def)
  ultimately show thesis using s' that by simp
qed

lemma sim_replicate:
  assumes reach: "areach ms s" and sim: "sim b ms m s"
    and l: "find_replica m l = Some source" "is_leader_of m source"
    and v: "find_replica m v = Some r" "rs_current_term r \<le> rs_current_term source"
    and lv: "l \<noteq> v" and n: "unat through \<le> length (rs_log source)"
    and ok: "b \<or> replicate_log (rs_log source) (rs_log r) (rs_commit_index r) through \<noteq> None"
  obtains new s' where "replicate_log (rs_log source) (rs_log r) (rs_commit_index r) through = Some new"
    "areach ms s'" "sim b ms (put_replica m v (follow_term source (r\<lparr>rs_log := new\<rparr>))) s'"
proof -
  let ?new = "adopt (rs_log source) (unat through) (rs_log r)"
  obtain s1 where s1: "areach ms s1" "sim b ms (put_replica m v (follow_term source r)) s1"
      "a_term s1 v = rs_current_term source" "a_leader s1 (rs_current_term source) = Some l"
      "a_llog s1 (rs_current_term source) = rs_log source"
    by (rule follower_of_leader [OF reach sim l v])
  have find: "find_replica (put_replica m v (follow_term source r)) v = Some (follow_term source r)" by simp
  note D = simD [OF s1(2) find]
  have eqs: "a_log s1 v = rs_log r" "b \<Longrightarrow> a_commit s1 v = unat (rs_commit_index r)"
    using D by (simp_all add: follow_term_def split: if_splits)
  have keep: "a_commit s1 v \<le> length ?new" "take (a_commit s1 v) ?new = take (a_commit s1 v) (rs_log r)"
    using receive_keeps_commit [OF areach_ainv [OF s1(1)], of v "unat through"] s1(3-5) eqs(1) by simp_all
  have "a_commit s1 v \<le> length (rs_log r)"
    using ainvD(9) [OF areach_ainv [OF s1(1)]] eqs(1) by (metis inv_commit_def)
  with ok eqs(2) have "replicate_log (rs_log source) (rs_log r) (rs_commit_index r) through \<noteq> None"
    using replicate_log_refused [OF n] keep by metis
  then have log: "replicate_log (rs_log source) (rs_log r) (rs_commit_index r) through = Some ?new"
    using replicate_log_adopt [OF n] by fastforce
  let ?s = "s1\<lparr>a_log := (a_log s1)(v := ?new)\<rparr>"
  have "astep ms s1 ?s"
    using s1(3-5) lv n keep eqs(1) by (intro astep.receive [where l = l and n = "unat through"]) simp_all
  with s1(1) have "areach ms ?s" by (rule areach_step)
  moreover have "sim b ms (put_replica (put_replica m v (follow_term source r)) v
      ((follow_term source r)\<lparr>rs_log := ?new\<rparr>)) ?s"
    by (rule sim_put [OF s1(2) find]) (use D in simp_all)
  ultimately show thesis using that log by (simp add: follow_term_log)
qed

lemma sim_replicate_prefix:
  assumes reach: "areach ms s" and sim: "sim b ms m s" and step: "replicate_prefix m l v through = (m', res)"
  shows "(\<exists>s'. areach ms s' \<and> sim b ms m' s') \<and>
    (b \<longrightarrow> act_error res \<noteq> ''replication would overwrite a committed entry'')"
proof (cases "find_replica m l = None \<or> find_replica m v = None")
  case True
  then show ?thesis using step reach sim
    by (auto simp: replicate_prefix_def reject_def split: option.splits)
next
  case False
  then obtain source r where f: "find_replica m l = Some source" "find_replica m v = Some r" by auto
  show ?thesis
  proof (cases "l = v \<or> \<not> rs_alive source \<or> \<not> rs_alive r \<or> \<not> is_leader_of m source \<or>
      rs_current_term source < rs_current_term r \<or> length (rs_log source) < unat through \<or>
      \<not> b \<and> replicate_log (rs_log source) (rs_log r) (rs_commit_index r) through = None")
    case True
    then show ?thesis using step reach sim f
      by (auto simp: replicate_prefix_def reject_def split: if_splits)
  next
    case False
    then obtain new s' where "replicate_log (rs_log source) (rs_log r) (rs_commit_index r) through = Some new"
        "areach ms s'" "sim b ms (put_replica m v (follow_term source (r\<lparr>rs_log := new\<rparr>))) s'"
      using sim_replicate [OF reach sim f(1) _ f(2)] by (metis not_less)
    with False step f show ?thesis by (auto simp: replicate_prefix_def accepted_def)
  qed
qed

section \<open>Commits, crashes and restarts\<close>

lemma equal_prefix_take:
  "equal_prefix a b k \<longleftrightarrow> unat k \<le> length (rs_log a) \<and> unat k \<le> length (rs_log b) \<and>
     take (unat k) (rs_log a) = take (unat k) (rs_log b)"
  by (auto simp: equal_prefix_def list_all_iff list_eq_iff_nth_eq)

lemma check_acks_ok:
  "check_acks m source k as seen = Inr us \<Longrightarrow> distinct seen \<Longrightarrow>
   us = seen @ as \<and> distinct us \<and>
   (\<forall>a \<in> set as. \<exists>r. find_replica m a = Some r \<and> equal_prefix source r k)"
proof (induction "as" arbitrary: seen)
  case (Cons a "as")
  from Cons.prems obtain r where r: "find_replica m a = Some r" "a \<notin> set seen" "equal_prefix source r k"
      "check_acks m source k as (seen @ [a]) = Inr us"
    by (auto split: option.splits if_splits)
  have "distinct (seen @ [a])" using r(2) Cons.prems(2) by simp
  from Cons.IH [OF r(4) this] r show ?case by auto
qed simp

lemma areach_acks:
  assumes "areach ms s" and "a_leader s t \<noteq> None" and "n \<le> length (a_llog s t)"
    and "\<forall>v \<in> set vs. a_term s v = t \<and> take n (a_log s v) = take n (a_llog s t)"
  shows "\<exists>f. areach ms (s\<lparr>a_acked := f\<rparr>) \<and> (\<forall>v \<in> set vs. n \<le> f t v)"
  using assms
proof (induction vs)
  case Nil
  then have "areach ms (s\<lparr>a_acked := a_acked s\<rparr>)" by simp
  then show ?case by (intro exI [of _ "a_acked s"]) simp
next
  case (Cons v vs)
  then obtain f where f: "areach ms (s\<lparr>a_acked := f\<rparr>)" "\<forall>v \<in> set vs. n \<le> f t v" by auto
  let ?s = "s\<lparr>a_acked := f\<rparr>"
  let ?f = "(a_acked ?s)(t := (a_acked ?s t)(v := max n (a_acked ?s t v)))"
  have "astep ms ?s (?s\<lparr>a_acked := ?f\<rparr>)" using Cons.prems by (intro astep.ack) auto
  with f(1) have "areach ms (?s\<lparr>a_acked := ?f\<rparr>)" by (rule areach_step)
  then have "areach ms (s\<lparr>a_acked := ?f\<rparr>)" by simp
  moreover have "\<forall>w \<in> set (v # vs). n \<le> ?f t w" using f(2) by auto
  ultimately show ?case by blast
qed

text \<open>
  Replacing a replica by one that differs only in applied state, readiness and the commit index,
  when the abstract node may learn that commit index.
\<close>

lemma sim_set_commit:
  assumes reach: "areach ms s" and sim: "sim b ms m s" and r: "find_replica m n = Some r"
    and same: "same_protocol_state (r\<lparr>rs_commit_index := k\<rparr>) r'"
    and k: "b \<Longrightarrow> k = rs_commit_index r \<or> (\<exists>t i. (t, i) \<in> a_committed s \<and> t \<le> a_term s n \<and> unat k \<le> i \<and>
      unat k \<le> length (rs_log r) \<and> take (unat k) (rs_log r) = take (unat k) (a_llog s t))"
  shows "\<exists>s'. areach ms s' \<and> sim b ms (put_replica m n r') s'"
proof -
  note D = simD [OF sim r]
  let ?s = "s\<lparr>a_commit := (a_commit s)(n := if b then unat k else 0)\<rparr>"
  have "areach ms ?s"
  proof (cases "b \<longrightarrow> k = rs_commit_index r")
    case True
    then have "(a_commit s)(n := if b then unat k else 0) = a_commit s" using D by auto
    then have "?s = s" by simp
    then show ?thesis using reach by simp
  next
    case False
    with k D have "astep ms s ?s" by (auto intro: astep.learn_commit)
    with reach show ?thesis by (rule areach_step)
  qed
  moreover have "sim b ms (put_replica m n r') ?s"
    by (rule sim_put [OF sim r]) (use D same in \<open>auto simp: same_protocol_state_def\<close>)
  ultimately show ?thesis by blast
qed

lemma sim_commit_advance:
  assumes reach: "areach ms s" and sim: "sim True ms m s"
    and l: "find_replica m l = Some source" "is_leader_of m source"
    and k: "rs_commit_index source < k" "unat k \<le> length (rs_log source)"
      "ent_term (rs_log source ! (unat k - 1)) = rs_current_term source"
    and as: "distinct as" "length ms div 2 + 1 \<le> length as"
      "\<And>a. a \<in> set as \<Longrightarrow> \<exists>r. find_replica m a = Some r \<and> equal_prefix source r k \<and>
         rs_current_term r \<le> rs_current_term source"
    and same: "same_protocol_state (source\<lparr>rs_commit_index := k\<rparr>) r'"
  shows "\<exists>s'. areach ms s' \<and> sim True ms (put_replica m l r') s'"
proof -
  let ?t = "rs_current_term source" and ?k = "unat k"
  note I = ainvD [OF areach_ainv [OF reach]] and D = simD [OF sim l(1)]
  from k(1) have k0: "0 < ?k" by (simp add: word_less_nat_alt)
  from l(2) D I(6) have llog: "a_llog s ?t = rs_log source" and lead: "a_leader s ?t = Some l"
    by (auto simp: inv_active_def is_leader_of_def)
  have ack: "a_term s a = ?t \<and> take ?k (a_log s a) = take ?k (a_llog s ?t)" if mem: "a \<in> set as" for a
  proof -
    obtain r where r: "find_replica m a = Some r" "equal_prefix source r k" "rs_current_term r \<le> ?t"
      using as(3) [OF mem] by blast
    note A = simD [OF sim r(1)]
    have "rs_log r ! (?k - 1) = rs_log source ! (?k - 1)"
      using r(2) k0 unfolding equal_prefix_take by (metis diff_less less_numeral_extra(1) nth_take)
    moreover have "rs_log r ! (?k - 1) \<in> set (rs_log r)" using r(2) k0 unfolding equal_prefix_take by (intro nth_mem) linarith
    ultimately have "?t \<le> a_term s a" using I(1) A(4) k(3) by (metis inv_log_def)
    with A r llog show ?thesis by (simp add: equal_prefix_take)
  qed
  from areach_acks [OF reach, of ?t ?k "as"] lead llog k(2) ack obtain f where
    f: "areach ms (s\<lparr>a_acked := f\<rparr>)" "\<forall>v \<in> set as. ?k \<le> f ?t v" by auto
  let ?s = "(s\<lparr>a_acked := f\<rparr>)\<lparr>a_committed := insert (?t, ?k) (a_committed (s\<lparr>a_acked := f\<rparr>))\<rparr>"
  have "majority ms (set as)" using as simD(7) [OF sim] by (intro majority_list) auto
  then have "astep ms (s\<lparr>a_acked := f\<rparr>) ?s"
    using lead llog k k0 f(2) by (intro astep.commit_point [where Q = "set as"]) auto
  with f(1) have s1: "areach ms ?s" by (rule areach_step)
  have "sim True ms m ?s" using sim by (simp add: sim_def)
  then show ?thesis
    by (rule sim_set_commit [OF s1 _ l(1) same], intro disjI2 exI [of _ ?t] exI [of _ ?k]) (use D llog k in simp)
qed

lemma sim_commit:
  assumes reach: "areach ms s" and sim: "sim b ms m s" and step: "commit m l k as = (m', res)"
    and cur: "b \<longrightarrow> acks_current m (CommitPrefix l k as)"
  shows "\<exists>s'. areach ms s' \<and> sim b ms m' s'"
proof (cases "m' = m")
  case True
  then show ?thesis using reach sim by blast
next
  case False
  have frame: "same_protocol_state q (q\<lparr>rs_ready_term := t\<rparr>)" for q t by (simp add: same_protocol_state_def)
  from step False obtain source us r' where l: "find_replica m l = Some source" "is_leader_of m source"
      and k: "rs_commit_index source \<le> k" "unat k \<le> length (rs_log source)"
      and chk: "check_acks m source k as [] = Inr us" and q: "length (md_members m) div 2 + 1 \<le> length us"
      and new: "rs_commit_index source < k \<Longrightarrow> ent_term (rs_log source ! (unat k - 1)) = rs_current_term source"
      and m': "m' = put_replica m l r'" and r': "r' = apply_through (source\<lparr>rs_commit_index := k\<rparr>) k \<or>
        (\<exists>t. r' = (apply_through (source\<lparr>rs_commit_index := k\<rparr>) k)\<lparr>rs_ready_term := t\<rparr>)"
    unfolding commit_def Let_def
    by (cases "find_replica m l"; cases "check_acks m (the (find_replica m l)) k as []")
      (auto simp: not_le not_less split: if_splits)
  have same: "same_protocol_state (source\<lparr>rs_commit_index := k\<rparr>) r'"
    using r' apply_through_frame [of "source\<lparr>rs_commit_index := k\<rparr>" k] frame same_protocol_state_trans by blast
  from check_acks_ok [OF chk] have us: "us = as" "distinct as"
    and acks: "\<And>a. a \<in> set as \<Longrightarrow> \<exists>r. find_replica m a = Some r \<and> equal_prefix source r k" by auto
  show ?thesis
  proof (cases "b \<longrightarrow> k = rs_commit_index source")
    case True
    then show ?thesis unfolding m' by (intro sim_set_commit [OF reach sim l(1) same]) simp
  next
    case False
    then have b: b by simp
    have "\<exists>r. find_replica m a = Some r \<and> equal_prefix source r k \<and> rs_current_term r \<le> rs_current_term source"
      if "a \<in> set as" for a using acks [OF that] cur b l(1) that by (fastforce simp: list_all_iff)
    with False k new us q sim sim_members(1) [OF sim] b show ?thesis
      unfolding m' using sim_commit_advance [OF reach _ l _ k(2) _ us(2) _ _ same] by auto
  qed
qed

lemma sim_learn:
  assumes reach: "areach ms s" and sim: "sim b ms m s" and step: "learn m l v k = (m', res)"
  shows "\<exists>s'. areach ms s' \<and> sim b ms m' s'"
proof (cases "m' = m")
  case True
  then show ?thesis using reach sim by blast
next
  case False
  with step obtain source r where l: "find_replica m l = Some source" "is_leader_of m source"
      and v: "find_replica m v = Some r" "rs_current_term r \<le> rs_current_term source"
      and k: "rs_commit_index r \<le> k" "k \<le> rs_commit_index source" "equal_prefix source r k"
      and m': "m' = put_replica m v (follow_term source (apply_through (r\<lparr>rs_commit_index := k\<rparr>) k))"
    by (auto simp: learn_def not_less split: option.splits if_splits)
  obtain s1 where s1: "areach ms s1" "sim b ms (put_replica m v (follow_term source r)) s1"
      "a_term s1 v = rs_current_term source" "a_committed s1 = a_committed s" "a_llog s1 = a_llog s"
    by (rule follower_of_leader [OF reach sim l v])
  note D = simD [OF sim l(1)]
  have "k = rs_commit_index (follow_term source r) \<or>
      (\<exists>t i. (t, i) \<in> a_committed s1 \<and> t \<le> a_term s1 v \<and> unat k \<le> i \<and>
        unat k \<le> length (rs_log (follow_term source r)) \<and>
        take (unat k) (rs_log (follow_term source r)) = take (unat k) (a_llog s1 t))" if b: b
  proof (cases "k = 0")
    case False
    then have "0 < unat k" by (metis gr0I unat_eq_zero)
    moreover have le: "unat k \<le> a_commit s l" using k(2) D(5) b by (simp add: word_le_nat_alt)
    ultimately have "0 < a_commit s l" by simp
    then obtain t i where ti: "(t, i) \<in> a_committed s" "t \<le> a_term s l" "a_commit s l \<le> i"
        "take (a_commit s l) (a_log s l) = take (a_commit s l) (a_llog s t)"
      using ainvD(9) [OF areach_ainv [OF reach]] unfolding inv_commit_def by blast
    then have "take (unat k) (rs_log source) = take (unat k) (a_llog s t)"
      using D(4) le by (metis min.absorb1 take_take)
    with ti le k(3) s1 D(2) show ?thesis
      by (intro disjI2 exI [of _ t] exI [of _ i]) (auto simp: equal_prefix_take follow_term_def)
  qed (use k(1) in \<open>auto simp: follow_term_def\<close>)
  moreover have "same_protocol_state ((follow_term source r)\<lparr>rs_commit_index := k\<rparr>)
      (follow_term source (apply_through (r\<lparr>rs_commit_index := k\<rparr>) k))"
    using apply_through_frame [of "r\<lparr>rs_commit_index := k\<rparr>" k]
    by (auto simp: same_protocol_state_def follow_term_def)
  ultimately show ?thesis
    using sim_set_commit [OF s1(1,2), of v "follow_term source r"] unfolding m' by simp
qed

lemma sim_crash:
  assumes sim: "sim b ms m s" and step: "crash m n = (m', res)"
  shows "sim b ms m' s"
proof (cases "find_replica m n")
  case (Some r)
  have "sim b ms (put_replica m n (r\<lparr>rs_alive := False, rs_active_leader := False\<rparr>)) s"
    by (rule sim_put [OF sim Some]) (use simD [OF sim Some] in simp_all)
  with Some sim step show ?thesis by (auto simp: crash_def split: if_splits)
qed (use sim step in \<open>simp add: crash_def\<close>)

lemma sim_restart:
  assumes sim: "sim b ms m s" and step: "restart m n = (m', res)"
  shows "sim b ms m' s"
proof (cases "find_replica m n")
  case (Some r)
  have "sim b ms (put_replica m n (r\<lparr>rs_alive := True, rs_active_leader := False\<rparr>)) s"
    by (rule sim_put [OF sim Some]) (use simD [OF sim Some] in simp_all)
  with Some sim step show ?thesis by (auto simp: restart_def split: if_splits)
qed (use sim step in \<open>simp add: restart_def\<close>)

lemma sim_action:
  assumes "areach ms s" and "sim b ms m s" and "b \<longrightarrow> acks_current m a" and "apply_action m a = (m', res)"
  shows "\<exists>s'. areach ms s' \<and> sim b ms m' s'"
proof (cases a)
  case (CommitPrefix l k as)
  then show ?thesis using sim_commit [OF assms(1,2)] assms(3,4) by simp
qed (use assms sim_elect sim_append_noop sim_propose sim_replicate_prefix sim_learn sim_crash sim_restart
    in \<open>metis apply_action.simps\<close>)+

lemma run_sim:
  assumes "areach ms s" and "sim b ms m s" and "b \<longrightarrow> certificates_current m as"
  shows "\<exists>s'. areach ms s' \<and> sim b ms (after_actions m as) s'"
  using assms
proof (induction "as" arbitrary: m s)
  case (Cons a "as")
  obtain s' where "areach ms s'" "sim b ms (fst (apply_action m a)) s'"
    using sim_action [of ms s b m a "fst (apply_action m a)"] Cons.prems by (metis certificates_current.simps(2) prod.collapse)
  with Cons show ?case by simp
qed auto

section \<open>Safety of the reference model\<close>

lemma modelD:
  assumes "new_model ms = Inr m0"
  obtains s where "areach ms s" "ainv ms s" "sim False ms (after_actions m0 as) s"
  using run_sim [OF areach_init sim_init [OF assms], of False "as"] areach_ainv by blast

lemma current_modelD:
  assumes "new_model ms = Inr m0" and "certificates_current m0 as"
  obtains s where "areach ms s" "ainv ms s" "sim True ms (after_actions m0 as) s"
  using run_sim [OF areach_init sim_init [OF assms(1)], of True "as"] assms(2) areach_ainv by blast

lemma voter_errors: "check_voters m c t r vs seen = Inl e \<Longrightarrow> e \<noteq> ''term already has a different leader''"
  by (induction vs arbitrary: seen) (auto split: option.splits if_splits)

lemma sim_view:
  assumes "sim b ms m s" and "replica m n = Some v"
  shows "a_term s n = vw_current_term v" "a_log s n = vw_log v" "b \<Longrightarrow> a_commit s n = unat (vw_commit_index v)"
  using assms simD [OF assms(1)] by (auto simp: replica_def)

text \<open>A model of three replicas after a history with an election, a crash and a second election.\<close>

definition sample_start :: RefModel where
  "sample_start = projr (new_model [1, 2, 3])"

definition sample_model :: RefModel where
  "sample_model = after_actions sample_start sample_history"

lemma sample_facts:
  "new_model [1, 2, 3] = Inr sample_start" "certificates_current sample_start sample_history"
proof -
  have "\<not> isl (new_model [1, 2, 3])" by code_simp
  then show "new_model [1, 2, 3] = Inr sample_start" by (simp add: sample_start_def)
  show "certificates_current sample_start sample_history" by code_simp
qed

lemma sample_replicas:
  obtains v1 v2 v3 where "replica sample_model 1 = Some v1" "replica sample_model 2 = Some v2" "replica sample_model 3 = Some v3"
    "vw_commit_index v1 = 2" "vw_commit_index v3 = 2" "vw_current_term v1 = 1" "vw_current_term v2 = 2"
    "1 < length (vw_log v1)" "1 < length (vw_log v2)" "ent_term (vw_log v1 ! 1) = ent_term (vw_log v2 ! 1)"
proof -
  have "case (replica sample_model 1, replica sample_model 2, replica sample_model 3) of
      (Some v1, Some v2, Some v3) \<Rightarrow> vw_commit_index v1 = 2 \<and> vw_commit_index v3 = 2 \<and> vw_current_term v1 = 1 \<and>
        vw_current_term v2 = 2 \<and> 1 < length (vw_log v1) \<and> 1 < length (vw_log v2) \<and>
        ent_term (vw_log v1 ! 1) = ent_term (vw_log v2 ! 1)
    | _ \<Rightarrow> False" by code_simp
  then show thesis using that by (auto split: option.splits)
qed

text \<open>
  C1. Committed entries never diverge: after any actions on a new model in which no commit certificate
  names an acknowledger that has already seen a term above the leader's, two replicas hold the same
  entries up to any index that both have committed, and a committed index lies within the log. (The
  proviso is needed: \<^verbatim>\<open>Model::commit\<close> does not check it, see \<open>reference_stale_ack_diverges\<close>.)
\<close>

theorem reference_committed_agree:
  assumes "new_model ms = Inr m0" and "certificates_current m0 as"
    and "replica (after_actions m0 as) a = Some va" and "replica (after_actions m0 as) b = Some vb"
    and "k \<le> vw_commit_index va" and "k \<le> vw_commit_index vb"
  shows "unat k \<le> length (vw_log va) \<and> take (unat k) (vw_log va) = take (unat k) (vw_log vb)"
proof -
  obtain s where s: "areach ms s" "ainv ms s" "sim True ms (after_actions m0 as) s"
    using assms(1,2) by (rule current_modelD)
  note A = sim_view [OF s(3) assms(3)] and B = sim_view [OF s(3) assms(4)]
  have "take (unat k) (a_log s a) = take (unat k) (a_log s b)"
    using assms A B by (intro commit_agree [OF s(2)]) (simp_all add: word_le_nat_alt)
  moreover have "a_commit s a \<le> length (a_log s a)" using ainvD(9) [OF s(2)] by (simp add: inv_commit_def)
  ultimately show ?thesis using A B assms(5) by (simp add: word_le_nat_alt)
qed

theorem reference_committed_agree_witness:
  "\<exists>v w. replica sample_model 1 = Some v \<and> replica sample_model 3 = Some w \<and> vw_commit_index v = 2 \<and>
     vw_commit_index w = 2 \<and> take (unat (2 :: LogIndex)) (vw_log v) = take (unat (2 :: LogIndex)) (vw_log w)"
  by (rule sample_replicas)
    (use reference_committed_agree [OF sample_facts, folded sample_model_def, of 1 _ 3 _ 2] in auto)

text \<open>
  C2. Leader completeness: after any actions on a new model in which no commit certificate names an
  acknowledger that has already seen a term above the leader's, an elected leader holds every entry
  committed by any replica whose term is not above the leader's.
\<close>

theorem reference_leader_complete:
  assumes "new_model ms = Inr m0" and "certificates_current m0 as" and "is_leader (after_actions m0 as) l"
    and "replica (after_actions m0 as) l = Some vl" and "replica (after_actions m0 as) n = Some v"
    and "vw_current_term v \<le> vw_current_term vl"
  shows "unat (vw_commit_index v) \<le> length (vw_log vl) \<and>
    take (unat (vw_commit_index v)) (vw_log vl) = take (unat (vw_commit_index v)) (vw_log v)"
proof (cases "vw_commit_index v = 0")
  case False
  obtain s where s: "areach ms s" "ainv ms s" "sim True ms (after_actions m0 as) s"
    using assms(1,2) by (rule current_modelD)
  note L = sim_view [OF s(3) assms(4)] and V = sim_view [OF s(3) assms(5)] and I = ainvD [OF s(2)]
  let ?k = "a_commit s n"
  have "0 < ?k" using V False by (metis gr0I unat_eq_zero)
  with I(9) obtain t i where ti: "(t, i) \<in> a_committed s" "t \<le> a_term s n" "?k \<le> i"
      "take ?k (a_log s n) = take ?k (a_llog s t)" and len: "?k \<le> length (a_log s n)"
    unfolding inv_commit_def by blast
  have "a_active s l"
    using assms(3) simD(6) [OF s(3)] by (auto simp: is_leader_def is_leader_of_def split: option.splits)
  then have lead: "a_leader s (a_term s l) \<noteq> None" "a_log s l = a_llog s (a_term s l)"
    using I(6) by (auto simp: inv_active_def)
  moreover have "t \<le> a_term s l" using ti(2) L V assms(6) by simp
  ultimately have "take i (a_log s l) = take i (a_llog s t)"
    using leader_completeness [OF s(2) ti(1)] by simp
  then have "take ?k (a_log s l) = take ?k (a_log s n)" using ti(3,4) by (metis min.absorb1 take_take)
  moreover from this len have "?k \<le> length (a_log s l)" by (metis length_take min.absorb_iff2 min.cobounded1 min.absorb2)
  ultimately show ?thesis using L V by simp
qed simp

theorem reference_leader_complete_witness:
  "\<exists>v w. replica sample_model 2 = Some v \<and> replica sample_model 1 = Some w \<and> vw_commit_index w = 2 \<and>
     take (unat (vw_commit_index w)) (vw_log v) = take (unat (vw_commit_index w)) (vw_log w)"
proof -
  have lead: "is_leader sample_model 2" by code_simp
  obtain w v u where r: "replica sample_model 1 = Some w" "replica sample_model 2 = Some v" "replica sample_model 3 = Some u"
    "vw_commit_index w = 2" "vw_commit_index u = 2" "vw_current_term w = 1" "vw_current_term v = 2"
    by (rule sample_replicas)
  then have "vw_current_term w \<le> vw_current_term v" by simp
  with reference_leader_complete [OF sample_facts, folded sample_model_def, OF lead r(2,1)] r show ?thesis by blast
qed

text \<open>
  C3. Log matching: after any actions whatsoever on a new model, if two replicas hold an entry of the
  same term at an index, their logs are identical up to that index.
\<close>

theorem reference_log_matching:
  assumes "new_model ms = Inr m0"
    and "replica (after_actions m0 as) a = Some va" and "replica (after_actions m0 as) b = Some vb"
    and "j < length (vw_log va)" and "j < length (vw_log vb)"
    and "ent_term (vw_log va ! j) = ent_term (vw_log vb ! j)"
  shows "take (Suc j) (vw_log va) = take (Suc j) (vw_log vb)"
proof -
  obtain s where s: "areach ms s" "ainv ms s" "sim False ms (after_actions m0 as) s"
    using assms(1) by (rule modelD)
  note A = sim_view [OF s(3) assms(2)] and B = sim_view [OF s(3) assms(3)]
  have "matched s (a_log s a)" "matched s (a_log s b)" using ainvD(1) [OF s(2)] by (simp_all add: inv_log_def)
  with A B assms(4-6) show ?thesis using matched_agree by metis
qed

theorem reference_log_matching_witness:
  "\<exists>v w. replica sample_model 1 = Some v \<and> replica sample_model 2 = Some w \<and> take (Suc 1) (vw_log v) = take (Suc 1) (vw_log w)"
  by (rule sample_replicas)
    (use reference_log_matching [OF sample_facts(1), where as = sample_history, folded sample_model_def, of 1 _ 2] in blast)

text \<open>
  C10. The last guard of an election never fires: after any actions whatsoever on a new model, no
  election gets as far as being refused because the term already has a different leader.
\<close>

theorem reference_one_leader_per_term:
  assumes "new_model ms = Inr m0"
  shows "act_error (snd (elect (after_actions m0 as) c t vs)) \<noteq> ''term already has a different leader''"
proof -
  let ?m = "after_actions m0 as"
  obtain s where s: "areach ms s" "ainv ms s" "sim False ms ?m s" using assms by (rule modelD)
  note I = ainvD [OF s(2)]
  have "d = c" if d: "fmlookup (md_leaders ?m) t = Some d" and r: "find_replica ?m c = Some r"
    and chk: "check_voters ?m c t r vs [] = Inr us" and q: "length (md_members ?m) div 2 + 1 \<le> length us" for d r us
  proof -
    from check_voters_ok [OF chk] have us: "us = vs" "distinct vs" and ok: "\<And>v. v \<in> set vs \<Longrightarrow> \<exists>r. find_replica ?m v = Some r \<and>
        rs_current_term r \<le> t \<and> (rs_current_term r = t \<longrightarrow> rs_voted_for r = None \<or> rs_voted_for r = Some c)" by auto
    then have "majority ms (set vs)"
      using q sim_members(1) [OF s(3)] simD(7) [OF s(3)] by (intro majority_list) auto
    moreover obtain W where W: "majority ms W" "\<forall>v \<in> W. \<exists>l. a_votes s t v = Some (d, l)"
      using I(5) d sim_members(2) [OF s(3)] by (force simp: inv_leader_def)
    ultimately obtain v where v: "v \<in> set vs" "v \<in> W" using maj.common_member by blast
    from W(2) v(2) obtain l where "a_votes s t v = Some (d, l)" by blast
    with I(4) have "t \<le> a_term s v" "a_term s v = t \<longrightarrow> a_vote s v = Some d" by (auto simp: inv_votes_def)
    with ok [OF v(1)] simD [OF s(3), of v] show ?thesis by fastforce
  qed
  then show ?thesis
    by (auto simp: elect_def Let_def reject_def accepted_def not_less split: option.splits sum.splits if_splits
        dest!: voter_errors)
qed

theorem reference_one_leader_per_term_witness:
  "snd (elect sample_model 3 2 [2, 3]) = reject ''election term must advance the candidate term'' \<and>
   act_error (snd (elect sample_model 1 2 [1, 2, 3])) \<noteq> ''term already has a different leader''"
proof
  show "snd (elect sample_model 3 2 [2, 3]) = reject ''election term must advance the candidate term''" by code_simp
  show "act_error (snd (elect sample_model 1 2 [1, 2, 3])) \<noteq> ''term already has a different leader''"
    using reference_one_leader_per_term [OF sample_facts(1), where as = sample_history, folded sample_model_def] by blast
qed

text \<open>
  C14. Replication never threatens a committed entry: after any actions on a new model in which no
  commit certificate names an acknowledger that has already seen a term above the leader's, no
  replication from an elected leader is refused because it would overwrite an entry its follower has committed.
\<close>

theorem reference_no_overwrite:
  assumes "new_model ms = Inr m0" and "certificates_current m0 as"
  shows "act_error (snd (replicate_prefix (after_actions m0 as) l v k)) \<noteq> ''replication would overwrite a committed entry''"
proof -
  obtain s where s: "areach ms s" "ainv ms s" "sim True ms (after_actions m0 as) s"
    using assms by (rule current_modelD)
  show ?thesis using sim_replicate_prefix [OF s(1,3)] by (metis surj_pair snd_conv)
qed

theorem reference_no_overwrite_witness:
  "act_ok (snd (replicate_prefix sample_model 2 3 3)) \<and>
   act_error (snd (replicate_prefix sample_model 2 3 1)) \<noteq> ''replication would overwrite a committed entry''"
proof
  show "act_ok (snd (replicate_prefix sample_model 2 3 3))" by code_simp
  show "act_error (snd (replicate_prefix sample_model 2 3 1)) \<noteq> ''replication would overwrite a committed entry''"
    using reference_no_overwrite [OF sample_facts, folded sample_model_def] by blast
qed

definition stale_ack_history :: "Action list" where
  "stale_ack_history = [Elect 1 1 [1, 2, 4], AppendNoOp 1, ReplicatePrefix 1 2 1, Elect 3 2 [3, 4, 5], AppendNoOp 3,
     Elect 2 3 [2, 4, 5], ReplicatePrefix 2 4 1, CommitPrefix 1 1 [1, 2, 4], Elect 3 4 [3, 4, 5],
     ReplicatePrefix 3 4 1, ReplicatePrefix 3 5 1, AppendNoOp 3, ReplicatePrefix 3 4 2, ReplicatePrefix 3 5 2,
     CommitPrefix 3 2 [3, 4, 5]]"

text \<open>
  Without the proviso on acknowledgements the model is not safe: a commit certificate may name
  a replica that holds the leader's prefix but has moved to a higher term, and the model then
  accepts a history in which two replicas commit different entries at the same index. (Replicas 2
  and 4 have moved to term 3 when they are counted as acknowledging the leader of term 1;
  \<^verbatim>\<open>Model::commit\<close> compares prefixes only.)
\<close>

theorem reference_stale_ack_diverges:
  "hr_ok (snd (run_model [1, 2, 3, 4, 5] stale_ack_history)) \<and>
   (case (replica (fst (run_model [1, 2, 3, 4, 5] stale_ack_history)) 1,
          replica (fst (run_model [1, 2, 3, 4, 5] stale_ack_history)) 3) of
      (Some v, Some w) \<Rightarrow> 1 \<le> vw_commit_index v \<and> 1 \<le> vw_commit_index w \<and> take 1 (vw_log v) \<noteq> take 1 (vw_log w)
    | _ \<Rightarrow> False)"
  by code_simp

text \<open>
  A refused action changes nothing: whenever an action is not accepted, the model is left as
  it was, so a history stops with the model of its last accepted action.
\<close>

theorem reference_refusal_keeps:
  assumes "apply_action m a = (m', res)" and "\<not> act_ok res"
  shows "m' = m"
proof (cases a)
  case (Propose l c)
  with assms show ?thesis
    by (auto simp: propose_def Let_def proposal_result_def split: option.splits if_splits)
qed (use assms in \<open>auto simp: elect_def append_noop_def replicate_prefix_def commit_def learn_def crash_def
      restart_def Let_def accepted_def split: option.splits if_splits sum.splits\<close>)

theorem reference_refusal_keeps_witness:
  "let m = fst (run_model [1, 2, 3] sample_history) in
     fst (apply_action m (AppendNoOp 1)) = m \<and> \<not> act_ok (snd (apply_action m (AppendNoOp 1)))"
proof -
  have "\<not> act_ok (snd (apply_action (fst (run_model [1, 2, 3] sample_history)) (AppendNoOp 1)))" by code_simp
  then show ?thesis using reference_refusal_keeps [of "fst (run_model [1, 2, 3] sample_history)" "AppendNoOp 1"]
    by (metis (mono_tags, lifting) prod.collapse)
qed

end
