(* ===== verification/Codec.thy ===== *)
theory Codec
  imports Model
begin

text \<open>
  The wire codec of \<^verbatim>\<open>src/codec.cpp\<close>: big-endian frames with a twelve-byte header, their writer
  and reader, and the encoders and decoders of commands, log entries and messages, with the error
  and the byte offset of every rejection.

  \<^item> The \<^verbatim>\<open>Writer\<close> and the \<^verbatim>\<open>Reader\<close> of the source stop at their first failure and keep its
    error and offset; every caller then returns them. An operation here returns that pair as
    \<open>Inl\<close>, or \<open>Inr\<close> with the value and the object's new state.
  \<^item> \<^verbatim>\<open>Result<T>\<close> is \<open>(CodecError \<times> nat) + 'a\<close>; \<^verbatim>\<open>Error::none\<close> is the case \<open>Inr\<close>.
  \<^item> \<open>CommandKind\<close> has the source's three enumerators, so an unknown kind exists only as a byte.
\<close>

section \<open>Limits, errors, wire types\<close>

record Limits =
  lim_max_frame_bytes :: nat
  lim_max_key_bytes :: nat
  lim_max_value_bytes :: nat
  lim_max_entries_per_append :: nat

definition default_limits :: Limits where
  "default_limits = \<lparr>lim_max_frame_bytes = 1024 * 1024, lim_max_key_bytes = 4 * 1024,
     lim_max_value_bytes = 64 * 1024, lim_max_entries_per_append = 256\<rparr>"

datatype CodecError =
    E_truncated | E_bad_magic | E_unsupported_version | E_unknown_type | E_nonzero_reserved
  | E_invalid_boolean | E_invalid_enum | E_invalid_value | E_limit_exceeded | E_length_overflow
  | E_trailing_bytes | E_unexpected_type

type_synonym 'a Result = "(CodecError \<times> nat) + 'a"

fun codec_to_string :: "CodecError \<Rightarrow> string" where
  "codec_to_string E_truncated = ''truncated''"
| "codec_to_string E_bad_magic = ''bad_magic''"
| "codec_to_string E_unsupported_version = ''unsupported_version''"
| "codec_to_string E_unknown_type = ''unknown_type''"
| "codec_to_string E_nonzero_reserved = ''nonzero_reserved''"
| "codec_to_string E_invalid_boolean = ''invalid_boolean''"
| "codec_to_string E_invalid_enum = ''invalid_enum''"
| "codec_to_string E_invalid_value = ''invalid_value''"
| "codec_to_string E_limit_exceeded = ''limit_exceeded''"
| "codec_to_string E_length_overflow = ''length_overflow''"
| "codec_to_string E_trailing_bytes = ''trailing_bytes''"
| "codec_to_string E_unexpected_type = ''unexpected_type''"

definition kHeaderBytes :: nat where "kHeaderBytes = 12"
definition kMinimumEntryPayloadBytes :: nat where "kMinimumEntryPayloadBytes = 17"
definition kMagic :: bytes where "kMagic = [0x44, 0x4C, 0x4F, 0x47]"
definition kVersion :: u8 where "kVersion = 1"

datatype WireType = WT_command | WT_log_entry | WT_request_vote | WT_request_vote_response
  | WT_append_entries | WT_append_entries_response

fun wire_type_byte :: "WireType \<Rightarrow> u8" where
  "wire_type_byte WT_command = 1"
| "wire_type_byte WT_log_entry = 2"
| "wire_type_byte WT_request_vote = 16"
| "wire_type_byte WT_request_vote_response = 17"
| "wire_type_byte WT_append_entries = 18"
| "wire_type_byte WT_append_entries_response = 19"

text \<open>The cast of a byte to \<^verbatim>\<open>WireType\<close>, defined when \<^verbatim>\<open>known_wire_type\<close> holds.\<close>

definition known_wire_type :: "u8 \<Rightarrow> WireType option" where
  "known_wire_type b =
     (if b = 1 then Some WT_command else if b = 2 then Some WT_log_entry
      else if b = 16 then Some WT_request_vote else if b = 17 then Some WT_request_vote_response
      else if b = 18 then Some WT_append_entries else if b = 19 then Some WT_append_entries_response
      else None)"

definition known_command_kind :: "u8 \<Rightarrow> bool" where
  "known_command_kind b \<longleftrightarrow> command_kind_of_byte b \<noteq> None"

definition valid_log_pointer :: "LogIndex \<Rightarrow> Term \<Rightarrow> bool" where
  "valid_log_pointer i t \<longleftrightarrow> (i = 0) = (t = 0)"

definition valid_command_semantics :: "ClientCommand \<Rightarrow> bool" where
  "valid_command_semantics c \<longleftrightarrow> cmd_sequence c \<noteq> 0 \<and> cmd_key c \<noteq> [] \<and>
     known_command_kind (command_kind_byte (cmd_kind c)) \<and>
     \<not> ((cmd_kind c = CmdErase \<or> cmd_kind c = CmdGet) \<and> cmd_value c \<noteq> [])"

section \<open>Writer\<close>

record Writer =
  wr_limit :: nat
  wr_bytes :: bytes

definition new_writer :: "nat \<Rightarrow> Writer" where
  "new_writer limit = \<lparr>wr_limit = limit, wr_bytes = []\<rparr>"

definition writer_fail :: "CodecError \<Rightarrow> Writer \<Rightarrow> Writer Result" where
  "writer_fail e w = Inl (e, length (wr_bytes w))"

definition ensure :: "nat \<Rightarrow> Writer \<Rightarrow> bool" where
  "ensure count w \<longleftrightarrow> \<not> (count > wr_limit w \<or> length (wr_bytes w) > wr_limit w - count)"

definition put_u8 :: "u8 \<Rightarrow> Writer \<Rightarrow> Writer Result" where
  "put_u8 v w = (if \<not> ensure 1 w then writer_fail E_limit_exceeded w
                 else Inr (w\<lparr>wr_bytes := wr_bytes w @ [v]\<rparr>))"

fun put_each :: "bytes \<Rightarrow> Writer \<Rightarrow> Writer Result" where
  "put_each [] w = Inr w"
| "put_each (b # bs) w = bind_res (put_u8 b w) (put_each bs)"

definition put_u16 :: "u16 \<Rightarrow> Writer \<Rightarrow> Writer Result" where
  "put_u16 v w = put_each (map (\<lambda>shift. ucast (drop_bit shift v)) [8, 0]) w"

definition put_u32 :: "u32 \<Rightarrow> Writer \<Rightarrow> Writer Result" where
  "put_u32 v w = put_each (map (\<lambda>shift. ucast (drop_bit shift v)) [24, 16, 8, 0]) w"

definition put_u64 :: "u64 \<Rightarrow> Writer \<Rightarrow> Writer Result" where
  "put_u64 v w = put_each (map (\<lambda>shift. ucast (drop_bit shift v)) [56, 48, 40, 32, 24, 16, 8, 0]) w"

definition put_bytes :: "bytes \<Rightarrow> Writer \<Rightarrow> Writer Result" where
  "put_bytes bs w = (if \<not> ensure (length bs) w then writer_fail E_limit_exceeded w
                     else Inr (w\<lparr>wr_bytes := wr_bytes w @ bs\<rparr>))"

definition put_string :: "nat \<Rightarrow> bytes \<Rightarrow> Writer \<Rightarrow> Writer Result" where
  "put_string field_limit v w =
     (if length v > field_limit \<or> length v > 4294967295 then writer_fail E_limit_exceeded w
      else bind_res (put_u32 (of_nat (length v)) w) (put_bytes v))"

definition put_bool :: "bool \<Rightarrow> Writer \<Rightarrow> Writer Result" where
  "put_bool b w = put_u8 (if b then 1 else 0) w"

section \<open>Reader\<close>

record Reader =
  rd_bytes :: bytes
  rd_base :: nat
  rd_position :: nat

definition new_reader :: "bytes \<Rightarrow> nat \<Rightarrow> Reader" where
  "new_reader bs base = \<lparr>rd_bytes = bs, rd_base = base, rd_position = 0\<rparr>"

definition absolute_position :: "Reader \<Rightarrow> nat" where
  "absolute_position r = rd_base r + rd_position r"

definition remaining :: "Reader \<Rightarrow> nat" where
  "remaining r = length (rd_bytes r) - rd_position r"

definition at_end :: "Reader \<Rightarrow> bool" where
  "at_end r \<longleftrightarrow> rd_position r = length (rd_bytes r)"

definition reader_fail :: "CodecError \<Rightarrow> Reader \<Rightarrow> 'a Result" where
  "reader_fail e r = Inl (e, absolute_position r)"

definition get_u8 :: "Reader \<Rightarrow> (u8 \<times> Reader) Result" where
  "get_u8 r = (if 1 > remaining r then reader_fail E_truncated r
               else Inr (rd_bytes r ! rd_position r, r\<lparr>rd_position := rd_position r + 1\<rparr>))"

text \<open>The byte loops of \<^verbatim>\<open>get_u16\<close>, \<^verbatim>\<open>get_u32\<close> and \<^verbatim>\<open>get_u64\<close>: \<open>value = (value << 8) | byte\<close>.\<close>

fun get_loop :: "nat \<Rightarrow> 'a::len word \<Rightarrow> Reader \<Rightarrow> ('a word \<times> Reader) Result" where
  "get_loop 0 v r = Inr (v, r)"
| "get_loop (Suc n) v r = bind_res (get_u8 r) (\<lambda>(b, r). get_loop n (push_bit 8 v OR ucast b) r)"

definition get_u16 :: "Reader \<Rightarrow> (u16 \<times> Reader) Result" where
  "get_u16 r = get_loop 2 0 r"

definition get_u32 :: "Reader \<Rightarrow> (u32 \<times> Reader) Result" where
  "get_u32 r = get_loop 4 0 r"

definition get_u64 :: "Reader \<Rightarrow> (u64 \<times> Reader) Result" where
  "get_u64 r = get_loop 8 0 r"

definition get_string :: "nat \<Rightarrow> Reader \<Rightarrow> (bytes \<times> Reader) Result" where
  "get_string field_limit r = bind_res (get_u32 r) (\<lambda>(n, r).
     if unat n > field_limit then reader_fail E_limit_exceeded r
     else if unat n > remaining r then reader_fail E_truncated r
     else Inr (take (unat n) (drop (rd_position r) (rd_bytes r)), r\<lparr>rd_position := rd_position r + unat n\<rparr>))"

definition get_bool :: "Reader \<Rightarrow> (bool \<times> Reader) Result" where
  "get_bool r = bind_res (get_u8 r) (\<lambda>(raw, r).
     if raw > 1 then reader_fail E_invalid_boolean r else Inr (raw = 1, r))"

section \<open>Payloads\<close>

definition write_command_payload :: "Limits \<Rightarrow> ClientCommand \<Rightarrow> Writer \<Rightarrow> Writer Result" where
  "write_command_payload limits c w =
     (if \<not> known_command_kind (command_kind_byte (cmd_kind c)) then writer_fail E_invalid_enum w
      else if \<not> valid_command_semantics c then writer_fail E_invalid_value w
      else bind_res (put_u64 (sid_high (cmd_session c)) w) (\<lambda>w.
           bind_res (put_u64 (sid_low (cmd_session c)) w) (\<lambda>w.
           bind_res (put_u64 (cmd_sequence c) w) (\<lambda>w.
           bind_res (put_u8 (command_kind_byte (cmd_kind c)) w) (\<lambda>w.
           bind_res (put_string (lim_max_key_bytes limits) (cmd_key c) w) (\<lambda>w.
           put_string (lim_max_value_bytes limits) (cmd_value c) w))))))"

definition read_command_payload :: "Limits \<Rightarrow> Reader \<Rightarrow> (ClientCommand \<times> Reader) Result" where
  "read_command_payload limits r =
     bind_res (get_u64 r) (\<lambda>(high, r).
     bind_res (get_u64 r) (\<lambda>(low, r).
     bind_res (get_u64 r) (\<lambda>(sequence, r).
     bind_res (get_u8 r) (\<lambda>(kind, r).
     case command_kind_of_byte kind of
       None \<Rightarrow> reader_fail E_invalid_enum r
     | Some k \<Rightarrow>
         bind_res (get_string (lim_max_key_bytes limits) r) (\<lambda>(key, r).
         bind_res (get_string (lim_max_value_bytes limits) r) (\<lambda>(val, r).
         let c = \<lparr>cmd_session = SessionId high low, cmd_sequence = sequence, cmd_kind = k,
                  cmd_key = key, cmd_value = val\<rparr> in
         if \<not> valid_command_semantics c then reader_fail E_invalid_value r else Inr (c, r)))))))"

definition write_entry_payload :: "Limits \<Rightarrow> LogEntry \<Rightarrow> Writer \<Rightarrow> Writer Result" where
  "write_entry_payload limits e w =
     (if ent_index e = 0 \<or> ent_term e = 0 then writer_fail E_invalid_value w
      else bind_res (put_u64 (ent_index e) w) (\<lambda>w.
           bind_res (put_u64 (ent_term e) w) (\<lambda>w.
           bind_res (put_bool (ent_command e \<noteq> None) w) (\<lambda>w.
           case ent_command e of None \<Rightarrow> Inr w | Some c \<Rightarrow> write_command_payload limits c w))))"

definition read_entry_payload :: "Limits \<Rightarrow> Reader \<Rightarrow> (LogEntry \<times> Reader) Result" where
  "read_entry_payload limits r =
     bind_res (get_u64 r) (\<lambda>(index, r).
     bind_res (get_u64 r) (\<lambda>(term, r).
     bind_res (get_bool r) (\<lambda>(has_command, r).
     if index = 0 \<or> term = 0 then reader_fail E_invalid_value r
     else if has_command then
       bind_res (read_command_payload limits r) (\<lambda>(c, r).
       Inr (\<lparr>ent_index = index, ent_term = term, ent_command = Some c\<rparr>, r))
     else Inr (\<lparr>ent_index = index, ent_term = term, ent_command = None\<rparr>, r))))"

text \<open>
  Entry indices follow \<open>prev_log_index\<close> one by one; an entry at the largest index must be the last.
\<close>

fun consecutive_from :: "LogIndex \<Rightarrow> LogEntry list \<Rightarrow> bool" where
  "consecutive_from expected [] = True"
| "consecutive_from expected (e # es) =
     (if ent_index e \<noteq> expected then False
      else if expected \<noteq> - 1 then consecutive_from (expected + 1) es
      else if es \<noteq> [] then False
      else True)"

definition consecutive_entries :: "AppendEntries \<Rightarrow> bool" where
  "consecutive_entries a =
     (if ae_entries a = [] then True
      else if ae_prev_log_index a = - 1 then False
      else consecutive_from (ae_prev_log_index a + 1) (ae_entries a))"

section \<open>Frames\<close>

definition payload_limit :: "Limits \<Rightarrow> nat" where
  "payload_limit limits =
     (if lim_max_frame_bytes limits < kHeaderBytes then 0
      else min (lim_max_frame_bytes limits - kHeaderBytes) 4294967295)"

definition frame :: "WireType \<Rightarrow> Writer Result \<Rightarrow> Limits \<Rightarrow> bytes Result" where
  "frame t payload limits =
     (case payload of
        Inl (e, off) \<Rightarrow> Inl (e, kHeaderBytes + off)
      | Inr p \<Rightarrow>
          if lim_max_frame_bytes limits < kHeaderBytes \<or> length (wr_bytes p) > payload_limit limits
          then Inl (E_limit_exceeded, 0)
          else bind_res (put_each kMagic (new_writer (lim_max_frame_bytes limits))) (\<lambda>w.
               bind_res (put_u8 kVersion w) (\<lambda>w.
               bind_res (put_u8 (wire_type_byte t) w) (\<lambda>w.
               bind_res (put_u16 0 w) (\<lambda>w.
               bind_res (put_u32 (of_nat (length (wr_bytes p))) w) (\<lambda>w.
               bind_res (put_bytes (wr_bytes p) w) (\<lambda>w. Inr (wr_bytes w))))))))"

record ParsedFrame =
  pf_type :: WireType
  pf_payload :: bytes

fun check_magic :: "bytes \<Rightarrow> Reader \<Rightarrow> Reader Result" where
  "check_magic [] r = Inr r"
| "check_magic (expected # es) r =
     bind_res (get_u8 r) (\<lambda>(actual, r).
     if actual \<noteq> expected then Inl (E_bad_magic, absolute_position r - 1) else check_magic es r)"

definition parse_frame :: "bytes \<Rightarrow> Limits \<Rightarrow> ParsedFrame Result" where
  "parse_frame bs limits =
     (if length bs > lim_max_frame_bytes limits then Inl (E_limit_exceeded, 0)
      else bind_res (check_magic kMagic (new_reader bs 0)) (\<lambda>r.
           bind_res (get_u8 r) (\<lambda>(version, r).
           bind_res (get_u8 r) (\<lambda>(raw_type, r).
           bind_res (get_u16 r) (\<lambda>(reserved, r).
           bind_res (get_u32 r) (\<lambda>(len, r).
           if version \<noteq> kVersion then Inl (E_unsupported_version, 4)
           else (case known_wire_type raw_type of
               None \<Rightarrow> Inl (E_unknown_type, 5)
             | Some t \<Rightarrow>
                 if reserved \<noteq> 0 then Inl (E_nonzero_reserved, 6)
                 else if unat len > payload_limit limits then Inl (E_limit_exceeded, 8)
                 else if unat len > remaining r then Inl (E_truncated, kHeaderBytes)
                 else if unat len < remaining r then Inl (E_trailing_bytes, kHeaderBytes + unat len)
                 else Inr \<lparr>pf_type = t, pf_payload = take (unat len) (drop kHeaderBytes bs)\<rparr>)))))))"

definition decode_exact :: "ParsedFrame \<Rightarrow> (Reader \<Rightarrow> ('a \<times> Reader) Result) \<Rightarrow> 'a Result" where
  "decode_exact p decode =
     bind_res (decode (new_reader (pf_payload p) kHeaderBytes)) (\<lambda>(v, r).
     if \<not> at_end r then Inl (E_trailing_bytes, absolute_position r) else Inr v)"

section \<open>Commands and log entries\<close>

definition encode_command :: "ClientCommand \<Rightarrow> Limits \<Rightarrow> bytes Result" where
  "encode_command c limits =
     frame WT_command (write_command_payload limits c (new_writer (payload_limit limits))) limits"

definition decode_command :: "bytes \<Rightarrow> Limits \<Rightarrow> ClientCommand Result" where
  "decode_command bs limits =
     bind_res (parse_frame bs limits) (\<lambda>p.
     if pf_type p \<noteq> WT_command then Inl (E_unexpected_type, 5)
     else decode_exact p (read_command_payload limits))"

definition encode_log_entry :: "LogEntry \<Rightarrow> Limits \<Rightarrow> bytes Result" where
  "encode_log_entry e limits =
     frame WT_log_entry (write_entry_payload limits e (new_writer (payload_limit limits))) limits"

definition decode_log_entry :: "bytes \<Rightarrow> Limits \<Rightarrow> LogEntry Result" where
  "decode_log_entry bs limits =
     bind_res (parse_frame bs limits) (\<lambda>p.
     if pf_type p \<noteq> WT_log_entry then Inl (E_unexpected_type, 5)
     else decode_exact p (read_entry_payload limits))"

section \<open>Messages\<close>

definition write_request_vote :: "RequestVote \<Rightarrow> Writer \<Rightarrow> Writer Result" where
  "write_request_vote v w =
     (if rv_term v = 0 \<or> rv_candidate_id v = 0 \<or> \<not> valid_log_pointer (rv_last_log_index v) (rv_last_log_term v)
      then writer_fail E_invalid_value w
      else bind_res (put_u64 (rv_term v) w) (\<lambda>w.
           bind_res (put_u32 (rv_candidate_id v) w) (\<lambda>w.
           bind_res (put_u64 (rv_last_log_index v) w) (\<lambda>w.
           put_u64 (rv_last_log_term v) w))))"

definition write_request_vote_response :: "RequestVoteResponse \<Rightarrow> Writer \<Rightarrow> Writer Result" where
  "write_request_vote_response v w =
     (if rvr_term v = 0 then writer_fail E_invalid_value w
      else bind_res (put_u64 (rvr_term v) w) (\<lambda>w. put_bool (rvr_vote_granted v) w))"

fun write_entries :: "Limits \<Rightarrow> LogEntry list \<Rightarrow> Writer \<Rightarrow> Writer Result" where
  "write_entries limits [] w = Inr w"
| "write_entries limits (e # es) w = bind_res (write_entry_payload limits e w) (write_entries limits es)"

definition write_append_entries :: "Limits \<Rightarrow> AppendEntries \<Rightarrow> Writer \<Rightarrow> Writer Result" where
  "write_append_entries limits v w =
     (if ae_term v = 0 \<or> ae_leader_id v = 0 \<or> ae_rpc_id v = 0 \<or>
         \<not> valid_log_pointer (ae_prev_log_index v) (ae_prev_log_term v)
      then writer_fail E_invalid_value w
      else if length (ae_entries v) > lim_max_entries_per_append limits \<or> length (ae_entries v) > 4294967295
      then writer_fail E_limit_exceeded w
      else if \<not> consecutive_entries v then writer_fail E_invalid_value w
      else bind_res (put_u64 (ae_term v) w) (\<lambda>w.
           bind_res (put_u32 (ae_leader_id v) w) (\<lambda>w.
           bind_res (put_u64 (ae_rpc_id v) w) (\<lambda>w.
           bind_res (put_u64 (ae_prev_log_index v) w) (\<lambda>w.
           bind_res (put_u64 (ae_prev_log_term v) w) (\<lambda>w.
           bind_res (put_u32 (of_nat (length (ae_entries v))) w) (\<lambda>w.
           bind_res (write_entries limits (ae_entries v) w) (\<lambda>w.
           put_u64 (ae_leader_commit v) w))))))))"

definition write_append_entries_response :: "AppendEntriesResponse \<Rightarrow> Writer \<Rightarrow> Writer Result" where
  "write_append_entries_response v w =
     (if aer_term v = 0 \<or> aer_rpc_id v = 0 then writer_fail E_invalid_value w
      else bind_res (put_u64 (aer_term v) w) (\<lambda>w.
           bind_res (put_u64 (aer_rpc_id v) w) (\<lambda>w.
           bind_res (put_bool (aer_success v) w) (\<lambda>w.
           bind_res (put_u64 (aer_match_index v) w) (\<lambda>w.
           bind_res (put_u64 (aer_conflict_index v) w) (\<lambda>w.
           put_u64 (aer_conflict_term v) w))))))"

definition encode_message :: "Message \<Rightarrow> Limits \<Rightarrow> bytes Result" where
  "encode_message m limits =
     (let payload = new_writer (payload_limit limits) in
      case m of
        MRequestVote v \<Rightarrow> frame WT_request_vote (write_request_vote v payload) limits
      | MRequestVoteResponse v \<Rightarrow> frame WT_request_vote_response (write_request_vote_response v payload) limits
      | MAppendEntries v \<Rightarrow> frame WT_append_entries (write_append_entries limits v payload) limits
      | MAppendEntriesResponse v \<Rightarrow>
          frame WT_append_entries_response (write_append_entries_response v payload) limits)"

definition read_request_vote :: "Reader \<Rightarrow> (RequestVote \<times> Reader) Result" where
  "read_request_vote r =
     bind_res (get_u64 r) (\<lambda>(term, r).
     bind_res (get_u32 r) (\<lambda>(cand, r).
     bind_res (get_u64 r) (\<lambda>(index, r).
     bind_res (get_u64 r) (\<lambda>(lterm, r).
     Inr (\<lparr>rv_term = term, rv_candidate_id = cand, rv_last_log_index = index, rv_last_log_term = lterm\<rparr>, r)))))"

definition read_request_vote_response :: "Reader \<Rightarrow> (RequestVoteResponse \<times> Reader) Result" where
  "read_request_vote_response r =
     bind_res (get_u64 r) (\<lambda>(term, r).
     bind_res (get_bool r) (\<lambda>(granted, r).
     Inr (\<lparr>rvr_term = term, rvr_vote_granted = granted\<rparr>, r)))"

fun read_entries :: "Limits \<Rightarrow> nat \<Rightarrow> Reader \<Rightarrow> (LogEntry list \<times> Reader) Result" where
  "read_entries limits 0 r = Inr ([], r)"
| "read_entries limits (Suc n) r =
     bind_res (read_entry_payload limits r) (\<lambda>(e, r).
     bind_res (read_entries limits n r) (\<lambda>(es, r). Inr (e # es, r)))"

definition read_append_entries :: "Limits \<Rightarrow> Reader \<Rightarrow> (AppendEntries \<times> Reader) Result" where
  "read_append_entries limits r =
     bind_res (get_u64 r) (\<lambda>(term, r).
     bind_res (get_u32 r) (\<lambda>(leader, r).
     bind_res (get_u64 r) (\<lambda>(rpc, r).
     bind_res (get_u64 r) (\<lambda>(prev_index, r).
     bind_res (get_u64 r) (\<lambda>(prev_term, r).
     bind_res (get_u32 r) (\<lambda>(count, r).
     if term = 0 \<or> leader = 0 \<or> rpc = 0 \<or> \<not> valid_log_pointer prev_index prev_term
     then reader_fail E_invalid_value r
     else if unat count > lim_max_entries_per_append limits then reader_fail E_limit_exceeded r
     else if remaining r < 8 \<or> unat count > (remaining r - 8) div kMinimumEntryPayloadBytes
     then reader_fail E_truncated r
     else
       bind_res (read_entries limits (unat count) r) (\<lambda>(es, r).
       bind_res (get_u64 r) (\<lambda>(leader_commit, r).
       let v = \<lparr>ae_term = term, ae_leader_id = leader, ae_rpc_id = rpc, ae_prev_log_index = prev_index,
                ae_prev_log_term = prev_term, ae_entries = es, ae_leader_commit = leader_commit\<rparr> in
       if \<not> consecutive_entries v then reader_fail E_invalid_value r else Inr (v, r)))))))))"

definition read_append_entries_response :: "Reader \<Rightarrow> (AppendEntriesResponse \<times> Reader) Result" where
  "read_append_entries_response r =
     bind_res (get_u64 r) (\<lambda>(term, r).
     bind_res (get_u64 r) (\<lambda>(rpc, r).
     bind_res (get_bool r) (\<lambda>(succ, r).
     bind_res (get_u64 r) (\<lambda>(mi, r).
     bind_res (get_u64 r) (\<lambda>(ci, r).
     bind_res (get_u64 r) (\<lambda>(ct, r).
     Inr (\<lparr>aer_term = term, aer_rpc_id = rpc, aer_success = succ, aer_match_index = mi,
           aer_conflict_index = ci, aer_conflict_term = ct\<rparr>, r)))))))"

definition decode_message :: "bytes \<Rightarrow> Limits \<Rightarrow> Message Result" where
  "decode_message bs limits =
     bind_res (parse_frame bs limits) (\<lambda>p.
     case pf_type p of
       WT_request_vote \<Rightarrow>
         bind_res (decode_exact p read_request_vote) (\<lambda>v.
         if rv_term v = 0 \<or> rv_candidate_id v = 0 \<or>
            \<not> valid_log_pointer (rv_last_log_index v) (rv_last_log_term v)
         then Inl (E_invalid_value, kHeaderBytes) else Inr (MRequestVote v))
     | WT_request_vote_response \<Rightarrow>
         bind_res (decode_exact p read_request_vote_response) (\<lambda>v.
         if rvr_term v = 0 then Inl (E_invalid_value, kHeaderBytes) else Inr (MRequestVoteResponse v))
     | WT_append_entries \<Rightarrow>
         bind_res (decode_exact p (read_append_entries limits)) (\<lambda>v. Inr (MAppendEntries v))
     | WT_append_entries_response \<Rightarrow>
         bind_res (decode_exact p read_append_entries_response) (\<lambda>v.
         if aer_term v = 0 \<or> aer_rpc_id v = 0
         then Inl (E_invalid_value, kHeaderBytes) else Inr (MAppendEntriesResponse v))
     | WT_command \<Rightarrow> Inl (E_unexpected_type, 5)
     | WT_log_entry \<Rightarrow> Inl (E_unexpected_type, 5))"

end
