(* ===== verification/CodecLaws.thy ===== *)
theory CodecLaws
  imports Codec
begin

text \<open>
  The contract between the writers and the readers of the codec, as a locale: a field has a byte
  image; writing it appends the image or exceeds the limit, reading the image gives the value
  back and consumes exactly it, and whatever a reader accepts is the image of a legal value.
  Every field of the format is an instance, from single integers to the four messages.
\<close>

section \<open>The contract\<close>

definition rd_rest :: "Reader \<Rightarrow> bytes" where
  "rd_rest r = drop (rd_position r) (rd_bytes r)"

definition rd_skip :: "nat \<Rightarrow> Reader \<Rightarrow> Reader" where
  "rd_skip n r = r\<lparr>rd_position := rd_position r + n\<rparr>"

definition wr_append :: "bytes \<Rightarrow> Writer \<Rightarrow> Writer" where
  "wr_append bs w = w\<lparr>wr_bytes := wr_bytes w @ bs\<rparr>"

definition wr_fits :: "nat \<Rightarrow> Writer \<Rightarrow> bool" where
  "wr_fits n w \<longleftrightarrow> length (wr_bytes w) + n \<le> wr_limit w"

text \<open>The reader \<open>r'\<close> is \<open>r\<close> after exactly the bytes \<open>bs\<close>.\<close>

definition consumed :: "Reader \<Rightarrow> bytes \<Rightarrow> Reader \<Rightarrow> bool" where
  "consumed r bs r' \<longleftrightarrow> r' = rd_skip (length bs) r \<and> take (length bs) (rd_rest r) = bs"

locale wire_field =
  fixes put :: "'a \<Rightarrow> Writer \<Rightarrow> Writer Result"
    and get :: "Reader \<Rightarrow> ('a \<times> Reader) Result"
    and enc :: "'a \<Rightarrow> bytes"
    and legal :: "'a \<Rightarrow> bool"
  assumes put_iff: "put x w = Inr w' \<longleftrightarrow> legal x \<and> wr_fits (length (enc x)) w \<and> w' = wr_append (enc x) w"
    and get_iff: "get r = Inr (x, r') \<longleftrightarrow> legal x \<and> consumed r (enc x) r'"
begin

text \<open>The images are a prefix code: no image continues another.\<close>

lemma prefix_code:
  assumes "legal x" and "legal y" and "enc x @ a = enc y @ b"
  shows "x = y"
proof -
  let ?r = "\<lparr>rd_bytes = enc x @ a, rd_base = 0, rd_position = 0\<rparr>"
  have "get ?r = Inr (x, rd_skip (length (enc x)) ?r)"
    using assms(1) by (simp add: get_iff consumed_def rd_rest_def)
  moreover have "get ?r = Inr (y, rd_skip (length (enc y)) ?r)"
    using assms(2) by (simp add: get_iff consumed_def rd_rest_def assms(3))
  ultimately show ?thesis by simp
qed

text \<open>A reader that sees only part of an image fails.\<close>

lemma truncated_fails:
  assumes "legal x" and "rd_rest r = take n (enc x)" and "n < length (enc x)"
  shows "\<exists>e. get r = Inl e"
proof (cases "get r")
  case (Inr p)
  then obtain y r' where p: "get r = Inr (y, r')" by (cases p) auto
  then have s: "legal y" "take (length (enc y)) (rd_rest r) = enc y"
    by (simp_all add: get_iff consumed_def)
  then have "rd_rest r = enc y @ drop (length (enc y)) (rd_rest r)" by (metis append_take_drop_id)
  then have "enc y @ (drop (length (enc y)) (rd_rest r) @ drop n (enc x)) = enc x @ []"
    using assms(2) by (metis append.assoc append_Nil2 append_take_drop_id)
  then have "y = x" using prefix_code s assms(1) by blast
  with s have "length (enc x) \<le> length (rd_rest r)" by (metis length_take min.absorb_iff2 min.commute)
  with assms show ?thesis by simp
qed simp

end

section \<open>Readers and writers\<close>

lemma rd_rest_skip [simp]: "rd_rest (rd_skip n r) = drop n (rd_rest r)"
  by (simp add: rd_rest_def rd_skip_def add.commute)

lemma rd_skip_skip [simp]: "rd_skip a (rd_skip b r) = rd_skip (b + a) r"
  by (simp add: rd_skip_def add.assoc)

lemma rd_skip_0 [simp]: "rd_skip 0 r = r"
  by (simp add: rd_skip_def)

lemma wr_append_append [simp]: "wr_append b (wr_append a w) = wr_append (a @ b) w"
  by (simp add: wr_append_def)

lemma wr_append_Nil [simp]: "wr_append [] w = w"
  by (simp add: wr_append_def)

lemma wr_fits_append [simp]: "wr_fits n (wr_append a w) \<longleftrightarrow> wr_fits (length a + n) w"
  by (simp add: wr_fits_def wr_append_def add.assoc)

lemma wr_fits_mono: "wr_fits (a + b) w \<Longrightarrow> wr_fits a w"
  by (simp add: wr_fits_def)

lemma remaining_rest: "remaining r = length (rd_rest r)"
  by (simp add: remaining_def rd_rest_def)

lemma put_u8_iff: "put_u8 v w = Inr w' \<longleftrightarrow> wr_fits 1 w \<and> w' = wr_append [v] w"
  by (auto simp: put_u8_def ensure_def wr_fits_def wr_append_def writer_fail_def)

lemma put_each_iff: "put_each bs w = Inr w' \<longleftrightarrow> wr_fits (length bs) w \<and> w' = wr_append bs w \<or> bs = [] \<and> w' = w"
proof (induction bs arbitrary: w)
  case (Cons b bs)
  show ?case
    by (cases "bs = []") (auto simp: bind_res_eq_Inr put_u8_iff Cons.IH dest: wr_fits_mono [of 1, simplified])
qed auto

lemma put_bytes_iff: "put_bytes bs w = Inr w' \<longleftrightarrow> wr_fits (length bs) w \<and> w' = wr_append bs w"
  by (auto simp: put_bytes_def ensure_def wr_fits_def wr_append_def writer_fail_def)

lemma be_enc_u16: "map (\<lambda>shift. ucast (drop_bit shift v)) [8, 0] = be_enc 2 (v :: u16)"
  by (simp add: be_enc_def numeral_eq_Suc drop_bit_drop_bit)

lemma be_enc_u32: "map (\<lambda>shift. ucast (drop_bit shift v)) [24, 16, 8, 0] = be_enc 4 (v :: u32)"
  by (simp add: be_enc_def numeral_eq_Suc drop_bit_drop_bit)

lemma be_enc_u64: "map (\<lambda>shift. ucast (drop_bit shift v)) [56, 48, 40, 32, 24, 16, 8, 0] = be_enc 8 (v :: u64)"
  by (simp add: be_enc_def numeral_eq_Suc drop_bit_drop_bit)

lemma get_u8_rest: "get_u8 r = (case rd_rest r of [] \<Rightarrow> reader_fail E_truncated r | b # _ \<Rightarrow> Inr (b, rd_skip 1 r))"
  by (auto simp: get_u8_def remaining_rest rd_skip_def rd_rest_def hd_drop_conv_nth split: list.splits)
     (metis Cons_nth_drop_Suc list.inject not_less drop_all neq_Nil_conv list.distinct(1))

lemma get_loop_rest:
  "n \<le> length (rd_rest r) \<Longrightarrow>
   get_loop n v r = Inr (foldl (\<lambda>v b. push_bit 8 v OR ucast b) v (take n (rd_rest r)), rd_skip n r)"
proof (induction n arbitrary: v r)
  case (Suc n)
  then obtain b bs where r: "rd_rest r = b # bs" by (cases "rd_rest r") auto
  then have "rd_rest (rd_skip 1 r) = bs" by simp
  with Suc r show ?case by (simp add: get_u8_rest)
qed simp

lemma get_loop_truncated:
  "length (rd_rest r) < n \<Longrightarrow> get_loop n v r = reader_fail E_truncated (rd_skip (length (rd_rest r)) r)"
proof (induction n arbitrary: v r)
  case (Suc n)
  show ?case
  proof (cases "rd_rest r")
    case (Cons b bs)
    then have "rd_rest (rd_skip 1 r) = bs" by simp
    with Suc Cons show ?thesis by (simp add: get_u8_rest reader_fail_def absolute_position_def)
  qed (simp add: get_u8_rest reader_fail_def absolute_position_def)
qed simp

lemma get_loop_be:
  "get_loop n 0 r = (if n \<le> length (rd_rest r) then Inr (be_dec (take n (rd_rest r)), rd_skip n r)
     else reader_fail E_truncated (rd_skip (length (rd_rest r)) r))"
  by (simp add: get_loop_rest get_loop_truncated be_dec_def)

lemma take_append_iff:
  "take (length a + length b) xs = a @ b \<longleftrightarrow> take (length a) xs = a \<and> take (length b) (drop (length a) xs) = b"
proof
  assume eq: "take (length a + length b) xs = a @ b"
  have "take (length a) (take (length a + length b) xs) = a" "drop (length a) (take (length a + length b) xs) = b"
    unfolding eq by simp_all
  then show "take (length a) xs = a \<and> take (length b) (drop (length a) xs) = b" by (simp add: drop_take)
qed (simp add: take_add)

lemma consumed_append: "consumed r (a @ b) r' \<longleftrightarrow> (\<exists>r1. consumed r a r1 \<and> consumed r1 b r')"
  by (auto simp: consumed_def take_append_iff)

lemma consumed_Nil [simp]: "consumed r [] r' \<longleftrightarrow> r' = r"
  by (auto simp: consumed_def)

section \<open>Integers, flags, strings\<close>

interpretation f_u8: wire_field put_u8 get_u8 "\<lambda>v. [v]" "\<lambda>_. True"
  by unfold_locales (auto simp: put_u8_iff get_u8_rest reader_fail_def consumed_def split: list.splits)

lemma int_field:
  assumes "0 < n" and "LENGTH('a) = 8 * n" and "\<And>v w. put v w = put_each (be_enc n v) w"
    and "\<And>r. get r = get_loop n 0 r"
  shows "wire_field put get (be_enc n :: 'a::len word \<Rightarrow> bytes) (\<lambda>_. True)"
proof
  show "put x w = Inr w' \<longleftrightarrow> True \<and> wr_fits (length (be_enc n x)) w \<and> w' = wr_append (be_enc n x) w" for x w w'
    using assms(1) by (auto simp: assms(3) put_each_iff dest: arg_cong [of _ "[]" length])
  show "get r = Inr (x, r') \<longleftrightarrow> True \<and> consumed r (be_enc n x) r'" for r x r'
  proof
    assume "get r = Inr (x, r')"
    then show "True \<and> consumed r (be_enc n x) r'"
      using assms(2) by (auto simp: assms(4) get_loop_be be_enc_dec reader_fail_def consumed_def split: if_splits)
  next
    assume c: "True \<and> consumed r (be_enc n x) r'"
    then have eq: "take n (rd_rest r) = be_enc n x" by (simp add: consumed_def)
    have "n \<le> length (rd_rest r)" using arg_cong [OF eq, of length] by simp
    with c eq assms(2) show "get r = Inr (x, r')" by (simp add: assms(4) get_loop_be be_dec_enc consumed_def)
  qed
qed

interpretation f_u16: wire_field put_u16 get_u16 "be_enc 2" "\<lambda>_. True"
  by (rule int_field) (simp_all only: put_u16_def get_u16_def be_enc_u16, simp_all)

interpretation f_u32: wire_field put_u32 get_u32 "be_enc 4" "\<lambda>_. True"
  by (rule int_field) (simp_all only: put_u32_def get_u32_def be_enc_u32, simp_all)

interpretation f_u64: wire_field put_u64 get_u64 "be_enc 8" "\<lambda>_. True"
  by (rule int_field) (simp_all only: put_u64_def get_u64_def be_enc_u64, simp_all)

definition enc_bool :: "bool \<Rightarrow> bytes" where
  "enc_bool b = [if b then 1 else 0]"

lemma flag_byte: "(raw :: u8) \<le> 1 \<longleftrightarrow> raw = 0 \<or> raw = 1"
  by (auto simp: word_le_nat_alt le_Suc_eq word_unat_eq_iff)

interpretation f_bool: wire_field put_bool get_bool enc_bool "\<lambda>_. True"
proof
  show "get_bool r = Inr (x, r') \<longleftrightarrow> True \<and> consumed r (enc_bool x) r'" for r x r'
  proof -
    have "get_bool r = Inr (x, r') \<longleftrightarrow> (\<exists>raw. consumed r [raw] r' \<and> raw \<le> 1 \<and> x = (raw = 1))"
      by (auto simp: get_bool_def bind_res_eq_Inr f_u8.get_iff reader_fail_def not_less split: if_splits)
    then show ?thesis by (cases x) (auto simp: flag_byte enc_bool_def)
  qed
qed (auto simp: put_bool_def put_u8_iff enc_bool_def)

definition enc_string :: "bytes \<Rightarrow> bytes" where
  "enc_string v = be_enc 4 (of_nat (length v) :: u32) @ v"

definition legal_string :: "nat \<Rightarrow> bytes \<Rightarrow> bool" where
  "legal_string limit v \<longleftrightarrow> length v \<le> limit \<and> length v \<le> 4294967295"

interpretation f_string: wire_field "put_string limit" "get_string limit" enc_string "legal_string limit" for limit
proof
  show "put_string limit x w = Inr w' \<longleftrightarrow> legal_string limit x \<and> wr_fits (length (enc_string x)) w \<and>
      w' = wr_append (enc_string x) w" for x w w'
    by (auto simp: put_string_def bind_res_eq_Inr f_u32.put_iff put_bytes_iff legal_string_def enc_string_def
        writer_fail_def dest: wr_fits_mono)
  show "get_string limit r = Inr (x, r') \<longleftrightarrow> legal_string limit x \<and> consumed r (enc_string x) r'" for r x r'
  proof
    assume "get_string limit r = Inr (x, r')"
    then obtain n r1 where n: "get_u32 r = Inr (n, r1)" "unat n \<le> limit" "unat n \<le> length (rd_rest r1)"
        "x = take (unat n) (rd_rest r1)" "r' = rd_skip (unat n) r1"
      unfolding get_string_def bind_res_eq_Inr
      by (auto simp: reader_fail_def not_less remaining_rest rd_skip_def rd_rest_def [symmetric] split: if_splits)
    then have "consumed r (be_enc 4 n) r1" "length x = unat n" by (simp_all add: f_u32.get_iff)
    note n = n(2-5) this
    from n have "consumed r1 x r'" by (simp add: consumed_def)
    moreover have "unat n \<le> 4294967295" using unat_less_32 [of n] by linarith
    moreover have "of_nat (length x) = n" using n(6) by simp
    ultimately show "legal_string limit x \<and> consumed r (enc_string x) r'"
      using n by (auto simp: legal_string_def enc_string_def consumed_append)
  next
    assume a: "legal_string limit x \<and> consumed r (enc_string x) r'"
    then obtain r1 where r1: "get_u32 r = Inr (of_nat (length x), r1)" "consumed r1 x r'"
      by (auto simp: enc_string_def consumed_append f_u32.get_iff)
    then have eq: "take (length x) (rd_rest r1) = x" by (simp add: consumed_def)
    have "length x \<le> length (rd_rest r1)" using arg_cong [OF eq, of length] by simp
    with a r1 eq show "get_string limit r = Inr (x, r')"
      by (simp add: get_string_def legal_string_def remaining_rest rd_rest_def [symmetric] consumed_def rd_skip_def)
  qed
qed

section \<open>Commands and entries\<close>

lemma bind_read_iff: "bind_res m (\<lambda>(x, r). f x r) = Inr y \<longleftrightarrow> (\<exists>x r. m = Inr (x, r) \<and> f x r = Inr y)"
  by (cases m) auto

lemma option_read_iff:
  "(case opt of None \<Rightarrow> reader_fail e r | Some k \<Rightarrow> f k) = Inr y \<longleftrightarrow> (\<exists>k. opt = Some k \<and> f k = Inr y)"
  by (cases opt) (auto simp: reader_fail_def)

lemma if_read_iff: "(if b then reader_fail e r else f) = Inr y \<longleftrightarrow> \<not> b \<and> f = Inr y"
  by (auto simp: reader_fail_def)

lemmas put_laws = bind_res_eq_Inr f_u8.put_iff f_u16.put_iff f_u32.put_iff f_u64.put_iff f_bool.put_iff
  f_string.put_iff writer_fail_def
lemmas get_laws = bind_res_eq_Inr f_u8.get_iff f_u16.get_iff f_u32.get_iff f_u64.get_iff f_bool.get_iff
  f_string.get_iff reader_fail_def

lemma consumed_get:
  "consumed r [b] r' \<longleftrightarrow> get_u8 r = Inr (b, r')" "consumed r (be_enc 2 h) r' \<longleftrightarrow> get_u16 r = Inr (h, r')"
  "consumed r (be_enc 4 i) r' \<longleftrightarrow> get_u32 r = Inr (i, r')" "consumed r (be_enc 8 l) r' \<longleftrightarrow> get_u64 r = Inr (l, r')"
  "consumed r (enc_bool f) r' \<longleftrightarrow> get_bool r = Inr (f, r')"
  by (simp_all add: f_u8.get_iff f_u16.get_iff f_u32.get_iff f_u64.get_iff f_bool.get_iff)

lemma consumed_get_string:
  "legal_string limit v \<Longrightarrow> consumed r (enc_string v) r' \<longleftrightarrow> get_string limit r = Inr (v, r')"
  by (simp add: f_string.get_iff)

lemma length_enc_string [simp]: "length (enc_string v) = 4 + length v"
  by (simp add: enc_string_def)

lemma length_enc_bool [simp]: "length (enc_bool b) = 1"
  by (simp add: enc_bool_def)

definition enc_command :: "ClientCommand \<Rightarrow> bytes" where
  "enc_command c = be_enc 8 (sid_high (cmd_session c)) @ be_enc 8 (sid_low (cmd_session c)) @
     be_enc 8 (cmd_sequence c) @ [command_kind_byte (cmd_kind c)] @ enc_string (cmd_key c) @ enc_string (cmd_value c)"

definition legal_command :: "Limits \<Rightarrow> ClientCommand \<Rightarrow> bool" where
  "legal_command limits c \<longleftrightarrow> valid_command_semantics c \<and>
     legal_string (lim_max_key_bytes limits) (cmd_key c) \<and> legal_string (lim_max_value_bytes limits) (cmd_value c)"

lemma command_eta [simp]:
  "\<lparr>cmd_session = cmd_session c, cmd_sequence = cmd_sequence c, cmd_kind = cmd_kind c, cmd_key = cmd_key c,
    cmd_value = cmd_value c\<rparr> = c"
  by simp

lemma known_kind [simp]: "known_command_kind (command_kind_byte k)"
  by (simp add: known_command_kind_def)

interpretation f_command: wire_field "write_command_payload limits" "read_command_payload limits" enc_command
  "legal_command limits" for limits
proof
  show "write_command_payload limits x w = Inr w' \<longleftrightarrow> legal_command limits x \<and> wr_fits (length (enc_command x)) w \<and>
      w' = wr_append (enc_command x) w" for x w w'
    by (auto simp: write_command_payload_def put_laws legal_command_def enc_command_def split: if_splits)
      (simp_all add: wr_fits_def)
  show "read_command_payload limits r = Inr (x, r') \<longleftrightarrow> legal_command limits x \<and> consumed r (enc_command x) r'" for r x r'
    unfolding read_command_payload_def Let_def bind_read_iff option_read_iff if_read_iff legal_command_def
      enc_command_def consumed_append f_u64.get_iff f_u8.get_iff f_string.get_iff
    by (cases x; cases "cmd_session x") (auto dest!: command_kind_of_byte_Some, (blast intro: command_kind_byte_inverse)+)
qed

definition enc_entry :: "LogEntry \<Rightarrow> bytes" where
  "enc_entry e = be_enc 8 (ent_index e) @ be_enc 8 (ent_term e) @ enc_bool (ent_command e \<noteq> None) @
     (case ent_command e of None \<Rightarrow> [] | Some c \<Rightarrow> enc_command c)"

definition legal_entry :: "Limits \<Rightarrow> LogEntry \<Rightarrow> bool" where
  "legal_entry limits e \<longleftrightarrow> ent_index e \<noteq> 0 \<and> ent_term e \<noteq> 0 \<and>
     (case ent_command e of None \<Rightarrow> True | Some c \<Rightarrow> legal_command limits c)"

interpretation f_entry: wire_field "write_entry_payload limits" "read_entry_payload limits" enc_entry
  "legal_entry limits" for limits
proof
  show "write_entry_payload limits x w = Inr w' \<longleftrightarrow> legal_entry limits x \<and> wr_fits (length (enc_entry x)) w \<and>
      w' = wr_append (enc_entry x) w" for x w w'
    by (cases "ent_command x")
      (auto simp: write_entry_payload_def put_laws f_command.put_iff legal_entry_def enc_entry_def wr_fits_def
        wr_append_def split: if_splits)
  show "read_entry_payload limits r = Inr (x, r') \<longleftrightarrow> legal_entry limits x \<and> consumed r (enc_entry x) r'" for r x r'
  proof (cases "ent_command x")
    case None
    then show ?thesis
      unfolding read_entry_payload_def bind_read_iff if_read_iff legal_entry_def enc_entry_def consumed_append
        f_u64.get_iff f_bool.get_iff
      by (cases x) (auto simp: bind_read_iff split: if_splits; blast)
  next
    case (Some c)
    then show ?thesis
      unfolding read_entry_payload_def bind_read_iff if_read_iff legal_entry_def enc_entry_def consumed_append
        f_u64.get_iff f_bool.get_iff
      by (cases x) (auto simp: bind_read_iff f_command.get_iff split: if_splits; blast)
  qed
qed

text \<open>Runs of entries.\<close>

definition enc_entries :: "LogEntry list \<Rightarrow> bytes" where
  "enc_entries es = concat (map enc_entry es)"

lemma write_entries_iff:
  "wr_fits 0 w \<Longrightarrow> write_entries limits es w = Inr w' \<longleftrightarrow> list_all (legal_entry limits) es \<and>
     wr_fits (length (enc_entries es)) w \<and> w' = wr_append (enc_entries es) w"
proof (induction es arbitrary: w)
  case (Cons e es)
  have "write_entries limits (e # es) w = Inr w' \<longleftrightarrow> legal_entry limits e \<and> wr_fits (length (enc_entry e)) w \<and>
      write_entries limits es (wr_append (enc_entry e) w) = Inr w'"
    by (auto simp: bind_res_eq_Inr f_entry.put_iff)
  also have "\<dots> \<longleftrightarrow> list_all (legal_entry limits) (e # es) \<and> wr_fits (length (enc_entries (e # es))) w \<and>
      w' = wr_append (enc_entries (e # es)) w"
    using Cons.IH [of "wr_append (enc_entry e) w"]
    by (auto simp: enc_entries_def dest: wr_fits_mono)
  finally show ?case .
qed (auto simp: enc_entries_def)

lemma read_entries_iff:
  "read_entries limits n r = Inr (es, r') \<longleftrightarrow> length es = n \<and> list_all (legal_entry limits) es \<and>
     consumed r (enc_entries es) r'"
proof (induction n arbitrary: r es r')
  case (Suc n)
  have "read_entries limits (Suc n) r = Inr (es, r') \<longleftrightarrow> (\<exists>e r1 fs. legal_entry limits e \<and> consumed r (enc_entry e) r1 \<and>
      length fs = n \<and> list_all (legal_entry limits) fs \<and> consumed r1 (enc_entries fs) r' \<and> es = e # fs)"
    by (simp only: read_entries.simps bind_read_iff f_entry.get_iff Suc.IH) auto
  also have "\<dots> \<longleftrightarrow> length es = Suc n \<and> list_all (legal_entry limits) es \<and> consumed r (enc_entries es) r'"
    by (cases es) (auto simp: enc_entries_def consumed_append)
  finally show ?case .
qed (auto simp: enc_entries_def)

lemma length_enc_entry: "17 \<le> length (enc_entry e)"
  by (simp add: enc_entry_def)

lemma length_enc_entries: "17 * length es \<le> length (enc_entries es)"
proof (induction es)
  case (Cons e es)
  then show ?case using length_enc_entry [of e] by (simp add: enc_entries_def)
qed simp

section \<open>Messages\<close>

definition enc_request_vote :: "RequestVote \<Rightarrow> bytes" where
  "enc_request_vote v = be_enc 8 (rv_term v) @ be_enc 4 (rv_candidate_id v) @ be_enc 8 (rv_last_log_index v) @
     be_enc 8 (rv_last_log_term v)"

definition legal_request_vote :: "RequestVote \<Rightarrow> bool" where
  "legal_request_vote v \<longleftrightarrow> \<not> (rv_term v = 0 \<or> rv_candidate_id v = 0 \<or>
     \<not> valid_log_pointer (rv_last_log_index v) (rv_last_log_term v))"

definition enc_request_vote_response :: "RequestVoteResponse \<Rightarrow> bytes" where
  "enc_request_vote_response v = be_enc 8 (rvr_term v) @ enc_bool (rvr_vote_granted v)"

definition enc_append_entries :: "AppendEntries \<Rightarrow> bytes" where
  "enc_append_entries v = be_enc 8 (ae_term v) @ be_enc 4 (ae_leader_id v) @ be_enc 8 (ae_rpc_id v) @
     be_enc 8 (ae_prev_log_index v) @ be_enc 8 (ae_prev_log_term v) @
     be_enc 4 (of_nat (length (ae_entries v)) :: u32) @ enc_entries (ae_entries v) @ be_enc 8 (ae_leader_commit v)"

definition legal_append_entries :: "Limits \<Rightarrow> AppendEntries \<Rightarrow> bool" where
  "legal_append_entries limits v \<longleftrightarrow> \<not> (ae_term v = 0 \<or> ae_leader_id v = 0 \<or> ae_rpc_id v = 0 \<or>
     \<not> valid_log_pointer (ae_prev_log_index v) (ae_prev_log_term v)) \<and>
     length (ae_entries v) \<le> lim_max_entries_per_append limits \<and> length (ae_entries v) \<le> 4294967295 \<and>
     consecutive_entries v \<and> list_all (legal_entry limits) (ae_entries v)"

definition enc_append_entries_response :: "AppendEntriesResponse \<Rightarrow> bytes" where
  "enc_append_entries_response v = be_enc 8 (aer_term v) @ be_enc 8 (aer_rpc_id v) @ enc_bool (aer_success v) @
     be_enc 8 (aer_match_index v) @ be_enc 8 (aer_conflict_index v) @ be_enc 8 (aer_conflict_term v)"

text \<open>
  Votes and responses are validated by \<^verbatim>\<open>decode_message\<close> after the payload has been read, append
  entries while it is read; the readers below include the validation.
\<close>

definition checked :: "('a \<Rightarrow> bool) \<Rightarrow> (Reader \<Rightarrow> ('a \<times> Reader) Result) \<Rightarrow> Reader \<Rightarrow> ('a \<times> Reader) Result" where
  "checked legal get r = bind_res (get r) (\<lambda>(v, r). if legal v then Inr (v, r) else Inl (E_invalid_value, kHeaderBytes))"

lemma checked_iff: "checked legal get r = Inr (v, r') \<longleftrightarrow> legal v \<and> get r = Inr (v, r')"
  by (auto simp: checked_def bind_read_iff split: if_splits)

interpretation f_request_vote: wire_field write_request_vote "checked legal_request_vote read_request_vote"
  enc_request_vote legal_request_vote
proof
  show "write_request_vote x w = Inr w' \<longleftrightarrow> legal_request_vote x \<and> wr_fits (length (enc_request_vote x)) w \<and>
      w' = wr_append (enc_request_vote x) w" for x w w'
    by (auto simp: write_request_vote_def put_laws legal_request_vote_def enc_request_vote_def wr_fits_def wr_append_def
      split: if_splits)
  show "checked legal_request_vote read_request_vote r = Inr (x, r') \<longleftrightarrow>
      legal_request_vote x \<and> consumed r (enc_request_vote x) r'" for r x r'
    unfolding checked_iff read_request_vote_def bind_read_iff enc_request_vote_def consumed_append f_u64.get_iff f_u32.get_iff
    by (cases x) (auto; blast)
qed

interpretation f_request_vote_response: wire_field write_request_vote_response
  "checked (\<lambda>v. rvr_term v \<noteq> 0) read_request_vote_response" enc_request_vote_response "\<lambda>v. rvr_term v \<noteq> 0"
proof
  show "write_request_vote_response x w = Inr w' \<longleftrightarrow> rvr_term x \<noteq> 0 \<and>
      wr_fits (length (enc_request_vote_response x)) w \<and> w' = wr_append (enc_request_vote_response x) w" for x w w'
    by (auto simp: write_request_vote_response_def put_laws enc_request_vote_response_def wr_fits_def wr_append_def
      split: if_splits)
  show "checked (\<lambda>v. rvr_term v \<noteq> 0) read_request_vote_response r = Inr (x, r') \<longleftrightarrow>
      rvr_term x \<noteq> 0 \<and> consumed r (enc_request_vote_response x) r'" for r x r'
    unfolding checked_iff read_request_vote_response_def bind_read_iff enc_request_vote_response_def consumed_append
      f_u64.get_iff f_bool.get_iff
    by (cases x) (auto; blast)
qed

interpretation f_append_entries_response: wire_field write_append_entries_response
  "checked (\<lambda>v. \<not> (aer_term v = 0 \<or> aer_rpc_id v = 0)) read_append_entries_response" enc_append_entries_response
  "\<lambda>v. \<not> (aer_term v = 0 \<or> aer_rpc_id v = 0)"
proof
  show "write_append_entries_response x w = Inr w' \<longleftrightarrow> \<not> (aer_term x = 0 \<or> aer_rpc_id x = 0) \<and>
      wr_fits (length (enc_append_entries_response x)) w \<and> w' = wr_append (enc_append_entries_response x) w" for x w w'
    by (auto simp: write_append_entries_response_def put_laws enc_append_entries_response_def wr_fits_def wr_append_def
      split: if_splits)
  show "checked (\<lambda>v. \<not> (aer_term v = 0 \<or> aer_rpc_id v = 0)) read_append_entries_response r = Inr (x, r') \<longleftrightarrow>
      \<not> (aer_term x = 0 \<or> aer_rpc_id x = 0) \<and> consumed r (enc_append_entries_response x) r'" for r x r'
    unfolding checked_iff read_append_entries_response_def bind_read_iff enc_append_entries_response_def consumed_append
      f_u64.get_iff f_bool.get_iff
    by (cases x) (auto; blast)
qed

lemma append_entries_eta [simp]:
  "\<lparr>ae_term = ae_term v, ae_leader_id = ae_leader_id v, ae_rpc_id = ae_rpc_id v, ae_prev_log_index = ae_prev_log_index v,
    ae_prev_log_term = ae_prev_log_term v, ae_entries = ae_entries v, ae_leader_commit = ae_leader_commit v\<rparr> = v"
  by simp

lemma u32_le: "unat (w :: u32) \<le> 4294967295"
  using unat_less_32 [of w] by linarith

lemma consumed_length: "consumed r bs r' \<Longrightarrow> length bs \<le> remaining r"
  by (metis consumed_def length_take min.absorb_iff2 min.commute remaining_rest)

text \<open>The allocation bound of the reader never refuses a well-formed run of entries.\<close>

lemma entries_bound:
  assumes "consumed r (enc_entries es) r1" and "consumed r1 (be_enc 8 (c :: u64)) r2"
  shows "\<not> (remaining r < 8 \<or> length es > (remaining r - 8) div kMinimumEntryPayloadBytes)"
proof -
  have "consumed r (enc_entries es @ be_enc 8 c) r2" using assms consumed_append by blast
  from consumed_length [OF this] have "17 * length es + 8 \<le> remaining r" using length_enc_entries [of es] by simp
  then have "length es \<le> (remaining r - 8) div 17" by (simp add: less_eq_div_iff_mult_less_eq)
  with \<open>17 * length es + 8 \<le> remaining r\<close> show ?thesis by (simp add: kMinimumEntryPayloadBytes_def)
qed

interpretation f_append_entries: wire_field "write_append_entries limits" "read_append_entries limits"
  enc_append_entries "legal_append_entries limits" for limits
proof
  show "write_append_entries limits x w = Inr w' \<longleftrightarrow> legal_append_entries limits x \<and>
      wr_fits (length (enc_append_entries x)) w \<and> w' = wr_append (enc_append_entries x) w" for x w w'
  proof -
    let ?h = "be_enc 8 (ae_term x) @ be_enc 4 (ae_leader_id x) @ be_enc 8 (ae_rpc_id x) @
      be_enc 8 (ae_prev_log_index x) @ be_enc 8 (ae_prev_log_term x) @ be_enc 4 (of_nat (length (ae_entries x)) :: u32)"
    have "write_append_entries limits x w = Inr w' \<longleftrightarrow> \<not> (ae_term x = 0 \<or> ae_leader_id x = 0 \<or> ae_rpc_id x = 0 \<or>
        \<not> valid_log_pointer (ae_prev_log_index x) (ae_prev_log_term x)) \<and>
        length (ae_entries x) \<le> lim_max_entries_per_append limits \<and> length (ae_entries x) \<le> 4294967295 \<and>
        consecutive_entries x \<and> wr_fits 40 w \<and> (\<exists>u. write_entries limits (ae_entries x) (wr_append ?h w) = Inr u \<and>
        wr_fits 8 u \<and> w' = wr_append (be_enc 8 (ae_leader_commit x)) u)"
      by (auto simp: write_append_entries_def put_laws not_less split: if_splits) (simp_all add: wr_fits_def)
    moreover have "(\<exists>u. write_entries limits (ae_entries x) (wr_append ?h w) = Inr u \<and>
        wr_fits 8 u \<and> w' = wr_append (be_enc 8 (ae_leader_commit x)) u) \<longleftrightarrow> list_all (legal_entry limits) (ae_entries x) \<and>
        wr_fits (length (enc_append_entries x)) w \<and> w' = wr_append (enc_append_entries x) w" if fits: "wr_fits 40 w"
    proof -
      have "write_entries limits (ae_entries x) (wr_append ?h w) = Inr u \<longleftrightarrow>
          list_all (legal_entry limits) (ae_entries x) \<and> wr_fits (40 + length (enc_entries (ae_entries x))) w \<and>
          u = wr_append (?h @ enc_entries (ae_entries x)) w" for u
        using fits by (subst write_entries_iff) simp_all
      then show ?thesis by (auto simp: enc_append_entries_def) (simp_all add: wr_fits_def)
    qed
    moreover have "wr_fits (length (enc_append_entries x)) w \<Longrightarrow> wr_fits 40 w"
      by (simp add: enc_append_entries_def wr_fits_def)
    ultimately show ?thesis unfolding legal_append_entries_def by blast
  qed
  show "read_append_entries limits r = Inr (x, r') \<longleftrightarrow> legal_append_entries limits x \<and> consumed r (enc_append_entries x) r'" for r x r'
  proof
    assume "read_append_entries limits r = Inr (x, r')"
    then show "legal_append_entries limits x \<and> consumed r (enc_append_entries x) r'"
      unfolding read_append_entries_def Let_def bind_read_iff if_read_iff f_u64.get_iff f_u32.get_iff read_entries_iff
        legal_append_entries_def enc_append_entries_def consumed_append
      by (auto simp: not_less u32_le; blast)
  next
    assume a: "legal_append_entries limits x \<and> consumed r (enc_append_entries x) r'"
    then obtain r1 r2 r3 r4 r5 r6 r7 where g: "get_u64 r = Inr (ae_term x, r1)" "get_u32 r1 = Inr (ae_leader_id x, r2)"
        "get_u64 r2 = Inr (ae_rpc_id x, r3)" "get_u64 r3 = Inr (ae_prev_log_index x, r4)"
        "get_u64 r4 = Inr (ae_prev_log_term x, r5)" "get_u32 r5 = Inr (of_nat (length (ae_entries x)), r6)"
        and es: "consumed r6 (enc_entries (ae_entries x)) r7" and c: "consumed r7 (be_enc 8 (ae_leader_commit x)) r'"
      unfolding enc_append_entries_def consumed_append consumed_get by blast
    have "read_entries limits (length (ae_entries x)) r6 = Inr (ae_entries x, r7)"
      using a es by (simp add: read_entries_iff legal_append_entries_def)
    then show "read_append_entries limits r = Inr (x, r')"
      using a g c entries_bound [OF es c] by (simp add: read_append_entries_def legal_append_entries_def consumed_get Let_def)
  qed
qed

end
