(* ===== verification/CodecRoundTrip.thy ===== *)
theory CodecRoundTrip
  imports CodecLaws
begin

text \<open>
  Frames and the public functions of the codec: encoding and decoding are inverse to each other in
  both directions (so a value has exactly one frame), a frame cut short anywhere is reported as
  truncated, and the size of every frame is known in advance.
\<close>

section \<open>Frames\<close>

definition frame_bytes :: "WireType \<Rightarrow> bytes \<Rightarrow> bytes" where
  "frame_bytes t bs = kMagic @ [kVersion] @ [wire_type_byte t] @ be_enc 2 (0 :: u16) @
     be_enc 4 (of_nat (length bs) :: u32) @ bs"

definition frame_fits :: "Limits \<Rightarrow> nat \<Rightarrow> bool" where
  "frame_fits limits n \<longleftrightarrow> kHeaderBytes \<le> lim_max_frame_bytes limits \<and> n \<le> payload_limit limits"

lemma frame_fits_iff: "frame_fits limits n \<longleftrightarrow> kHeaderBytes + n \<le> lim_max_frame_bytes limits \<and> n \<le> 4294967295"
  by (auto simp: frame_fits_def payload_limit_def)

lemma length_frame_bytes [simp]: "length (frame_bytes t bs) = kHeaderBytes + length bs"
  by (simp add: frame_bytes_def kMagic_def kHeaderBytes_def)

lemma known_wire_type_byte [simp]: "known_wire_type (wire_type_byte t) = Some t"
  by (cases t) (simp_all add: known_wire_type_def)

lemma known_wire_type_Some: "known_wire_type b = Some t \<Longrightarrow> wire_type_byte t = b"
  by (auto simp: known_wire_type_def split: if_splits)

lemma frame_iff:
  "frame t (Inr p) limits = Inr out \<longleftrightarrow> frame_fits limits (length (wr_bytes p)) \<and> out = frame_bytes t (wr_bytes p)"
proof -
  have magic: "put_each kMagic (new_writer n) = Inr w \<longleftrightarrow> 4 \<le> n \<and> w = wr_append kMagic (new_writer n)" for n w
    using put_each_iff [of kMagic "new_writer n" w]
    by (auto simp: kMagic_def wr_fits_def new_writer_def simp del: put_each.simps)
  have fits: "wr_fits k (new_writer n) \<longleftrightarrow> k \<le> n" and bytes: "wr_bytes (wr_append b (new_writer n)) = b" for k n b
    by (simp_all add: wr_fits_def new_writer_def wr_append_def)
  show ?thesis
    by (auto simp: frame_def frame_fits_iff frame_fits_def payload_limit_def frame_bytes_def put_laws magic put_bytes_iff
        fits bytes kMagic_def kHeaderBytes_def min_def split: if_splits)
qed

lemma frame_Inl: "frame t (Inl e) limits \<noteq> Inr out"
  by (cases e) (simp add: frame_def)

lemma consumed_Cons: "consumed r (b # bs) r' \<longleftrightarrow> (\<exists>r1. consumed r [b] r1 \<and> consumed r1 bs r')"
  using consumed_append [of r "[b]" bs r'] by simp

lemma check_magic_iff: "check_magic es r = Inr r' \<longleftrightarrow> consumed r es r'"
proof (induction es arbitrary: r)
  case (Cons b bs)
  have "check_magic (b # bs) r = Inr r' \<longleftrightarrow> (\<exists>r1. get_u8 r = Inr (b, r1) \<and> check_magic bs r1 = Inr r')"
    by (auto simp: bind_read_iff split: if_splits)
  then show ?case unfolding Cons.IH consumed_Cons [of r b bs] consumed_get by blast
qed auto

text \<open>The reader at the start of a byte list, after the bytes \<open>a\<close>.\<close>

lemma consumed_new:
  "consumed (new_reader bs base) a r \<longleftrightarrow> take (length a) bs = a \<and> r = rd_skip (length a) (new_reader bs base)"
  by (auto simp: consumed_def rd_rest_def new_reader_def)

lemma parse_frame_iff:
  "parse_frame bs limits = Inr p \<longleftrightarrow>
     frame_fits limits (length (pf_payload p)) \<and> bs = frame_bytes (pf_type p) (pf_payload p)"
proof
  assume "parse_frame bs limits = Inr p"
  then obtain r1 r2 r3 r4 r5 v ty res len where big: "length bs \<le> lim_max_frame_bytes limits"
      and r: "consumed (new_reader bs 0) kMagic r1" "get_u8 r1 = Inr (v, r2)" "get_u8 r2 = Inr (ty, r3)"
        "get_u16 r3 = Inr (res, r4)" "get_u32 r4 = Inr (len, r5)"
      and v: "v = kVersion" "known_wire_type ty = Some (pf_type p)" "res = 0" "unat len \<le> payload_limit limits"
        "unat len = remaining r5" "pf_payload p = take (unat len) (drop kHeaderBytes bs)"
    unfolding parse_frame_def check_magic_iff [symmetric]
    by (auto simp: bind_res_eq_Inr not_less split: if_splits option.splits)
  from r have "consumed (new_reader bs 0) (kMagic @ [v] @ [ty] @ be_enc 2 res @ be_enc 4 len) r5"
    unfolding consumed_append consumed_get by blast
  then have hd: "take 12 bs = kMagic @ [v] @ [ty] @ be_enc 2 res @ be_enc 4 len" "r5 = rd_skip 12 (new_reader bs 0)"
    by (simp_all add: consumed_new kMagic_def)
  have len12: "12 \<le> length bs" using arg_cong [OF hd(1), of length] by (simp add: kMagic_def)
  moreover have "unat len = length bs - 12" using v(5) hd(2) by (simp add: remaining_rest rd_rest_def rd_skip_def new_reader_def)
  ultimately have pay: "pf_payload p = drop 12 bs" "length (pf_payload p) = unat len"
    using v(6) by (simp_all add: kHeaderBytes_def)
  from pay(2) have n: "of_nat (length (pf_payload p)) = len" by simp
  have "bs = take 12 bs @ drop 12 bs" by simp
  also have "\<dots> = frame_bytes (pf_type p) (pf_payload p)"
    unfolding hd(1) frame_bytes_def n using pay(1) v(1,3) known_wire_type_Some [OF v(2)] by simp
  finally show "frame_fits limits (length (pf_payload p)) \<and> bs = frame_bytes (pf_type p) (pf_payload p)"
    using big len12 v(4) pay(2) by (simp add: frame_fits_def kHeaderBytes_def)
next
  assume a: "frame_fits limits (length (pf_payload p)) \<and> bs = frame_bytes (pf_type p) (pf_payload p)"
  let ?n = "of_nat (length (pf_payload p)) :: u32" and ?r = "rd_skip 12 (new_reader bs 0)"
  have "consumed (new_reader bs 0) (kMagic @ [kVersion] @ [wire_type_byte (pf_type p)] @ be_enc 2 (0 :: u16) @ be_enc 4 ?n) ?r"
    using a by (simp add: consumed_new frame_bytes_def kMagic_def)
  then obtain r1 r2 r3 r4 where "consumed (new_reader bs 0) kMagic r1" and r: "get_u8 r1 = Inr (kVersion, r2)"
      "get_u8 r2 = Inr (wire_type_byte (pf_type p), r3)" "get_u16 r3 = Inr (0, r4)" "get_u32 r4 = Inr (?n, ?r)"
    unfolding consumed_append consumed_get by blast
  then have magic: "check_magic kMagic (new_reader bs 0) = Inr r1" by (simp only: check_magic_iff)
  have "remaining ?r = length (pf_payload p)"
    using a by (simp add: remaining_rest rd_rest_def rd_skip_def new_reader_def kHeaderBytes_def)
  moreover have "drop 12 bs = pf_payload p" using a by (simp add: frame_bytes_def kMagic_def)
  moreover have "length bs \<le> lim_max_frame_bytes limits" "length (pf_payload p) \<le> 4294967295"
    using a by (simp_all add: frame_fits_iff)
  ultimately show "parse_frame bs limits = Inr p"
    using a r magic by (simp add: parse_frame_def frame_fits_def kHeaderBytes_def)
qed

lemma whole: "take (length a) b = a \<and> length a = length b \<longleftrightarrow> b = a"
  by auto

section \<open>Fields in frames\<close>

context wire_field
begin

lemma decode_exact_iff: "decode_exact p get = Inr x \<longleftrightarrow> legal x \<and> pf_payload p = enc x"
proof -
  have "decode_exact p get = Inr x \<longleftrightarrow>
      (\<exists>r. legal x \<and> consumed (new_reader (pf_payload p) kHeaderBytes) (enc x) r \<and> at_end r)"
    unfolding decode_exact_def bind_read_iff get_iff by (auto split: if_splits)
  also have "\<dots> \<longleftrightarrow> legal x \<and> (take (length (enc x)) (pf_payload p) = enc x \<and> length (enc x) = length (pf_payload p))"
    unfolding consumed_new by (auto simp: at_end_def rd_skip_def new_reader_def)
  also have "\<dots> \<longleftrightarrow> legal x \<and> pf_payload p = enc x" unfolding whole ..
  finally show ?thesis .
qed

lemma frame_put_iff:
  "frame t (put x (new_writer (payload_limit limits))) limits = Inr out \<longleftrightarrow>
     legal x \<and> frame_fits limits (length (enc x)) \<and> out = frame_bytes t (enc x)"
proof (cases "put x (new_writer (payload_limit limits))")
  case (Inl e)
  then have "\<not> (legal x \<and> wr_fits (length (enc x)) (new_writer (payload_limit limits)))"
    using put_iff [of x "new_writer (payload_limit limits)"] by auto
  with Inl show ?thesis by (auto simp: frame_Inl frame_fits_def wr_fits_def new_writer_def)
next
  case (Inr w)
  then have "legal x" "w = wr_append (enc x) (new_writer (payload_limit limits))" by (simp_all add: put_iff)
  with Inr show ?thesis by (simp add: frame_iff wr_append_def new_writer_def)
qed

text \<open>A frame written by \<open>put\<close> is parsed and read back, and only such a frame is.\<close>

lemma frame_round_trip:
  "frame t (put x (new_writer (payload_limit limits))) limits = Inr bs \<longleftrightarrow>
     (\<exists>p. parse_frame bs limits = Inr p \<and> pf_type p = t \<and> decode_exact p get = Inr x)"
  unfolding frame_put_iff parse_frame_iff decode_exact_iff
proof
  assume "legal x \<and> frame_fits limits (length (enc x)) \<and> bs = frame_bytes t (enc x)"
  then show "\<exists>p :: ParsedFrame. (frame_fits limits (length (pf_payload p)) \<and> bs = frame_bytes (pf_type p) (pf_payload p)) \<and>
      pf_type p = t \<and> legal x \<and> pf_payload p = enc x"
    by (intro exI [of _ "\<lparr>pf_type = t, pf_payload = enc x\<rparr>"]) simp
qed auto

end

section \<open>Properties\<close>

lemma decode_exact_checked:
  "decode_exact p (checked legal get) = Inr x \<longleftrightarrow> decode_exact p get = Inr x \<and> legal x"
  by (auto simp: decode_exact_def checked_def bind_read_iff split: if_splits)

definition legal_message :: "Limits \<Rightarrow> Message \<Rightarrow> bool" where
  "legal_message limits m = (case m of
       MRequestVote v \<Rightarrow> legal_request_vote v
     | MRequestVoteResponse v \<Rightarrow> rvr_term v \<noteq> 0
     | MAppendEntries v \<Rightarrow> legal_append_entries limits v
     | MAppendEntriesResponse v \<Rightarrow> \<not> (aer_term v = 0 \<or> aer_rpc_id v = 0))"

definition enc_message :: "Message \<Rightarrow> bytes" where
  "enc_message m = (case m of
       MRequestVote v \<Rightarrow> enc_request_vote v
     | MRequestVoteResponse v \<Rightarrow> enc_request_vote_response v
     | MAppendEntries v \<Rightarrow> enc_append_entries v
     | MAppendEntriesResponse v \<Rightarrow> enc_append_entries_response v)"

definition message_type :: "Message \<Rightarrow> WireType" where
  "message_type m = (case m of
       MRequestVote v \<Rightarrow> WT_request_vote
     | MRequestVoteResponse v \<Rightarrow> WT_request_vote_response
     | MAppendEntries v \<Rightarrow> WT_append_entries
     | MAppendEntriesResponse v \<Rightarrow> WT_append_entries_response)"

lemmas message_defs = legal_message_def enc_message_def message_type_def

lemma encode_message_iff:
  "encode_message m limits = Inr bs \<longleftrightarrow> legal_message limits m \<and> frame_fits limits (length (enc_message m)) \<and>
     bs = frame_bytes (message_type m) (enc_message m)"
  by (cases m)
    (simp_all add: encode_message_def Let_def message_defs f_request_vote.frame_put_iff
      f_request_vote_response.frame_put_iff f_append_entries.frame_put_iff f_append_entries_response.frame_put_iff)

lemma decode_message_cases:
  "decode_message bs limits = Inr m \<longleftrightarrow> (\<exists>p. parse_frame bs limits = Inr p \<and> (case m of
       MRequestVote v \<Rightarrow> pf_type p = WT_request_vote \<and> decode_exact p (checked legal_request_vote read_request_vote) = Inr v
     | MRequestVoteResponse v \<Rightarrow> pf_type p = WT_request_vote_response \<and>
         decode_exact p (checked (\<lambda>v. rvr_term v \<noteq> 0) read_request_vote_response) = Inr v
     | MAppendEntries v \<Rightarrow> pf_type p = WT_append_entries \<and> decode_exact p (read_append_entries limits) = Inr v
     | MAppendEntriesResponse v \<Rightarrow> pf_type p = WT_append_entries_response \<and>
         decode_exact p (checked (\<lambda>v. \<not> (aer_term v = 0 \<or> aer_rpc_id v = 0)) read_append_entries_response) = Inr v))"
proof (cases "parse_frame bs limits")
  case (Inr p)
  then show ?thesis
    by (cases "pf_type p"; cases m)
      (auto simp: decode_message_def bind_res_eq_Inr decode_exact_checked legal_request_vote_def split: if_splits)
qed (simp add: decode_message_def)

text \<open>
  C4. Encoding and decoding of messages are inverse in both directions: the bytes a message is
  encoded to decode to that message, and a byte string that decodes to a message is the one its
  encoding produces. Hence the wire format is canonical and no two messages share a frame.
\<close>

theorem message_round_trip: "encode_message m limits = Inr bs \<longleftrightarrow> decode_message bs limits = Inr m"
  unfolding decode_message_cases
  by (cases m) (simp_all add: encode_message_def Let_def f_request_vote.frame_round_trip
      f_request_vote_response.frame_round_trip f_append_entries.frame_round_trip f_append_entries_response.frame_round_trip)

text \<open>
  C9. The same holds of client commands and of log entries.
\<close>

theorem command_entry_round_trip:
  "(encode_command c limits = Inr bs \<longleftrightarrow> decode_command bs limits = Inr c) \<and>
   (encode_log_entry e limits = Inr bs' \<longleftrightarrow> decode_log_entry bs' limits = Inr e)"
  by (auto simp: encode_command_def decode_command_def encode_log_entry_def decode_log_entry_def
      f_command.frame_round_trip f_entry.frame_round_trip bind_res_eq_Inr split: if_splits)

section \<open>Truncated frames\<close>

lemma be_enc_4: "\<exists>a b c d. be_enc 4 (v :: u32) = [a, b, c, d]"
  by (simp add: be_enc_def numeral_eq_Suc)

lemma parse_short_header:
  assumes "n < 12" and "length (take n (frame_bytes t bs)) \<le> lim_max_frame_bytes limits"
  shows "parse_frame (take n (frame_bytes t bs)) limits = Inl (E_truncated, n)"
proof -
  obtain a b c d where "be_enc 4 (of_nat (length bs) :: u32) = [a, b, c, d]" using be_enc_4 by blast
  then have frame: "frame_bytes t bs = 0x44 # 0x4C # 0x4F # 0x47 # kVersion # wire_type_byte t # 0 # 0 # a # b # c # d # bs"
    by (simp add: frame_bytes_def kMagic_def be_enc_def numeral_eq_Suc)
  have new: "rd_rest (new_reader l b) = l" "absolute_position (rd_skip k (new_reader l b)) = b + k"
      "absolute_position (new_reader l b) = b" for l b k
    by (simp_all add: rd_rest_def new_reader_def absolute_position_def rd_skip_def)
  have "n = 11 \<or> n = 10 \<or> n = 9 \<or> n = 8 \<or> n = 7 \<or> n = 6 \<or> n = 5 \<or> n = 4 \<or> n = 3 \<or> n = 2 \<or> n = 1 \<or> n = 0"
    using assms(1) by presburger
  then show ?thesis
    using assms(2) unfolding frame
    by (elim disjE) (simp_all add: parse_frame_def kMagic_def get_u8_rest get_u16_def get_u32_def get_loop_be
        reader_fail_def new)
qed

lemma parse_short_payload:
  assumes "12 \<le> n" and "n < length (frame_bytes t bs)" and fits: "frame_fits limits (length bs)"
  shows "parse_frame (take n (frame_bytes t bs)) limits = Inl (E_truncated, 12)"
proof -
  let ?f = "take n (frame_bytes t bs)" and ?n = "of_nat (length bs) :: u32"
  let ?r = "rd_skip 12 (new_reader ?f 0)"
  have "consumed (new_reader ?f 0) (kMagic @ [kVersion] @ [wire_type_byte t] @ be_enc 2 (0 :: u16) @ be_enc 4 ?n) ?r"
    using assms(1) by (simp add: consumed_new frame_bytes_def kMagic_def min_def numeral_eq_Suc take_Cons')
  then obtain r1 r2 r3 r4 where "consumed (new_reader ?f 0) kMagic r1" and r: "get_u8 r1 = Inr (kVersion, r2)"
      "get_u8 r2 = Inr (wire_type_byte t, r3)" "get_u16 r3 = Inr (0, r4)" "get_u32 r4 = Inr (?n, ?r)"
    unfolding consumed_append consumed_get by blast
  then have magic: "check_magic kMagic (new_reader ?f 0) = Inr r1" by (simp only: check_magic_iff)
  have "remaining ?r < length bs"
    using assms by (simp add: remaining_rest rd_rest_def rd_skip_def new_reader_def kHeaderBytes_def)
  moreover have "length bs \<le> 4294967295" "\<not> lim_max_frame_bytes limits < length ?f"
    using fits assms(2) by (auto simp: frame_fits_iff)
  ultimately show ?thesis
    using fits r magic by (simp add: parse_frame_def frame_fits_def kHeaderBytes_def del: length_take)
qed

text \<open>
  C7. A frame that is cut short is always reported as truncated: at the cut when the cut is inside the
  twelve-byte header, and at offset 12, the end of the header, when the payload is short. It is never mistaken
  for another message.
\<close>

theorem truncated_frame_rejected:
  assumes "encode_message m limits = Inr bs" and "n < length bs"
  shows "decode_message (take n bs) limits = Inl (E_truncated, min n 12)"
proof -
  from assms(1) have bs: "bs = frame_bytes (message_type m) (enc_message m)"
    and fits: "frame_fits limits (length (enc_message m))" by (simp_all add: encode_message_iff)
  have "length (take n bs) \<le> lim_max_frame_bytes limits" using fits assms(2) by (simp add: bs frame_fits_iff)
  then have "parse_frame (take n bs) limits = Inl (E_truncated, min n 12)"
    using parse_short_header [of n "message_type m" "enc_message m" limits]
      parse_short_payload [of n "message_type m" "enc_message m" limits] fits assms(2)
    by (cases "n < 12") (simp_all add: bs min_def)
  then show ?thesis by (simp add: decode_message_def)
qed

section \<open>Sizes\<close>

definition entry_size :: "LogEntry \<Rightarrow> nat" where
  "entry_size e = (case ent_command e of None \<Rightarrow> 17 | Some c \<Rightarrow> 50 + length (cmd_key c) + length (cmd_value c))"

definition message_size :: "Message \<Rightarrow> nat" where
  "message_size m = (case m of
       MRequestVote v \<Rightarrow> 40
     | MRequestVoteResponse v \<Rightarrow> 21
     | MAppendEntries v \<Rightarrow> 60 + sum_list (map entry_size (ae_entries v))
     | MAppendEntriesResponse v \<Rightarrow> 53)"

lemma length_enc_entry_size: "length (enc_entry e) = entry_size e"
  by (simp add: enc_entry_def entry_size_def enc_command_def split: option.split)

lemma length_enc_entries_size: "length (enc_entries es) = sum_list (map entry_size es)"
  by (induction es) (simp_all add: enc_entries_def length_enc_entry_size)

lemma length_enc_message: "kHeaderBytes + length (enc_message m) = message_size m"
  by (cases m) (simp_all add: enc_message_def message_size_def enc_request_vote_def enc_request_vote_response_def
      enc_append_entries_def enc_append_entries_response_def length_enc_entries_size kHeaderBytes_def)

text \<open>
  C8. A message is encoded exactly when it is legal and its size, which is known from its fields,
  is within the frame limit and within what the 32-bit length field of the header can express; the frame then
  has that size.
\<close>

theorem message_encodes_iff_fits:
  "(case encode_message m limits of Inr bs \<Rightarrow> length bs = message_size m | Inl _ \<Rightarrow> True) \<and>
    ((\<exists>bs. encode_message m limits = Inr bs) \<longleftrightarrow>
       legal_message limits m \<and> message_size m \<le> min (lim_max_frame_bytes limits) (kHeaderBytes + 4294967295))"
proof -
  have "length bs = message_size m" if "encode_message m limits = Inr bs" for bs
    using that by (simp add: encode_message_iff length_enc_message)
  moreover have "frame_fits limits (length (enc_message m)) \<longleftrightarrow>
      message_size m \<le> min (lim_max_frame_bytes limits) (kHeaderBytes + 4294967295)"
    using length_enc_message [of m] by (auto simp: frame_fits_iff)
  ultimately show ?thesis by (auto simp: encode_message_iff split: sum.split)
qed

section \<open>Witnesses\<close>

definition sample_append :: Message where
  "sample_append = MAppendEntries \<lparr>ae_term = 3, ae_leader_id = 1, ae_rpc_id = 9, ae_prev_log_index = 4, ae_prev_log_term = 2,
     ae_entries = [\<lparr>ent_index = 5, ent_term = 3, ent_command = None\<rparr>,
       \<lparr>ent_index = 6, ent_term = 3, ent_command = Some \<lparr>cmd_session = SessionId 7 9, cmd_sequence = 1, cmd_kind = CmdPut,
          cmd_key = [107], cmd_value = [118]\<rparr>\<rparr>], ae_leader_commit = 4\<rparr>"

lemma sample_append_legal: "legal_message default_limits sample_append"
  by (simp add: sample_append_def legal_message_def legal_append_entries_def legal_entry_def legal_command_def
      legal_string_def valid_command_semantics_def known_command_kind_def command_kind_of_byte_def valid_log_pointer_def consecutive_entries_def default_limits_def)

lemma sample_append_size: "message_size sample_append = 129"
  by (simp add: sample_append_def message_size_def entry_size_def)

theorem message_encodes_iff_fits_witness:
  "(\<exists>bs. encode_message sample_append default_limits = Inr bs) \<and>
   \<not> (\<exists>bs. encode_message sample_append (default_limits\<lparr>lim_max_frame_bytes := 128\<rparr>) = Inr bs)"
proof -
  have "message_size sample_append \<le> min (lim_max_frame_bytes default_limits) (kHeaderBytes + 4294967295)"
    by (simp add: default_limits_def sample_append_size kHeaderBytes_def)
  then show ?thesis
    using message_encodes_iff_fits [of sample_append] sample_append_legal by (simp add: sample_append_size)
qed

theorem truncated_frame_rejected_witness:
  "\<exists>bs. encode_message sample_append default_limits = Inr bs \<and> length bs = 129 \<and>
     decode_message (take 64 bs) default_limits = Inl (E_truncated, 12)"
proof -
  let ?bs = "frame_bytes (message_type sample_append) (enc_message sample_append)"
  have len: "length ?bs = 129" using length_enc_message [of sample_append] sample_append_size by simp
  moreover from this have "frame_fits default_limits (length (enc_message sample_append))"
    by (simp add: frame_fits_iff kHeaderBytes_def default_limits_def)
  ultimately have "encode_message sample_append default_limits = Inr ?bs"
    using sample_append_legal by (simp add: encode_message_iff)
  with len truncated_frame_rejected [OF this, of 64] show ?thesis by simp
qed

end
