(* ===== verification/RaftState.thy ===== *)
theory RaftState
  imports KvStateMachine
begin

text \<open>
  The Raft transition engine, \<^verbatim>\<open>src/raft.cpp\<close> with \<^verbatim>\<open>include/detlog/raft.hpp\<close>: its whole state
  as a record, every member function as a definition of the same name, every branch and every
  emitted effect in the order of the source.

  \<^item> A member function that takes \<^verbatim>\<open>effects\<close> by reference is an \<open>Act\<close>: it maps the node to the new
    node and the list of effects it appends. \<open>run\<close> executes a list of acts one after the other.
  \<^item> The callbacks handed to \<^verbatim>\<open>begin_persist\<close> are the eight cases of \<open>AfterSuccess\<close>, with the
    variables the lambdas capture as arguments; \<open>after_success\<close> gives their bodies.
  \<^item> \<^verbatim>\<open>begin_persist\<close> throws when an operation is outstanding. The model records the throw in the
    flag \<open>rn_logic_error\<close>; that it is never set is a theorem.
  \<^item> The loops of \<^verbatim>\<open>step\<close> and \<^verbatim>\<open>apply_committed\<close> are recursive functions with termination proofs.
\<close>

section \<open>Types\<close>

datatype RaftRole = Follower | Candidate | Leader | Unavailable

record RaftConfig =
  cfg_node_id :: NodeId
  cfg_members :: "NodeId list"
  cfg_election_timeout :: Tick
  cfg_heartbeat_interval :: Tick
  cfg_max_deferred_events :: nat
  cfg_max_uncommitted_entries :: nat
  cfg_max_uncommitted_bytes :: nat
  cfg_max_command_bytes :: nat
  cfg_max_key_bytes :: nat
  cfg_max_value_bytes :: nat
  cfg_max_append_entries_per_rpc :: nat
  cfg_max_append_bytes_per_rpc :: nat
  cfg_append_retry_heartbeats :: nat
  cfg_max_waiters_per_request :: nat

record RecoveredState =
  rec_hard_state :: HardState
  rec_log :: "LogEntry list"
  rec_commit_index :: LogIndex

datatype RaftEffect =
    PersistEffect StorageOpId PersistBatch
  | SendEffect MessageEnvelope
  | ScheduleTimerEffect TimerRequest
  | ClientReplyEffect ClientReply
  | TraceEffect TraceRecord

datatype RaftEvent =
    TimerFired TimerKind u64
  | MessageReceived MessageEnvelope
  | StorageComplete StorageOpId bool string
  | ClientRequest ClientToken ClientCommand

record InflightAppend =
  ia_rpc_id :: RpcId
  ia_prev_index :: LogIndex
  ia_last_index :: LogIndex

record PeerProgress =
  pp_next_index :: LogIndex
  pp_match_index :: LogIndex
  pp_inflight :: "InflightAppend option"
  pp_inflight_heartbeat_age :: nat

record PendingClientEntry =
  pc_command :: ClientCommand
  pc_digest :: u64
  pc_waiters :: "ClientToken list"

datatype AfterSuccess =
    AfterElection
  | AfterVoteReply NodeId bool bool
  | AfterStepDown
  | AfterLeaderNoop
  | AfterReject NodeId RpcId LogIndex Term
  | AfterAccept NodeId RpcId LogIndex bool
  | AfterClientAppend
  | AfterCommit

record PendingStorage =
  ps_op_id :: StorageOpId
  ps_batch :: PersistBatch
  ps_after_success :: AfterSuccess

record RaftNode =
  rn_config :: RaftConfig
  rn_role :: RaftRole
  rn_hard_state :: HardState
  rn_durable_hard_state :: HardState
  rn_log :: "LogEntry list"
  rn_durable_last_log_index :: LogIndex
  rn_commit_index :: LogIndex
  rn_durable_commit_index :: LogIndex
  rn_last_applied :: LogIndex
  rn_state_machine :: KvStateMachine
  rn_leader_hint :: "NodeId option"
  rn_leader_ready :: bool
  rn_readiness_index :: LogIndex
  rn_votes_received :: "NodeId fset"
  rn_peers :: "(NodeId, PeerProgress) fmap"
  rn_pending_clients :: "(LogIndex, PendingClientEntry) fmap"
  rn_pending_sessions :: "(SessionId, LogIndex) fmap"
  rn_pending_storage :: "PendingStorage option"
  rn_deferred_events :: "RaftEvent list"
  rn_next_storage_op_id :: StorageOpId
  rn_next_rpc_id :: RpcId
  rn_election_generation :: u64
  rn_heartbeat_generation :: u64
  rn_started :: bool
  rn_logic_error :: bool

abbreviation rn_term :: "RaftNode \<Rightarrow> Term" where
  "rn_term n \<equiv> hs_current_term (rn_hard_state n)"

abbreviation rn_voted_for :: "RaftNode \<Rightarrow> NodeId option" where
  "rn_voted_for n \<equiv> hs_voted_for (rn_hard_state n)"

abbreviation rn_id :: "RaftNode \<Rightarrow> NodeId" where
  "rn_id n \<equiv> cfg_node_id (rn_config n)"

definition kEntryOverhead :: nat where "kEntryOverhead = 64"
definition kAppendRpcOverhead :: nat where "kAppendRpcOverhead = 64"
definition kSizeMax :: nat where "kSizeMax = 2 ^ 64 - 1"

section \<open>Acts\<close>

type_synonym Act = "RaftNode \<Rightarrow> RaftNode \<times> RaftEffect list"

fun run :: "Act list \<Rightarrow> Act" where
  "run [] n = (n, [])"
| "run (a # as) n = (let (n1, e1) = a n; (n2, e2) = run as n1 in (n2, e1 @ e2))"

definition emit :: "RaftEffect \<Rightarrow> Act" where
  "emit e n = (n, [e])"

definition modify :: "(RaftNode \<Rightarrow> RaftNode) \<Rightarrow> Act" where
  "modify f n = (f n, [])"

definition skip :: Act where
  "skip n = (n, [])"

definition whenever :: "(RaftNode \<Rightarrow> bool) \<Rightarrow> Act \<Rightarrow> Act" where
  "whenever c a n = (if c n then a n else skip n)"

fun for_each :: "'a list \<Rightarrow> ('a \<Rightarrow> Act) \<Rightarrow> Act" where
  "for_each [] f n = (n, [])"
| "for_each (x # xs) f n = run [f x, for_each xs f] n"

section \<open>Queries\<close>

definition command_size_within :: "ClientCommand \<Rightarrow> nat \<Rightarrow> nat \<Rightarrow> nat \<Rightarrow> bool" where
  "command_size_within c maximum max_key max_value \<longleftrightarrow>
     length (cmd_key c) \<le> max_key \<and> length (cmd_value c) \<le> max_value \<and>
     length (cmd_key c) \<le> maximum \<and> length (cmd_value c) \<le> maximum - length (cmd_key c)"

text \<open>The test every handler applies to a command, with the bounds of the configuration.\<close>

definition command_ok :: "RaftConfig \<Rightarrow> ClientCommand \<Rightarrow> bool" where
  "command_ok cfg c \<longleftrightarrow> structurally_valid c \<and>
     command_size_within c (cfg_max_command_bytes cfg) (cfg_max_key_bytes cfg) (cfg_max_value_bytes cfg)"

definition quorum_size :: "RaftNode \<Rightarrow> nat" where
  "quorum_size n = length (cfg_members (rn_config n)) div 2 + 1"

definition last_log_index :: "RaftNode \<Rightarrow> LogIndex" where
  "last_log_index n = of_nat (length (rn_log n))"

definition is_member :: "RaftNode \<Rightarrow> NodeId \<Rightarrow> bool" where
  "is_member n i \<longleftrightarrow> i \<in> set (cfg_members (rn_config n))"

definition entry_at :: "RaftNode \<Rightarrow> LogIndex \<Rightarrow> LogEntry option" where
  "entry_at n i = (if i = 0 \<or> i > last_log_index n then None else Some (rn_log n ! unat (i - 1)))"

definition term_at :: "RaftNode \<Rightarrow> LogIndex \<Rightarrow> Term" where
  "term_at n i = (case entry_at n i of None \<Rightarrow> 0 | Some e \<Rightarrow> ent_term e)"

definition candidate_is_up_to_date :: "RaftNode \<Rightarrow> LogIndex \<Rightarrow> Term \<Rightarrow> bool" where
  "candidate_is_up_to_date n index t =
     (let local_term = term_at n (last_log_index n) in
      t > local_term \<or> (t = local_term \<and> index \<ge> last_log_index n))"

definition uncommitted_entry_count :: "RaftNode \<Rightarrow> nat" where
  "uncommitted_entry_count n = unat (last_log_index n - rn_commit_index n)"

definition entry_bytes :: "LogEntry \<Rightarrow> nat" where
  "entry_bytes e =
     (case ent_command e of
        None \<Rightarrow> kEntryOverhead
      | Some c \<Rightarrow>
          (let key_size = length (cmd_key c); value_size = length (cmd_value c) in
           if key_size > kSizeMax - value_size \<or> kEntryOverhead > kSizeMax - key_size - value_size
           then kSizeMax
           else kEntryOverhead + key_size + value_size))"

text \<open>The loop of \<^verbatim>\<open>uncommitted_bytes\<close> over the entries after the commit index.\<close>

fun add_entry_bytes :: "nat \<Rightarrow> LogEntry list \<Rightarrow> nat" where
  "add_entry_bytes acc [] = acc"
| "add_entry_bytes acc (e # es) =
     (let bytes = entry_bytes e in
      if bytes > kSizeMax - acc then kSizeMax else add_entry_bytes (acc + bytes) es)"

definition uncommitted_bytes :: "RaftNode \<Rightarrow> nat" where
  "uncommitted_bytes n = add_entry_bytes 0 (drop (unat (rn_commit_index n)) (rn_log n))"

definition can_append :: "RaftNode \<Rightarrow> LogEntry \<Rightarrow> bool" where
  "can_append n e =
     (let cfg = rn_config n in
      if entry_bytes e > cfg_max_append_bytes_per_rpc cfg - kAppendRpcOverhead then False
      else if uncommitted_entry_count n \<ge> cfg_max_uncommitted_entries cfg then False
      else
        (let current = uncommitted_bytes n; added = entry_bytes e in
         current \<le> cfg_max_uncommitted_bytes cfg \<and> added \<le> cfg_max_uncommitted_bytes cfg - current))"

definition can_append_client :: "RaftNode \<Rightarrow> LogEntry \<Rightarrow> bool" where
  "can_append_client n e =
     (let cfg = rn_config n; count = uncommitted_entry_count n in
      if count \<ge> cfg_max_uncommitted_entries cfg \<or> cfg_max_uncommitted_entries cfg - count \<le> 1 then False
      else
        (let current = uncommitted_bytes n; added = entry_bytes e in
         if current > cfg_max_uncommitted_bytes cfg \<or> added > cfg_max_uncommitted_bytes cfg - current then False
         else
           (let after_entry = current + added in
            after_entry \<le> cfg_max_uncommitted_bytes cfg \<and>
            kEntryOverhead \<le> cfg_max_uncommitted_bytes cfg - after_entry)))"

fun last_index_in :: "LogEntry list \<Rightarrow> Term \<Rightarrow> LogIndex option" where
  "last_index_in [] t = None"
| "last_index_in (e # es) t = (if ent_term e = t then Some (ent_index e) else last_index_in es t)"

definition last_index_of_term :: "RaftNode \<Rightarrow> Term \<Rightarrow> LogIndex option" where
  "last_index_of_term n t = last_index_in (rev (rn_log n)) t"

fun walk_back :: "RaftNode \<Rightarrow> Term \<Rightarrow> nat \<Rightarrow> LogIndex" where
  "walk_back n t (Suc (Suc at)) =
     (if term_at n (of_nat (Suc at)) = t then walk_back n t (Suc at) else of_nat (Suc (Suc at)))"
| "walk_back n t at = of_nat at"

definition first_index_of_term :: "RaftNode \<Rightarrow> LogIndex \<Rightarrow> LogIndex" where
  "first_index_of_term n at =
     (if at = 0 \<or> at > last_log_index n then last_log_index n + 1
      else walk_back n (term_at n at) (unat at))"

section \<open>Emitting effects\<close>

definition trace :: "TraceKind \<Rightarrow> string \<Rightarrow> LogIndex \<Rightarrow> Act" where
  "trace kind detail index n =
     emit (TraceEffect \<lparr>tr_kind = kind, tr_node = rn_id n, tr_term = rn_term n, tr_index = index, tr_detail = detail\<rparr>) n"

definition emit_reply :: "ClientToken \<Rightarrow> ClientStatus \<Rightarrow> bytes \<Rightarrow> LogIndex \<Rightarrow> Act" where
  "emit_reply token status val index n =
     (let hint = (if rn_role n = Leader then Some (rn_id n) else rn_leader_hint n) in
      run [emit (ClientReplyEffect \<lparr>rep_token = token, rep_status = status, rep_leader_hint = hint,
                   rep_log_index = index, rep_value = val\<rparr>),
           trace TK_client_reply ''client reply emitted'' index] n)"

definition schedule_election :: Act where
  "schedule_election n =
     (let n1 = n\<lparr>rn_election_generation := rn_election_generation n + 1\<rparr> in
      emit (ScheduleTimerEffect \<lparr>tmr_kind = TimerElection, tmr_delay = cfg_election_timeout (rn_config n1),
             tmr_generation = rn_election_generation n1\<rparr>) n1)"

definition schedule_heartbeat :: Act where
  "schedule_heartbeat n =
     (let n1 = n\<lparr>rn_heartbeat_generation := rn_heartbeat_generation n + 1\<rparr> in
      emit (ScheduleTimerEffect \<lparr>tmr_kind = TimerHeartbeat, tmr_delay = cfg_heartbeat_interval (rn_config n1),
             tmr_generation = rn_heartbeat_generation n1\<rparr>) n1)"

definition send_message :: "NodeId \<Rightarrow> Message \<Rightarrow> Act" where
  "send_message to m n =
     run [trace TK_send ''protocol message emitted'' 0,
          emit (SendEffect \<lparr>env_from = rn_id n, env_to = to, env_message = m\<rparr>)] n"

section \<open>Facts\<close>

lemma run_Cons: "run (a # as) n = (fst (run as (fst (a n))), snd (a n) @ snd (run as (fst (a n))))"
  by (simp add: split_beta Let_def)

lemma for_each_Cons: "for_each (x # xs) f n =
    (fst (for_each xs f (fst (f x n))), snd (f x n) @ snd (for_each xs f (fst (f x n))))"
  by (simp add: split_beta Let_def)

lemmas acts_simps = run.simps(1) run_Cons for_each.simps(1) for_each_Cons

declare run.simps(2) [simp del] for_each.simps(2) [simp del]
declare run_Cons [simp] for_each_Cons [simp]

lemma emit_simps [simp]: "fst (emit e n) = n" "snd (emit e n) = [e]"
  by (simp_all add: emit_def)

lemma modify_simps [simp]: "fst (modify f n) = f n" "snd (modify f n) = []"
  by (simp_all add: modify_def)

lemma skip_simps [simp]: "fst (skip n) = n" "snd (skip n) = []"
  by (simp_all add: skip_def)

lemma whenever_simps [simp]:
  "fst (whenever c a n) = (if c n then fst (a n) else n)"
  "snd (whenever c a n) = (if c n then snd (a n) else [])"
  by (simp_all add: whenever_def)

lemma trace_node [simp]: "fst (trace kind detail index n) = n"
  by (simp add: trace_def)

lemma emit_reply_node [simp]: "fst (emit_reply token status val index n) = n"
  by (simp add: emit_reply_def Let_def)

lemma send_message_node [simp]: "fst (send_message to m n) = n"
  by (simp add: send_message_def)

lemma schedule_election_node [simp]:
  "fst (schedule_election n) = n\<lparr>rn_election_generation := rn_election_generation n + 1\<rparr>"
  by (simp add: schedule_election_def Let_def)

lemma schedule_heartbeat_node [simp]:
  "fst (schedule_heartbeat n) = n\<lparr>rn_heartbeat_generation := rn_heartbeat_generation n + 1\<rparr>"
  by (simp add: schedule_heartbeat_def Let_def)

lemma for_each_keeps:
  assumes "\<And>x m. g (fst (f x m)) = g m"
  shows "g (fst (for_each xs f n)) = g n"
  using assms by (induction xs arbitrary: n) auto

end
