(* ===== verification/RaftNode.thy ===== *)
theory RaftNode
  imports RaftState
begin

text \<open>
  The operations of \<^verbatim>\<open>RaftNode\<close> in \<^verbatim>\<open>src/raft.cpp\<close>: persistence and failure, application of
  committed entries, replication, elections, the message handlers, client requests, the
  constructor, and the entry points \<^verbatim>\<open>start\<close> and \<^verbatim>\<open>step\<close>. The order is that of the calls, callees
  first.
\<close>

section \<open>Failure and persistence\<close>

definition reply_deferred :: "RaftEvent \<Rightarrow> Act" where
  "reply_deferred ev =
     (case ev of ClientRequest token c \<Rightarrow> emit_reply token CS_storage_error [] 0 | _ \<Rightarrow> skip)"

definition reply_waiters :: "ClientStatus \<Rightarrow> bytes \<Rightarrow> LogIndex \<Rightarrow> PendingClientEntry \<Rightarrow> Act" where
  "reply_waiters status val index p = for_each (pc_waiters p) (\<lambda>token. emit_reply token status val index)"

definition make_unavailable :: "RaftNode \<Rightarrow> RaftNode" where
  "make_unavailable n = n\<lparr>rn_role := Unavailable, rn_leader_hint := None, rn_leader_ready := False,
     rn_peers := fmempty, rn_votes_received := {||}, rn_pending_storage := None,
     rn_election_generation := rn_election_generation n + 1,
     rn_heartbeat_generation := rn_heartbeat_generation n + 1\<rparr>"

definition fail_storage :: "string \<Rightarrow> Act" where
  "fail_storage detail n =
     run [modify make_unavailable,
          trace TK_fault detail 0,
          for_each (sorted_list_of_fmap (rn_pending_clients n))
            (\<lambda>(index, pending). reply_waiters CS_storage_error [] index pending),
          modify (\<lambda>m. m\<lparr>rn_pending_clients := fmempty, rn_pending_sessions := fmempty\<rparr>),
          for_each (rn_deferred_events n) reply_deferred,
          modify (\<lambda>m. m\<lparr>rn_deferred_events := []\<rparr>)] n"

text \<open>
  \<^verbatim>\<open>begin_persist\<close>: \<open>k\<close> is the stored callback and \<open>now\<close> its body, run at once when there is
  nothing to persist.
\<close>

definition begin_persist :: "PersistBatch \<Rightarrow> AfterSuccess \<Rightarrow> Act \<Rightarrow> Act" where
  "begin_persist batch k now n =
     (if batch_empty batch then now n
      else if rn_pending_storage n \<noteq> None then (n\<lparr>rn_logic_error := True\<rparr>, [])
      else if rn_next_storage_op_id n = 0 then fail_storage ''storage operation id overflow'' n
      else
        (let op_id = rn_next_storage_op_id n in
         run [modify (\<lambda>m. m\<lparr>rn_next_storage_op_id := op_id + 1,
                 rn_pending_storage := Some \<lparr>ps_op_id = op_id, ps_batch = batch, ps_after_success = k\<rparr>\<rparr>),
              trace TK_storage_begin ''storage operation started'' 0,
              emit (PersistEffect op_id batch)] n))"

text \<open>The handlers' choice between answering at once and persisting first.\<close>

definition reply_or_persist :: "PersistBatch \<Rightarrow> AfterSuccess \<Rightarrow> Act \<Rightarrow> Act" where
  "reply_or_persist batch k now n = (if batch_empty batch then now n else begin_persist batch k now n)"

definition step_down :: "Term \<Rightarrow> NodeId option \<Rightarrow> bool \<Rightarrow> Act" where
  "step_down t hint emit_timer n =
     run [whenever (\<lambda>m. t > rn_term m)
            (run [modify (\<lambda>m. m\<lparr>rn_hard_state := \<lparr>hs_current_term = t, hs_voted_for = None\<rparr>\<rparr>),
                  trace TK_term_change ''observed a higher term'' 0]),
          modify (\<lambda>m. m\<lparr>rn_role := Follower, rn_leader_hint := hint, rn_leader_ready := False,
             rn_readiness_index := 0, rn_votes_received := {||}, rn_peers := fmempty,
             rn_heartbeat_generation := rn_heartbeat_generation m + 1\<rparr>),
          whenever (\<lambda>_. rn_role n \<noteq> Follower) (trace TK_role_change ''became follower'' 0),
          whenever (\<lambda>_. emit_timer) schedule_election] n"

section \<open>Pending clients and application\<close>

definition forget_pending :: "LogIndex \<Rightarrow> PendingClientEntry \<Rightarrow> RaftNode \<Rightarrow> RaftNode" where
  "forget_pending index p n =
     (let sid = cmd_session (pc_command p) in
      n\<lparr>rn_pending_sessions := (if fmlookup (rn_pending_sessions n) sid = Some index
                               then fmdrop sid (rn_pending_sessions n) else rn_pending_sessions n),
        rn_pending_clients := fmdrop index (rn_pending_clients n)\<rparr>)"

definition remove_pending_from :: "LogIndex \<Rightarrow> Act" where
  "remove_pending_from from n =
     for_each (filter (\<lambda>(index, p). index \<ge> from) (sorted_list_of_fmap (rn_pending_clients n)))
       (\<lambda>(index, p). run [reply_waiters CS_unavailable [] index p, modify (forget_pending index p)]) n"

text \<open>One round of the loop of \<^verbatim>\<open>apply_committed\<close>, after the increment of \<^verbatim>\<open>last_applied_\<close>.\<close>

definition apply_log_entry :: "LogEntry \<Rightarrow> Act" where
  "apply_log_entry e n =
     (let index = rn_last_applied n;
          (sm, result) = (case ent_command e of
             None \<Rightarrow> (rn_state_machine n, default_apply_result)
           | Some c \<Rightarrow> kv_apply (rn_state_machine n) c) in
      run [modify (\<lambda>m. m\<lparr>rn_state_machine := sm\<rparr>),
           trace TK_apply (if ent_command e \<noteq> None then ''applied client command'' else ''applied no-op'') index,
           (case fmlookup (rn_pending_clients n) index of
              None \<Rightarrow> skip
            | Some p \<Rightarrow> run [reply_waiters (ar_status result) (ar_value result) index p,
                             modify (forget_pending index p)])] n)"

lemma reply_waiters_node [simp]: "fst (reply_waiters status val index p n) = n"
  unfolding reply_waiters_def by (rule for_each_keeps [where g = "\<lambda>m. m"]) simp

lemma apply_log_entry_cursors [simp]:
  "rn_last_applied (fst (apply_log_entry e n)) = rn_last_applied n"
  "rn_commit_index (fst (apply_log_entry e n)) = rn_commit_index n"
  "rn_log (fst (apply_log_entry e n)) = rn_log n"
  by (auto simp: apply_log_entry_def forget_pending_def Let_def split_beta split: option.split)

function apply_committed :: Act where
  "apply_committed n =
     (if rn_last_applied n < rn_commit_index n then
        (let n1 = n\<lparr>rn_last_applied := rn_last_applied n + 1\<rparr> in
         case entry_at n1 (rn_last_applied n1) of
           None \<Rightarrow> fail_storage ''commit index references a missing log entry'' n1
         | Some e \<Rightarrow>
             (let (n2, e2) = apply_log_entry e n1; (n3, e3) = apply_committed n2 in (n3, e2 @ e3)))
      else (n, []))"
  by pat_completeness auto

termination
proof (relation "measure (\<lambda>n. unat (rn_commit_index n) - unat (rn_last_applied n))", goal_cases)
  case (2 n n1 e p n2 e2)
  then have "n2 = fst (apply_log_entry e n1)" by (metis fst_conv)
  with 2 show ?case by (simp add: word_less_nat_alt unat_succ_less less_imp_diff_less diff_less_mono2)
qed simp

declare apply_committed.simps [simp del]

lemma entry_at_applied [simp]: "entry_at (n\<lparr>rn_last_applied := i\<rparr>) = entry_at n"
  by (simp add: entry_at_def last_log_index_def fun_eq_iff)

lemma apply_committed_unfold:
  "apply_committed n =
     (if rn_last_applied n < rn_commit_index n then
        case entry_at n (rn_last_applied n + 1) of
          None \<Rightarrow> fail_storage ''commit index references a missing log entry'' (n\<lparr>rn_last_applied := rn_last_applied n + 1\<rparr>)
        | Some e \<Rightarrow>
            (let (n2, e2) = apply_log_entry e (n\<lparr>rn_last_applied := rn_last_applied n + 1\<rparr>) in
             (fst (apply_committed n2), e2 @ snd (apply_committed n2)))
      else (n, []))"
  by (subst apply_committed.simps) (simp add: Let_def split_beta split: option.split)

lemma apply_committed_induct:
  assumes "\<And>n. (\<And>e. rn_last_applied n < rn_commit_index n \<Longrightarrow> entry_at n (rn_last_applied n + 1) = Some e \<Longrightarrow>
      P (fst (apply_log_entry e (n\<lparr>rn_last_applied := rn_last_applied n + 1\<rparr>)))) \<Longrightarrow> P n"
  shows "P n"
proof (induction n rule: apply_committed.induct)
  case (1 n)
  show ?case
  proof (rule assms)
    fix e assume less: "rn_last_applied n < rn_commit_index n" and e: "entry_at n (rn_last_applied n + 1) = Some e"
    show "P (fst (apply_log_entry e (n\<lparr>rn_last_applied := rn_last_applied n + 1\<rparr>)))"
      by (rule 1 [OF less refl _ refl prod.collapse]) (simp add: e)
  qed
qed

section \<open>Replication\<close>

definition set_peer :: "NodeId \<Rightarrow> PeerProgress \<Rightarrow> RaftNode \<Rightarrow> RaftNode" where
  "set_peer peer p n = n\<lparr>rn_peers := fmupd peer p (rn_peers n)\<rparr>"

text \<open>The entries \<^verbatim>\<open>send_append\<close> collects from \<open>index\<close> on, at most \<open>count\<close> and within the byte budget.\<close>

fun collect_entries :: "RaftNode \<Rightarrow> LogIndex \<Rightarrow> nat \<Rightarrow> nat \<Rightarrow> LogEntry list" where
  "collect_entries n index 0 encoded = []"
| "collect_entries n index (Suc count) encoded =
     (case entry_at n index of
        None \<Rightarrow> []
      | Some e \<Rightarrow>
          (if entry_bytes e > cfg_max_append_bytes_per_rpc (rn_config n) - encoded then []
           else e # collect_entries n (index + 1) count (encoded + entry_bytes e)))"

definition clamp :: "u64 \<Rightarrow> u64 \<Rightarrow> u64 \<Rightarrow> u64" where
  "clamp v lo hi = (if v < lo then lo else if hi < v then hi else v)"

definition send_append :: "NodeId \<Rightarrow> Act" where
  "send_append peer n =
     (if rn_role n \<noteq> Leader \<or> rn_pending_storage n \<noteq> None then skip n
      else case fmlookup (rn_peers n) peer of
        None \<Rightarrow> skip n
      | Some progress \<Rightarrow>
          if pp_inflight progress \<noteq> None then skip n
          else
            (let next_index = clamp (pp_next_index progress) 1 (rn_durable_last_log_index n + 1);
                 prev = next_index - 1;
                 available = rn_durable_last_log_index n - prev;
                 maximum = of_nat (cfg_max_append_entries_per_rpc (rn_config n));
                 candidate_count = min available maximum;
                 entries = collect_entries n (prev + 1) (unat candidate_count) kAppendRpcOverhead;
                 n1 = set_peer peer (progress\<lparr>pp_next_index := next_index\<rparr>) n in
             if rn_next_rpc_id n = 0 then fail_storage ''RPC id overflow'' n1
             else
               (let rpc_id = rn_next_rpc_id n;
                    sent_last = prev + of_nat (length entries);
                    progress' = \<lparr>pp_next_index = next_index, pp_match_index = pp_match_index progress,
                      pp_inflight = Some \<lparr>ia_rpc_id = rpc_id, ia_prev_index = prev, ia_last_index = sent_last\<rparr>,
                      pp_inflight_heartbeat_age = 0\<rparr> in
                run [modify (\<lambda>m. set_peer peer progress' (m\<lparr>rn_next_rpc_id := rpc_id + 1\<rparr>)),
                     send_message peer (MAppendEntries \<lparr>ae_term = rn_term n, ae_leader_id = rn_id n,
                       ae_rpc_id = rpc_id, ae_prev_log_index = prev, ae_prev_log_term = term_at n prev,
                       ae_entries = entries, ae_leader_commit = rn_commit_index n\<rparr>)] n)))"

definition send_all_appends :: Act where
  "send_all_appends n =
     (if rn_role n \<noteq> Leader \<or> rn_pending_storage n \<noteq> None then skip n
      else for_each (sorted_list_of_fset (fmdom (rn_peers n))) send_append n)"

text \<open>The number of replicas of \<open>candidate\<close>: the leader itself and the peers that match it.\<close>

definition replicas :: "RaftNode \<Rightarrow> LogIndex \<Rightarrow> nat" where
  "replicas n candidate =
     1 + length (filter (\<lambda>(peer, progress). pp_match_index progress \<ge> candidate) (sorted_list_of_fmap (rn_peers n)))"

definition committable :: "RaftNode \<Rightarrow> LogIndex \<Rightarrow> bool" where
  "committable n candidate \<longleftrightarrow>
     (case entry_at n candidate of
        None \<Rightarrow> False
      | Some e \<Rightarrow> ent_term e = rn_term n \<and> replicas n candidate \<ge> quorum_size n)"

text \<open>The downward search of \<^verbatim>\<open>maybe_advance_commit\<close>, from \<open>candidate\<close> to just above the commit index.\<close>

fun commit_target :: "RaftNode \<Rightarrow> nat \<Rightarrow> LogIndex" where
  "commit_target n 0 = rn_commit_index n"
| "commit_target n (Suc c) =
     (if Suc c \<le> unat (rn_commit_index n) then rn_commit_index n
      else if committable n (of_nat (Suc c)) then of_nat (Suc c)
      else commit_target n c)"

definition after_commit :: Act where
  "after_commit n =
     run [trace TK_commit ''leader durably advanced commit index'' (rn_commit_index n),
          apply_committed,
          whenever (\<lambda>m. rn_role m = Leader \<and> rn_readiness_index m \<noteq> 0 \<and> rn_last_applied m \<ge> rn_readiness_index m)
            (modify (\<lambda>m. m\<lparr>rn_leader_ready := True\<rparr>)),
          send_all_appends] n"

definition maybe_advance_commit :: Act where
  "maybe_advance_commit n =
     (if rn_role n \<noteq> Leader \<or> rn_pending_storage n \<noteq> None then skip n
      else
        (let target = commit_target n (unat (rn_durable_last_log_index n)) in
         if target = rn_commit_index n then skip n
         else run [modify (\<lambda>m. m\<lparr>rn_commit_index := target\<rparr>),
                   begin_persist (empty_batch\<lparr>pb_commit_index := Some target\<rparr>) AfterCommit after_commit] n))"

section \<open>Elections\<close>

definition peer_ids :: "RaftNode \<Rightarrow> NodeId list" where
  "peer_ids n = filter (\<lambda>m. m \<noteq> rn_id n) (cfg_members (rn_config n))"

definition after_election :: Act where
  "after_election n =
     (if rn_role n \<noteq> Candidate then skip n
      else
        (let request = \<lparr>rv_term = rn_term n, rv_candidate_id = rn_id n,
               rv_last_log_index = rn_durable_last_log_index n,
               rv_last_log_term = term_at n (rn_durable_last_log_index n)\<rparr> in
         run [schedule_election,
              for_each (peer_ids n) (\<lambda>member. send_message member (MRequestVote request))] n))"

definition begin_election :: Act where
  "begin_election n =
     (if rn_term n = -1 then fail_storage ''term counter overflow'' n
      else
        (let hs = \<lparr>hs_current_term = rn_term n + 1, hs_voted_for = Some (rn_id n)\<rparr> in
         run [modify (\<lambda>m. m\<lparr>rn_role := Candidate, rn_hard_state := hs, rn_leader_hint := None,
                 rn_leader_ready := False, rn_readiness_index := 0, rn_peers := fmempty,
                 rn_votes_received := {|rn_id m|},
                 rn_heartbeat_generation := rn_heartbeat_generation m + 1\<rparr>),
              trace TK_term_change ''started election'' 0,
              trace TK_role_change ''became candidate'' 0,
              trace TK_vote ''recorded self vote'' 0,
              begin_persist (empty_batch\<lparr>pb_hard_state := Some hs\<rparr>) AfterElection after_election] n))"

definition after_leader_noop :: Act where
  "after_leader_noop n =
     (if rn_role n \<noteq> Leader then skip n
      else run [send_all_appends, schedule_heartbeat, maybe_advance_commit] n)"

definition become_leader :: Act where
  "become_leader n =
     (let fresh = \<lparr>pp_next_index = rn_durable_last_log_index n + 1, pp_match_index = 0,
            pp_inflight = None, pp_inflight_heartbeat_age = 0\<rparr>;
          n1 = n\<lparr>rn_role := Leader, rn_leader_hint := Some (rn_id n), rn_leader_ready := False,
            rn_readiness_index := 0, rn_votes_received := {||},
            rn_election_generation := rn_election_generation n + 1,
            rn_peers := fmap_of_list (map (\<lambda>m. (m, fresh)) (peer_ids n))\<rparr> in
      run [trace TK_role_change ''became leader'' 0,
           (if last_log_index n = -1 then fail_storage ''log index overflow''
            else
              (let no_op = \<lparr>ent_index = last_log_index n + 1, ent_term = rn_term n, ent_command = None\<rparr> in
               if \<not> can_append n1 no_op then
                 run [trace TK_queue_saturated ''no room for leader readiness entry'' 0,
                      modify (\<lambda>m. m\<lparr>rn_role := Follower, rn_leader_hint := None, rn_peers := fmempty\<rparr>),
                      schedule_election]
               else
                 run [modify (\<lambda>m. m\<lparr>rn_log := rn_log m @ [no_op], rn_readiness_index := ent_index no_op\<rparr>),
                      trace TK_log_change ''appended leader readiness no-op'' (ent_index no_op),
                      begin_persist (empty_batch\<lparr>pb_entries := [no_op]\<rparr>) AfterLeaderNoop after_leader_noop]))] n1)"

definition after_vote_reply :: "NodeId \<Rightarrow> bool \<Rightarrow> bool \<Rightarrow> Act" where
  "after_vote_reply from grant was_leader n =
     run [whenever (\<lambda>_. grant) (trace TK_vote ''granted vote'' 0),
          whenever (\<lambda>_. grant \<or> was_leader) schedule_election,
          send_message from (MRequestVoteResponse \<lparr>rvr_term = rn_term n, rvr_vote_granted = grant\<rparr>)] n"

text \<open>The second half of \<^verbatim>\<open>on_request_vote\<close>: \<open>batch\<close> holds the hard state when the term was raised.\<close>

definition decide_vote :: "NodeId \<Rightarrow> RequestVote \<Rightarrow> bool \<Rightarrow> PersistBatch \<Rightarrow> Act" where
  "decide_vote from request was_leader batch n =
     (let candidate = rv_candidate_id request;
          can_vote = rn_voted_for n = None \<or> rn_voted_for n = Some candidate;
          grant = can_vote \<and> candidate_is_up_to_date n (rv_last_log_index request) (rv_last_log_term request);
          k = AfterVoteReply from grant was_leader;
          reply = after_vote_reply from grant was_leader in
      if grant \<and> rn_voted_for n \<noteq> Some candidate then
        (let hs = (rn_hard_state n)\<lparr>hs_voted_for := Some candidate\<rparr> in
         reply_or_persist (batch\<lparr>pb_hard_state := Some hs\<rparr>) k reply (n\<lparr>rn_hard_state := hs\<rparr>))
      else reply_or_persist batch k reply n)"

definition on_request_vote :: "NodeId \<Rightarrow> RequestVote \<Rightarrow> Act" where
  "on_request_vote from request n =
     (if rv_term request = 0 \<or> rv_candidate_id request \<noteq> from then skip n
      else if rv_term request < rn_term n then
        send_message from (MRequestVoteResponse \<lparr>rvr_term = rn_term n, rvr_vote_granted = False\<rparr>) n
      else
        (let was_leader = rn_role n = Leader in
         if rv_term request > rn_term n then
           (let (n1, e1) = step_down (rv_term request) None False n;
                (n2, e2) = decide_vote from request was_leader
                             (empty_batch\<lparr>pb_hard_state := Some (rn_hard_state n1)\<rparr>) n1 in
            (n2, e1 @ e2))
         else decide_vote from request was_leader empty_batch n))"

definition after_step_down :: Act where
  "after_step_down = schedule_election"

text \<open>The first branch of both response handlers: a higher term makes the node step down.\<close>

definition observe_higher_term :: "Term \<Rightarrow> Act" where
  "observe_higher_term t n =
     (let (n1, e1) = step_down t None False n;
          (n2, e2) = begin_persist (empty_batch\<lparr>pb_hard_state := Some (rn_hard_state n1)\<rparr>) AfterStepDown after_step_down n1 in
      (n2, e1 @ e2))"

definition on_request_vote_response :: "NodeId \<Rightarrow> RequestVoteResponse \<Rightarrow> Act" where
  "on_request_vote_response from response n =
     (if rvr_term response > rn_term n then observe_higher_term (rvr_term response) n
      else if rn_role n \<noteq> Candidate \<or> rvr_term response \<noteq> rn_term n \<or> \<not> rvr_vote_granted response then skip n
      else
        run [modify (\<lambda>m. m\<lparr>rn_votes_received := finsert from (rn_votes_received m)\<rparr>),
             whenever (\<lambda>_. from |\<notin>| rn_votes_received n) (trace TK_vote ''received vote'' 0),
             whenever (\<lambda>m. fcard (rn_votes_received m) \<ge> quorum_size m) become_leader] n)"

section \<open>Log replication\<close>

text \<open>The validation loop of \<^verbatim>\<open>on_append_entries\<close>.\<close>

fun entries_valid :: "RaftConfig \<Rightarrow> Term \<Rightarrow> LogIndex \<Rightarrow> nat \<Rightarrow> LogEntry list \<Rightarrow> bool" where
  "entries_valid cfg t expected_index append_bytes [] \<longleftrightarrow> True"
| "entries_valid cfg t expected_index append_bytes (e # es) \<longleftrightarrow>
     expected_index \<noteq> -1 \<and>
     entry_bytes e \<le> cfg_max_append_bytes_per_rpc cfg - append_bytes \<and>
     ent_index e = expected_index + 1 \<and> ent_term e \<noteq> 0 \<and> ent_term e \<le> t \<and>
     (case ent_command e of None \<Rightarrow> True | Some c \<Rightarrow> command_ok cfg c) \<and>
     entries_valid cfg t (expected_index + 1) (append_bytes + entry_bytes e) es"

text \<open>The entries from the first one that is missing or different in the local log.\<close>

fun new_suffix :: "RaftNode \<Rightarrow> LogEntry list \<Rightarrow> LogEntry list" where
  "new_suffix n [] = []"
| "new_suffix n (e # es) = (if entry_at n (ent_index e) = Some e then new_suffix n es else e # es)"

definition after_reject :: "NodeId \<Rightarrow> RpcId \<Rightarrow> LogIndex \<Rightarrow> Term \<Rightarrow> Act" where
  "after_reject from rpc_id conflict_index conflict_term n =
     run [schedule_election,
          send_message from (MAppendEntriesResponse \<lparr>aer_term = rn_term n, aer_rpc_id = rpc_id,
            aer_success = False, aer_match_index = 0,
            aer_conflict_index = conflict_index, aer_conflict_term = conflict_term\<rparr>)] n"

definition after_accept :: "NodeId \<Rightarrow> RpcId \<Rightarrow> LogIndex \<Rightarrow> bool \<Rightarrow> Act" where
  "after_accept from rpc_id match_index apply_now n =
     run [whenever (\<lambda>_. apply_now)
            (run [trace TK_commit ''learned committed prefix from leader'' (rn_commit_index n), apply_committed]),
          schedule_election,
          send_message from (MAppendEntriesResponse \<lparr>aer_term = rn_term n, aer_rpc_id = rpc_id,
            aer_success = True, aer_match_index = match_index,
            aer_conflict_index = 0, aer_conflict_term = 0\<rparr>)] n"

text \<open>The end of \<^verbatim>\<open>on_append_entries\<close>: the commit index and the answer.\<close>

definition finish_accept :: "NodeId \<Rightarrow> AppendEntries \<Rightarrow> PersistBatch \<Rightarrow> Act" where
  "finish_accept from request batch n =
     (let match_index = (if ae_entries request = [] then ae_prev_log_index request
                         else ent_index (last (ae_entries request)));
          new_commit = min (ae_leader_commit request) match_index;
          advances = new_commit > rn_commit_index n;
          n1 = (if advances then n\<lparr>rn_commit_index := new_commit\<rparr> else n);
          batch1 = (if advances then batch\<lparr>pb_commit_index := Some new_commit\<rparr> else batch);
          apply_now = (pb_commit_index batch1 \<noteq> None) in
      reply_or_persist batch1 (AfterAccept from (ae_rpc_id request) match_index apply_now)
        (after_accept from (ae_rpc_id request) match_index apply_now) n1)"

text \<open>
  The second half of \<^verbatim>\<open>on_append_entries\<close>: the request is well formed and its previous entry matches.
  \<open>batch\<close> holds the hard state when the term was raised.
\<close>

definition accept_entries :: "NodeId \<Rightarrow> AppendEntries \<Rightarrow> PersistBatch \<Rightarrow> Act" where
  "accept_entries from request batch n =
     (let suffix = new_suffix n (ae_entries request) in
      if suffix = [] then finish_accept from request batch n
      else
        (let replacement_index = ent_index (hd suffix) in
         if replacement_index \<le> rn_commit_index n then
           fail_storage ''leader attempted to overwrite a committed entry'' n
         else
           (let truncates = replacement_index \<le> last_log_index n;
                batch1 = (if truncates then batch\<lparr>pb_truncate_from := Some replacement_index\<rparr> else batch) in
            run [whenever (\<lambda>_. truncates)
                   (run [remove_pending_from replacement_index,
                         modify (\<lambda>m. m\<lparr>rn_log := take (unat (replacement_index - 1)) (rn_log m)\<rparr>)]),
                 modify (\<lambda>m. m\<lparr>rn_log := rn_log m @ suffix\<rparr>),
                 trace TK_log_change ''accepted replicated log suffix'' replacement_index,
                 finish_accept from request (batch1\<lparr>pb_entries := suffix\<rparr>)] n)))"

text \<open>The part of \<^verbatim>\<open>on_append_entries\<close> after the term checks.\<close>

definition check_entries :: "NodeId \<Rightarrow> AppendEntries \<Rightarrow> PersistBatch \<Rightarrow> Act" where
  "check_entries from request batch n =
     (let cfg = rn_config n;
          rpc_id = ae_rpc_id request;
          prev = ae_prev_log_index request;
          beyond = last_log_index n + 1;
          reject = (\<lambda>ci ct. reply_or_persist batch (AfterReject from rpc_id ci ct) (after_reject from rpc_id ci ct)) in
      if \<not> (length (ae_entries request) \<le> cfg_max_append_entries_per_rpc cfg \<and>
            entries_valid cfg (ae_term request) prev kAppendRpcOverhead (ae_entries request))
      then reject beyond 0 n
      else if prev > last_log_index n then reject beyond 0 n
      else if term_at n prev \<noteq> ae_prev_log_term request then
        reject (first_index_of_term n prev) (term_at n prev) n
      else accept_entries from request batch n)"

definition on_append_entries :: "NodeId \<Rightarrow> AppendEntries \<Rightarrow> Act" where
  "on_append_entries from request n =
     (if ae_term request = 0 \<or> ae_leader_id request \<noteq> from then skip n
      else if ae_term request < rn_term n then
        send_message from (MAppendEntriesResponse \<lparr>aer_term = rn_term n, aer_rpc_id = ae_rpc_id request,
          aer_success = False, aer_match_index = 0,
          aer_conflict_index = last_log_index n + 1, aer_conflict_term = 0\<rparr>) n
      else
        (let raises = ae_term request > rn_term n;
             (n1, e1) = (if raises \<or> rn_role n \<noteq> Follower then step_down (ae_term request) (Some from) False n
                         else (n\<lparr>rn_leader_hint := Some from\<rparr>, []));
             batch = (if raises then empty_batch\<lparr>pb_hard_state := Some (rn_hard_state n1)\<rparr> else empty_batch);
             (n2, e2) = check_entries from request batch n1 in
         (n2, e1 @ e2)))"

text \<open>The new \<^verbatim>\<open>next_index\<close> after a rejection.\<close>

definition backed_up_next :: "RaftNode \<Rightarrow> PeerProgress \<Rightarrow> AppendEntriesResponse \<Rightarrow> LogIndex" where
  "backed_up_next n progress response =
     (let next0 = (case (if aer_conflict_term response \<noteq> 0
                         then last_index_of_term n (aer_conflict_term response) else None) of
                     Some matching \<Rightarrow> matching + 1
                   | None \<Rightarrow> aer_conflict_index response);
          next1 = (if next0 = 0 then (if pp_next_index progress > 1 then pp_next_index progress - 1 else 1)
                   else next0) in
      max (min next1 (rn_durable_last_log_index n + 1)) (pp_match_index progress + 1))"

definition on_append_entries_response :: "NodeId \<Rightarrow> AppendEntriesResponse \<Rightarrow> Act" where
  "on_append_entries_response from response n =
     (if aer_term response > rn_term n then observe_higher_term (aer_term response) n
      else if rn_role n \<noteq> Leader \<or> aer_term response \<noteq> rn_term n then skip n
      else case fmlookup (rn_peers n) from of
        None \<Rightarrow> skip n
      | Some progress0 \<Rightarrow>
          (case pp_inflight progress0 of
             None \<Rightarrow> skip n
           | Some sent \<Rightarrow>
               if ia_rpc_id sent \<noteq> aer_rpc_id response then skip n
               else
                 (let progress = progress0\<lparr>pp_inflight := None, pp_inflight_heartbeat_age := 0\<rparr> in
                  if aer_success response then
                    (if aer_match_index response < ia_last_index sent then modify (set_peer from progress) n
                     else
                       (let match' = max (pp_match_index progress) (ia_last_index sent) in
                        run [modify (set_peer from (progress\<lparr>pp_match_index := match', pp_next_index := match' + 1\<rparr>)),
                             maybe_advance_commit,
                             whenever (\<lambda>m. rn_role m = Leader \<and> rn_pending_storage m = None \<and>
                                 (case fmlookup (rn_peers m) from of None \<Rightarrow> False
                                  | Some current \<Rightarrow> pp_match_index current < rn_durable_last_log_index m))
                               (send_append from)] n))
                  else
                    run [modify (set_peer from (progress\<lparr>pp_next_index := backed_up_next n progress response\<rparr>)),
                         send_append from] n)))"

section \<open>Client requests\<close>

definition after_client_append :: Act where
  "after_client_append n =
     (if rn_role n \<noteq> Leader then skip n else run [send_all_appends, maybe_advance_commit] n)"

text \<open>The last part of \<^verbatim>\<open>on_client_request\<close>: admission of a command that is next in its session.\<close>

definition admit_client :: "ClientToken \<Rightarrow> ClientCommand \<Rightarrow> Act" where
  "admit_client token c n =
     (if last_log_index n = -1 then emit_reply token CS_busy [] 0 n
      else
        (let e = \<lparr>ent_index = last_log_index n + 1, ent_term = rn_term n, ent_command = Some c\<rparr> in
         if \<not> can_append_client n e then
           run [trace TK_queue_saturated ''uncommitted log admission bound reached'' 0,
                emit_reply token CS_busy [] 0] n
         else
           run [modify (\<lambda>m. m\<lparr>rn_log := rn_log m @ [e],
                  rn_pending_sessions := fmupd (cmd_session c) (ent_index e) (rn_pending_sessions m),
                  rn_pending_clients := fmupd (ent_index e)
                    \<lparr>pc_command = c, pc_digest = command_digest c, pc_waiters = [token]\<rparr> (rn_pending_clients m)\<rparr>),
                trace TK_log_change ''appended client command'' (ent_index e),
                begin_persist (empty_batch\<lparr>pb_entries := [e]\<rparr>) AfterClientAppend after_client_append] n))"

text \<open>The middle part: a command whose session may already have an entry in flight.\<close>

definition join_pending :: "ClientToken \<Rightarrow> ClientCommand \<Rightarrow> Act" where
  "join_pending token c n =
     (case fmlookup (rn_pending_sessions n) (cmd_session c) of
        None \<Rightarrow> admit_client token c n
      | Some index \<Rightarrow>
          (case fmlookup (rn_pending_clients n) index of
             None \<Rightarrow> run [modify (\<lambda>m. m\<lparr>rn_pending_sessions := fmdrop (cmd_session c) (rn_pending_sessions m)\<rparr>),
                          admit_client token c] n
           | Some p \<Rightarrow>
               if cmd_sequence (pc_command p) \<noteq> cmd_sequence c then emit_reply token CS_sequence_gap [] 0 n
               else if pc_digest p \<noteq> command_digest c then emit_reply token CS_request_id_conflict [] 0 n
               else if length (pc_waiters p) \<ge> cfg_max_waiters_per_request (rn_config n)
               then emit_reply token CS_busy [] 0 n
               else modify (\<lambda>m. m\<lparr>rn_pending_clients :=
                      fmupd index (p\<lparr>pc_waiters := pc_waiters p @ [token]\<rparr>) (rn_pending_clients m)\<rparr>) n))"

definition on_client_request :: "ClientToken \<Rightarrow> ClientCommand \<Rightarrow> Act" where
  "on_client_request token c n =
     (if rn_role n = Unavailable then emit_reply token CS_unavailable [] 0 n
      else if rn_role n \<noteq> Leader then emit_reply token CS_not_leader [] 0 n
      else if \<not> rn_leader_ready n then emit_reply token CS_leader_not_ready [] 0 n
      else if \<not> command_ok (rn_config n) c then emit_reply token CS_invalid_request [] 0 n
      else case session (rn_state_machine n) (cmd_session c) of
        Some applied \<Rightarrow>
          if cmd_sequence c < sr_sequence applied then emit_reply token CS_stale_sequence [] 0 n
          else if cmd_sequence c = sr_sequence applied then
            (if command_digest c \<noteq> sr_command_digest applied then emit_reply token CS_request_id_conflict [] 0 n
             else emit_reply token (sr_status applied) (sr_result applied) (rn_last_applied n) n)
          else if sr_sequence applied = -1 \<or> cmd_sequence c \<noteq> sr_sequence applied + 1
          then emit_reply token CS_sequence_gap [] 0 n
          else join_pending token c n
      | None \<Rightarrow>
          if cmd_sequence c \<noteq> 1 then emit_reply token CS_sequence_gap [] 0 n
          else join_pending token c n)"

section \<open>Timers, messages and completions\<close>

definition age_progress :: "RaftConfig \<Rightarrow> PeerProgress \<Rightarrow> PeerProgress" where
  "age_progress cfg p =
     (if pp_inflight p = None then p
      else if pp_inflight_heartbeat_age p + 1 \<ge> cfg_append_retry_heartbeats cfg
      then p\<lparr>pp_inflight := None, pp_inflight_heartbeat_age := 0\<rparr>
      else p\<lparr>pp_inflight_heartbeat_age := pp_inflight_heartbeat_age p + 1\<rparr>)"

definition on_timer :: "TimerKind \<Rightarrow> u64 \<Rightarrow> Act" where
  "on_timer kind generation n =
     (if kind = TimerElection then
        (if generation \<noteq> rn_election_generation n \<or> rn_role n = Leader \<or> rn_role n = Unavailable then skip n
         else begin_election n)
      else if generation \<noteq> rn_heartbeat_generation n \<or> rn_role n \<noteq> Leader then skip n
      else run [modify (\<lambda>m. m\<lparr>rn_peers := fmmap (age_progress (rn_config m)) (rn_peers m)\<rparr>),
                send_all_appends, schedule_heartbeat] n)"

definition on_message :: "MessageEnvelope \<Rightarrow> Act" where
  "on_message env n =
     (if env_to env \<noteq> rn_id n \<or> env_from env = rn_id n \<or> \<not> is_member n (env_from env) then skip n
      else run [trace TK_receive ''protocol message received'' 0,
                (case env_message env of
                   MRequestVote r \<Rightarrow> on_request_vote (env_from env) r
                 | MRequestVoteResponse r \<Rightarrow> on_request_vote_response (env_from env) r
                 | MAppendEntries r \<Rightarrow> on_append_entries (env_from env) r
                 | MAppendEntriesResponse r \<Rightarrow> on_append_entries_response (env_from env) r)] n)"

fun after_success :: "AfterSuccess \<Rightarrow> Act" where
  "after_success AfterElection = after_election"
| "after_success (AfterVoteReply from grant was_leader) = after_vote_reply from grant was_leader"
| "after_success AfterStepDown = after_step_down"
| "after_success AfterLeaderNoop = after_leader_noop"
| "after_success (AfterReject from rpc_id ci ct) = after_reject from rpc_id ci ct"
| "after_success (AfterAccept from rpc_id match_index apply_now) = after_accept from rpc_id match_index apply_now"
| "after_success AfterClientAppend = after_client_append"
| "after_success AfterCommit = after_commit"

definition mark_durable :: "PersistBatch \<Rightarrow> RaftNode \<Rightarrow> RaftNode" where
  "mark_durable b n = n\<lparr>
     rn_durable_hard_state := (case pb_hard_state b of None \<Rightarrow> rn_durable_hard_state n | Some hs \<Rightarrow> hs),
     rn_durable_last_log_index := (if pb_truncate_from b \<noteq> None \<or> pb_entries b \<noteq> []
                                   then last_log_index n else rn_durable_last_log_index n),
     rn_durable_commit_index := (case pb_commit_index b of None \<Rightarrow> rn_durable_commit_index n | Some c \<Rightarrow> c)\<rparr>"

definition on_storage_complete :: "StorageOpId \<Rightarrow> bool \<Rightarrow> string \<Rightarrow> Act" where
  "on_storage_complete op_id success error n =
     (case rn_pending_storage n of
        None \<Rightarrow> trace TK_fault ''unexpected storage completion'' 0 n
      | Some pending \<Rightarrow>
          if ps_op_id pending \<noteq> op_id then trace TK_fault ''unexpected storage completion'' 0 n
          else if \<not> success then
            run [modify (\<lambda>m. m\<lparr>rn_pending_storage := None\<rparr>),
                 fail_storage (if error = [] then ''storage operation failed'' else error)] n
          else
            run [modify (\<lambda>m. mark_durable (ps_batch pending) (m\<lparr>rn_pending_storage := None\<rparr>)),
                 trace TK_storage_complete ''storage operation completed'' 0,
                 after_success (ps_after_success pending)] n)"

definition dispatch :: "RaftEvent \<Rightarrow> Act" where
  "dispatch ev =
     (case ev of
        TimerFired kind generation \<Rightarrow> on_timer kind generation
      | MessageReceived env \<Rightarrow> on_message env
      | StorageComplete op_id success error \<Rightarrow> on_storage_complete op_id success error
      | ClientRequest token c \<Rightarrow> on_client_request token c)"

section \<open>The deferred queue inside a handler\<close>

text \<open>
  No handler adds to the deferred queue: it leaves it alone, or clears it when the node fails.
  Stated for a set \<open>Q\<close> of queues that has the empty one.
\<close>

named_theorems queue_intros

lemma for_each_queue:
  assumes "\<And>x m. rn_deferred_events m \<in> Q \<Longrightarrow> rn_deferred_events (fst (f x m)) \<in> Q"
    and "rn_deferred_events n \<in> Q"
  shows "rn_deferred_events (fst (for_each xs f n)) \<in> Q"
  using assms(2) by (induction xs arbitrary: n) (auto intro: assms(1))

lemma fail_storage_queue [simp]: "rn_deferred_events (fst (fail_storage d n)) = []"
  by (simp add: fail_storage_def)

lemma forget_pending_queue [simp]: "rn_deferred_events (forget_pending i p n) = rn_deferred_events n"
  by (simp add: forget_pending_def Let_def)

lemma set_peer_queue [simp]: "rn_deferred_events (set_peer i p n) = rn_deferred_events n"
  by (simp add: set_peer_def)

lemma mark_durable_queue [simp]: "rn_deferred_events (mark_durable b n) = rn_deferred_events n"
  by (simp add: mark_durable_def)

lemma step_down_queue [simp]: "rn_deferred_events (fst (step_down t h e n)) = rn_deferred_events n"
  by (simp add: step_down_def)

lemma remove_pending_from_queue [simp]: "rn_deferred_events (fst (remove_pending_from i n)) = rn_deferred_events n"
  unfolding remove_pending_from_def by (rule for_each_keeps) auto

lemma apply_log_entry_queue [simp]: "rn_deferred_events (fst (apply_log_entry e n)) = rn_deferred_events n"
  by (auto simp: apply_log_entry_def Let_def split_beta split: option.split)

lemma apply_committed_queue [queue_intros]:
  "[] \<in> Q \<Longrightarrow> rn_deferred_events n \<in> Q \<Longrightarrow> rn_deferred_events (fst (apply_committed n)) \<in> Q"
proof (induction n rule: apply_committed_induct)
  case (1 n)
  then show ?case
    by (subst apply_committed_unfold) (simp add: split_beta Let_def split: option.split)
qed

lemma begin_persist_queue [queue_intros]:
  assumes "[] \<in> Q" "rn_deferred_events n \<in> Q" "rn_deferred_events (fst (now n)) \<in> Q"
  shows "rn_deferred_events (fst (begin_persist b k now n)) \<in> Q"
  using assms by (simp add: begin_persist_def Let_def)

lemma reply_or_persist_queue [queue_intros]:
  assumes "[] \<in> Q" "rn_deferred_events n \<in> Q" "rn_deferred_events (fst (now n)) \<in> Q"
  shows "rn_deferred_events (fst (reply_or_persist b k now n)) \<in> Q"
  using assms by (simp add: reply_or_persist_def begin_persist_queue)

lemma send_append_queue [queue_intros]:
  "[] \<in> Q \<Longrightarrow> rn_deferred_events n \<in> Q \<Longrightarrow> rn_deferred_events (fst (send_append p n)) \<in> Q"
  by (simp add: send_append_def Let_def split: option.split)

lemma send_all_appends_queue [queue_intros]:
  "[] \<in> Q \<Longrightarrow> rn_deferred_events n \<in> Q \<Longrightarrow> rn_deferred_events (fst (send_all_appends n)) \<in> Q"
  by (simp add: send_all_appends_def for_each_queue send_append_queue)

lemma after_commit_queue [queue_intros]:
  "[] \<in> Q \<Longrightarrow> rn_deferred_events n \<in> Q \<Longrightarrow> rn_deferred_events (fst (after_commit n)) \<in> Q"
  by (auto simp: after_commit_def intro!: queue_intros)

lemma maybe_advance_commit_queue [queue_intros]:
  "[] \<in> Q \<Longrightarrow> rn_deferred_events n \<in> Q \<Longrightarrow> rn_deferred_events (fst (maybe_advance_commit n)) \<in> Q"
  by (auto simp: maybe_advance_commit_def Let_def intro!: queue_intros)

lemma after_success_queue [queue_intros]:
  "[] \<in> Q \<Longrightarrow> rn_deferred_events n \<in> Q \<Longrightarrow> rn_deferred_events (fst (after_success k n)) \<in> Q"
  by (cases k)
    (auto simp: after_election_def after_vote_reply_def after_step_down_def after_leader_noop_def
      after_reject_def after_accept_def after_client_append_def Let_def for_each_queue
      intro!: queue_intros)

lemmas after_queue = after_success_queue [of _ _ AfterElection, simplified]
  after_success_queue [of _ _ "AfterVoteReply a b c" for a b c, simplified]
  after_success_queue [of _ _ AfterStepDown, simplified]
  after_success_queue [of _ _ AfterLeaderNoop, simplified]
  after_success_queue [of _ _ "AfterReject a b c d" for a b c d, simplified]
  after_success_queue [of _ _ "AfterAccept a b c d" for a b c d, simplified]
  after_success_queue [of _ _ AfterClientAppend, simplified]

declare after_queue [queue_intros]

lemma become_leader_queue [queue_intros]:
  "[] \<in> Q \<Longrightarrow> rn_deferred_events n \<in> Q \<Longrightarrow> rn_deferred_events (fst (become_leader n)) \<in> Q"
  by (auto simp: become_leader_def Let_def intro!: queue_intros)

lemma accept_entries_queue [queue_intros]:
  "[] \<in> Q \<Longrightarrow> rn_deferred_events n \<in> Q \<Longrightarrow> rn_deferred_events (fst (accept_entries f r b n)) \<in> Q"
  by (auto simp: accept_entries_def finish_accept_def Let_def intro!: queue_intros)

lemma on_request_vote_queue [queue_intros]:
  "[] \<in> Q \<Longrightarrow> rn_deferred_events n \<in> Q \<Longrightarrow> rn_deferred_events (fst (on_request_vote f r n)) \<in> Q"
  by (auto simp: on_request_vote_def decide_vote_def Let_def split_beta intro!: queue_intros)

lemma observe_higher_term_queue [queue_intros]:
  "[] \<in> Q \<Longrightarrow> rn_deferred_events n \<in> Q \<Longrightarrow> rn_deferred_events (fst (observe_higher_term t n)) \<in> Q"
  by (auto simp: observe_higher_term_def split_beta Let_def intro!: queue_intros)

lemma on_append_entries_queue [queue_intros]:
  "[] \<in> Q \<Longrightarrow> rn_deferred_events n \<in> Q \<Longrightarrow> rn_deferred_events (fst (on_append_entries f r n)) \<in> Q"
  by (auto simp: on_append_entries_def check_entries_def Let_def split_beta intro!: queue_intros)

lemma on_append_entries_response_queue [queue_intros]:
  "[] \<in> Q \<Longrightarrow> rn_deferred_events n \<in> Q \<Longrightarrow> rn_deferred_events (fst (on_append_entries_response f r n)) \<in> Q"
  by (auto simp: on_append_entries_response_def Let_def intro!: queue_intros split: option.split)

lemma admit_client_queue [queue_intros]:
  "[] \<in> Q \<Longrightarrow> rn_deferred_events n \<in> Q \<Longrightarrow> rn_deferred_events (fst (admit_client t c n)) \<in> Q"
  by (auto simp: admit_client_def Let_def intro!: queue_intros)

lemma on_client_request_queue [queue_intros]:
  "[] \<in> Q \<Longrightarrow> rn_deferred_events n \<in> Q \<Longrightarrow> rn_deferred_events (fst (on_client_request t c n)) \<in> Q"
  by (simp add: on_client_request_def join_pending_def Let_def admit_client_queue split: option.split)

lemma on_timer_queue [queue_intros]:
  "[] \<in> Q \<Longrightarrow> rn_deferred_events n \<in> Q \<Longrightarrow> rn_deferred_events (fst (on_timer k g n)) \<in> Q"
  by (simp add: on_timer_def begin_election_def Let_def queue_intros)

lemma on_message_queue [queue_intros]:
  "[] \<in> Q \<Longrightarrow> rn_deferred_events n \<in> Q \<Longrightarrow> rn_deferred_events (fst (on_message env n)) \<in> Q"
  by (simp add: on_message_def on_request_vote_response_def queue_intros split: Message.split)

lemma on_storage_complete_queue [queue_intros]:
  "[] \<in> Q \<Longrightarrow> rn_deferred_events n \<in> Q \<Longrightarrow> rn_deferred_events (fst (on_storage_complete i s e n)) \<in> Q"
  by (simp add: on_storage_complete_def queue_intros split: option.split)

lemma dispatch_queue:
  "[] \<in> Q \<Longrightarrow> rn_deferred_events n \<in> Q \<Longrightarrow> rn_deferred_events (fst (dispatch ev n)) \<in> Q"
  by (simp add: dispatch_def queue_intros split: RaftEvent.split)

lemma dispatch_queue_cases:
  "rn_deferred_events (fst (dispatch ev n)) = rn_deferred_events n \<or> rn_deferred_events (fst (dispatch ev n)) = []"
  using dispatch_queue [of "{rn_deferred_events n, []}" n ev] by simp

section \<open>Entry points\<close>

text \<open>The loop of \<^verbatim>\<open>step\<close> over the deferred events.\<close>

function drain :: Act where
  "drain n =
     (if rn_pending_storage n = None \<and> rn_role n \<noteq> Unavailable then
        (case rn_deferred_events n of
           [] \<Rightarrow> (n, [])
         | ev # evs \<Rightarrow>
             (let (n1, e1) = dispatch ev (n\<lparr>rn_deferred_events := evs\<rparr>); (n2, e2) = drain n1 in (n2, e1 @ e2)))
      else (n, []))"
  by pat_completeness auto

termination
proof (relation "measure (\<lambda>n. length (rn_deferred_events n))", goal_cases)
  case (2 n ev evs p n1 e1)
  then have "n1 = fst (dispatch ev (n\<lparr>rn_deferred_events := evs\<rparr>))" by (metis fst_conv)
  with 2 dispatch_queue_cases [of ev "n\<lparr>rn_deferred_events := evs\<rparr>"] show ?case by auto
qed simp

declare drain.simps [simp del]

text \<open>The loop of \<^verbatim>\<open>step\<close> over the entries of a request that arrives while storage is outstanding.\<close>

fun deferrable_entries :: "RaftConfig \<Rightarrow> nat \<Rightarrow> LogEntry list \<Rightarrow> bool" where
  "deferrable_entries cfg bytes [] \<longleftrightarrow> True"
| "deferrable_entries cfg bytes (e # es) \<longleftrightarrow>
     entry_bytes e \<le> cfg_max_append_bytes_per_rpc cfg - min (cfg_max_append_bytes_per_rpc cfg) bytes \<and>
     (case ent_command e of None \<Rightarrow> True | Some c \<Rightarrow> command_ok cfg c) \<and>
     deferrable_entries cfg (bytes + entry_bytes e) es"

definition oversized_append :: "RaftConfig \<Rightarrow> RaftEvent \<Rightarrow> bool" where
  "oversized_append cfg ev =
     (case ev of
        MessageReceived env \<Rightarrow>
          (case env_message env of
             MAppendEntries r \<Rightarrow>
               \<not> (length (ae_entries r) \<le> cfg_max_append_entries_per_rpc cfg \<and>
                  deferrable_entries cfg kAppendRpcOverhead (ae_entries r))
           | _ \<Rightarrow> False)
      | _ \<Rightarrow> False)"

definition reply_if_client :: "ClientStatus \<Rightarrow> RaftEvent \<Rightarrow> Act" where
  "reply_if_client status ev = (case ev of ClientRequest token c \<Rightarrow> emit_reply token status [] 0 | _ \<Rightarrow> skip)"

text \<open>The first half of \<^verbatim>\<open>step\<close>: an event that arrives while a storage operation is outstanding.\<close>

definition defer_event :: "RaftEvent \<Rightarrow> Act" where
  "defer_event ev n =
     (let cfg = rn_config n in
      if (case ev of ClientRequest token c \<Rightarrow> \<not> command_ok cfg c | _ \<Rightarrow> False)
      then reply_if_client CS_invalid_request ev n
      else if oversized_append cfg ev
      then trace TK_queue_saturated ''rejected oversized deferred protocol event'' 0 n
      else if length (rn_deferred_events n) \<ge> cfg_max_deferred_events cfg
      then run [trace TK_queue_saturated ''deferred event queue is full'' 0, reply_if_client CS_busy ev] n
      else modify (\<lambda>m. m\<lparr>rn_deferred_events := rn_deferred_events m @ [ev]\<rparr>) n)"

fun is_storage_complete :: "RaftEvent \<Rightarrow> bool" where
  "is_storage_complete (StorageComplete op_id success error) = True"
| "is_storage_complete ev = False"

definition raft_step :: "RaftEvent \<Rightarrow> Act" where
  "raft_step ev n =
     (if rn_pending_storage n \<noteq> None \<and> \<not> is_storage_complete ev then defer_event ev n
      else if rn_role n = Unavailable \<and> \<not> is_storage_complete ev then reply_if_client CS_unavailable ev n
      else run [dispatch ev, drain] n)"

definition raft_start :: Act where
  "raft_start n =
     (if rn_started n \<or> rn_role n = Unavailable then skip n
      else run [modify (\<lambda>m. m\<lparr>rn_started := True\<rparr>), schedule_election] n)"

section \<open>Construction\<close>

fun recovered_log_ok :: "RaftConfig \<Rightarrow> Term \<Rightarrow> LogIndex \<Rightarrow> LogEntry list \<Rightarrow> bool" where
  "recovered_log_ok cfg t expected [] \<longleftrightarrow> True"
| "recovered_log_ok cfg t expected (e # es) \<longleftrightarrow>
     ent_index e = expected \<and> ent_term e \<noteq> 0 \<and> ent_term e \<le> t \<and>
     (case ent_command e of None \<Rightarrow> True | Some c \<Rightarrow> command_ok cfg c) \<and>
     entry_bytes e \<le> cfg_max_append_bytes_per_rpc cfg - kAppendRpcOverhead \<and>
     recovered_log_ok cfg t (expected + 1) es"

definition bounds_ok :: "RaftConfig \<Rightarrow> bool" where
  "bounds_ok cfg \<longleftrightarrow>
     cfg_election_timeout cfg \<noteq> 0 \<and> cfg_heartbeat_interval cfg \<noteq> 0 \<and> cfg_max_deferred_events cfg \<noteq> 0 \<and>
     cfg_max_uncommitted_entries cfg \<noteq> 0 \<and> cfg_max_uncommitted_bytes cfg \<ge> kEntryOverhead \<and>
     cfg_max_command_bytes cfg \<noteq> 0 \<and> cfg_max_key_bytes cfg \<noteq> 0 \<and>
     cfg_max_append_entries_per_rpc cfg \<noteq> 0 \<and> cfg_max_append_bytes_per_rpc cfg > kAppendRpcOverhead \<and>
     cfg_append_retry_heartbeats cfg \<noteq> 0 \<and> cfg_max_waiters_per_request cfg \<noteq> 0"

definition membership_ok :: "RaftConfig \<Rightarrow> bool" where
  "membership_ok cfg \<longleftrightarrow> (length (cfg_members cfg) = 3 \<or> length (cfg_members cfg) = 5) \<and>
     distinct (cfg_members cfg) \<and> cfg_node_id cfg \<in> set (cfg_members cfg)"

text \<open>The replay loop of the constructor: entries up to the recovered commit index, no effects.\<close>

function replay_committed :: "RaftNode \<Rightarrow> RaftNode" where
  "replay_committed n =
     (if rn_last_applied n < rn_commit_index n then
        (let n1 = n\<lparr>rn_last_applied := rn_last_applied n + 1\<rparr> in
         replay_committed
           (case entry_at n1 (rn_last_applied n1) of
              None \<Rightarrow> n1
            | Some e \<Rightarrow> n1\<lparr>rn_state_machine := apply_entry (rn_state_machine n1) e\<rparr>))
      else n)"
  by pat_completeness auto

termination
proof (relation "measure (\<lambda>n. unat (rn_commit_index n) - unat (rn_last_applied n))", goal_cases)
  case (2 n n1)
  then have "unat (rn_last_applied n + 1) = Suc (unat (rn_last_applied n))"
    by (simp add: unat_succ_less)
  with 2 show ?case by (auto simp: word_less_nat_alt diff_less_mono2 split: option.split)
qed simp

declare replay_committed.simps [simp del]

definition fresh_node :: "RaftConfig \<Rightarrow> RecoveredState \<Rightarrow> RaftNode" where
  "fresh_node cfg rec = \<lparr>rn_config = cfg, rn_role = Follower,
     rn_hard_state = rec_hard_state rec, rn_durable_hard_state = rec_hard_state rec,
     rn_log = rec_log rec, rn_durable_last_log_index = of_nat (length (rec_log rec)),
     rn_commit_index = rec_commit_index rec, rn_durable_commit_index = rec_commit_index rec,
     rn_last_applied = 0, rn_state_machine = kv_empty, rn_leader_hint = None, rn_leader_ready = False,
     rn_readiness_index = 0, rn_votes_received = {||}, rn_peers = fmempty, rn_pending_clients = fmempty,
     rn_pending_sessions = fmempty, rn_pending_storage = None, rn_deferred_events = [],
     rn_next_storage_op_id = 1, rn_next_rpc_id = 1, rn_election_generation = 0,
     rn_heartbeat_generation = 0, rn_started = False, rn_logic_error = False\<rparr>"

definition new_raft_node :: "RaftConfig \<Rightarrow> RecoveredState \<Rightarrow> string + RaftNode" where
  "new_raft_node config rec =
     (let cfg = config\<lparr>cfg_members := sort (cfg_members config)\<rparr>;
          hs = rec_hard_state rec in
      if \<not> membership_ok cfg then
        Inl ''Raft membership must contain this node and exactly 3 or 5 unique nodes''
      else if (case hs_voted_for hs of None \<Rightarrow> False
               | Some v \<Rightarrow> hs_current_term hs = 0 \<or> v \<notin> set (cfg_members cfg)) then
        Inl ''Recovered vote is not valid membership state''
      else if \<not> bounds_ok cfg then Inl ''Raft bounds and timer durations must be non-zero''
      else if length (rec_log rec) > kSizeMax then Inl ''Recovered log is too large''
      else if hs_current_term hs = 0 \<and> hs_voted_for hs \<noteq> None then
        Inl ''term-zero hard state cannot contain a vote''
      else if \<not> recovered_log_ok cfg (hs_current_term hs) 1 (rec_log rec) then
        Inl ''Recovered log is not a valid consecutive Raft log''
      else if rec_commit_index rec > of_nat (length (rec_log rec)) then
        Inl ''Recovered commit index is beyond the log''
      else Inr (replay_committed (fresh_node cfg rec)))"

end
