(* ===== verification/RaftLocal.thy ===== *)
theory RaftLocal
  imports RaftNode
begin

text \<open>
  The protocol transitions of one node. \<open>lstep M n ms m\<close> is one elementary transition from node \<open>n\<close>
  to node \<open>m\<close> that sends the messages \<open>ms\<close>, when every message received so far is in \<open>M\<close>; its rules
  are the branches of the handlers with the bookkeeping (timers, hints, client tables, identifiers)
  left out. The handlers are sequences of such transitions, so a property of \<^verbatim>\<open>step\<close> is proved
  rule by rule.
\<close>

section \<open>Transitions\<close>

definition core :: "RaftNode \<Rightarrow> RaftNode" where
  "core n = n\<lparr>rn_leader_hint := None, rn_pending_clients := fmempty, rn_pending_sessions := fmempty,
     rn_deferred_events := [], rn_next_storage_op_id := 0, rn_next_rpc_id := 0,
     rn_election_generation := 0, rn_heartbeat_generation := 0, rn_started := False\<rparr>"

definition stepped :: "Term \<Rightarrow> RaftNode \<Rightarrow> RaftNode" where
  "stepped t n = n\<lparr>rn_hard_state := (if t > rn_term n then \<lparr>hs_current_term = t, hs_voted_for = None\<rparr> else rn_hard_state n),
     rn_role := Follower, rn_leader_ready := False, rn_readiness_index := 0,
     rn_votes_received := {||}, rn_peers := fmempty\<rparr>"

definition pend :: "StorageOpId \<Rightarrow> PersistBatch \<Rightarrow> AfterSuccess \<Rightarrow> RaftNode \<Rightarrow> RaftNode" where
  "pend op b k n = n\<lparr>rn_pending_storage := Some \<lparr>ps_op_id = op, ps_batch = b, ps_after_success = k\<rparr>\<rparr>"

definition hs_batch :: "HardState \<Rightarrow> PersistBatch" where
  "hs_batch hs = empty_batch\<lparr>pb_hard_state := Some hs\<rparr>"

text \<open>A node that can handle an event: no write outstanding, storage not failed.\<close>

definition idle :: "RaftNode \<Rightarrow> bool" where
  "idle n \<longleftrightarrow> rn_pending_storage n = None \<and> rn_role n \<noteq> Unavailable"

definition match_of :: "AppendEntries \<Rightarrow> LogIndex" where
  "match_of r = (if ae_entries r = [] then ae_prev_log_index r else ent_index (last (ae_entries r)))"

definition request_ok :: "RaftConfig \<Rightarrow> AppendEntries \<Rightarrow> bool" where
  "request_ok cfg r \<longleftrightarrow> ae_term r \<noteq> 0 \<and>
     entries_valid cfg (ae_term r) (ae_prev_log_index r) kAppendRpcOverhead (ae_entries r)"

text \<open>The node's log has the request's previous entry and all its entries.\<close>

definition holds_request :: "RaftNode \<Rightarrow> AppendEntries \<Rightarrow> bool" where
  "holds_request n r \<longleftrightarrow> request_ok (rn_config n) r \<and> ae_prev_log_index r \<le> last_log_index n \<and>
     term_at n (ae_prev_log_index r) = ae_prev_log_term r \<and>
     (\<forall>e \<in> set (ae_entries r). entry_at n (ent_index e) = Some e)"

definition from_peer :: "RaftNode \<Rightarrow> NodeId \<Rightarrow> bool" where
  "from_peer n p \<longleftrightarrow> p \<noteq> rn_id n \<and> p \<in> set (cfg_members (rn_config n))"

text \<open>The callbacks of a write that only records a higher term.\<close>

fun harmless :: "RaftNode \<Rightarrow> AfterSuccess \<Rightarrow> bool" where
  "harmless n AfterStepDown = True"
| "harmless n (AfterReject from rpc_id ci ct) = from_peer n from"
| "harmless n (AfterVoteReply from grant was_leader) = (\<not> grant \<and> from_peer n from)"
| "harmless n k = False"

definition received :: "MessageEnvelope set \<Rightarrow> RaftNode \<Rightarrow> NodeId \<Rightarrow> Message \<Rightarrow> bool" where
  "received M n p msg \<longleftrightarrow> \<lparr>env_from = p, env_to = rn_id n, env_message = msg\<rparr> \<in> M \<and> from_peer n p"

text \<open>The limits of the configuration on one \<^verbatim>\<open>AppendEntries\<close>.\<close>

definition append_fits :: "RaftConfig \<Rightarrow> AppendEntries \<Rightarrow> bool" where
  "append_fits cfg r \<longleftrightarrow> length (ae_entries r) \<le> cfg_max_append_entries_per_rpc cfg \<and>
     kAppendRpcOverhead + sum_list (map entry_bytes (ae_entries r)) \<le> cfg_max_append_bytes_per_rpc cfg"

text \<open>What a message may say, in terms of the sender's state.\<close>

fun may_send :: "MessageEnvelope set \<Rightarrow> RaftNode \<Rightarrow> NodeId \<Rightarrow> Message \<Rightarrow> bool" where
  "may_send M n to (MRequestVote r) \<longleftrightarrow> rn_role n = Candidate \<and>
     r = \<lparr>rv_term = rn_term n, rv_candidate_id = rn_id n, rv_last_log_index = last_log_index n,
          rv_last_log_term = term_at n (last_log_index n)\<rparr>"
| "may_send M n to (MRequestVoteResponse r) \<longleftrightarrow> rvr_term r = rn_term n \<and>
     (rvr_vote_granted r \<longrightarrow> rn_voted_for n = Some to)"
| "may_send M n to (MAppendEntries r) \<longleftrightarrow> rn_role n = Leader \<and> ae_term r = rn_term n \<and> ae_leader_id r = rn_id n \<and>
     ae_prev_log_term r = term_at n (ae_prev_log_index r) \<and> ae_leader_commit r = rn_commit_index n \<and>
     append_fits (rn_config n) r \<and>
     unat (ae_prev_log_index r) + length (ae_entries r) \<le> length (rn_log n) \<and>
     ae_entries r = take (length (ae_entries r)) (drop (unat (ae_prev_log_index r)) (rn_log n))"
| "may_send M n to (MAppendEntriesResponse r) \<longleftrightarrow> aer_term r = rn_term n \<and>
     (aer_success r \<longrightarrow> (\<exists>req. received M n to (MAppendEntries req) \<and> ae_term req = rn_term n \<and>
        holds_request n req \<and> aer_match_index r = match_of req))"

text \<open>What the optional raise of the term leaves of the node, and the log after the request's suffix.\<close>

definition raised :: "AppendEntries \<Rightarrow> RaftNode \<Rightarrow> RaftNode" where
  "raised r n = (if ae_term r > rn_term n \<or> rn_role n \<noteq> Follower then stepped (ae_term r) n else n)"

definition spliced :: "RaftNode \<Rightarrow> LogEntry list \<Rightarrow> LogEntry list" where
  "spliced n suffix = (if suffix = [] then rn_log n else take (unat (ent_index (hd suffix) - 1)) (rn_log n) @ suffix)"

definition accept_batch :: "AppendEntries \<Rightarrow> RaftNode \<Rightarrow> PersistBatch" where
  "accept_batch r n =
     (let suffix = new_suffix n (ae_entries r); commit = min (ae_leader_commit r) (match_of r) in
      \<lparr>pb_hard_state = (if ae_term r > rn_term n then Some \<lparr>hs_current_term = ae_term r, hs_voted_for = None\<rparr> else None),
       pb_truncate_from = (if suffix \<noteq> [] \<and> ent_index (hd suffix) \<le> last_log_index n
                           then Some (ent_index (hd suffix)) else None),
       pb_entries = suffix,
       pb_commit_index = (if commit > rn_commit_index n then Some commit else None)\<rparr>)"

definition accepted_node :: "AppendEntries \<Rightarrow> RaftNode \<Rightarrow> RaftNode" where
  "accepted_node r n = (raised r n)\<lparr>rn_log := spliced n (new_suffix n (ae_entries r)),
     rn_commit_index := max (rn_commit_index n) (min (ae_leader_commit r) (match_of r))\<rparr>"

definition keeps_match :: "RaftNode \<Rightarrow> PeerProgress \<Rightarrow> PeerProgress \<Rightarrow> bool" where
  "keeps_match n q q' \<longleftrightarrow> pp_match_index q' = pp_match_index q \<and>
     (case pp_inflight q' of None \<Rightarrow> True
      | Some a \<Rightarrow> pp_inflight q = Some a \<or> ia_last_index a \<le> last_log_index n)"

inductive lstep :: "MessageEnvelope set \<Rightarrow> RaftNode \<Rightarrow> MessageEnvelope list \<Rightarrow> RaftNode \<Rightarrow> bool"
  for M :: "MessageEnvelope set" where
  l_quiet: "core m = core n \<Longrightarrow> lstep M n [] m"
| l_fail: "lstep M n [] (make_unavailable n)"
| l_campaign: "idle n \<Longrightarrow> rn_role n \<noteq> Leader \<Longrightarrow> rn_term n \<noteq> -1 \<Longrightarrow>
    hs = \<lparr>hs_current_term = rn_term n + 1, hs_voted_for = Some (rn_id n)\<rparr> \<Longrightarrow>
    lstep M n [] (pend op (hs_batch hs) AfterElection
      (n\<lparr>rn_role := Candidate, rn_hard_state := hs, rn_leader_ready := False, rn_readiness_index := 0,
         rn_peers := fmempty, rn_votes_received := {|rn_id n|}\<rparr>))"
| l_grant: "idle n \<Longrightarrow> received M n from (MRequestVote r) \<Longrightarrow> rv_candidate_id r = from \<Longrightarrow> rv_term r \<noteq> 0 \<Longrightarrow>
    rv_term r \<ge> rn_term n \<Longrightarrow> n1 = (if rv_term r > rn_term n then stepped (rv_term r) n else n) \<Longrightarrow>
    rn_voted_for n1 = None \<Longrightarrow>
    candidate_is_up_to_date n1 (rv_last_log_index r) (rv_last_log_term r) \<Longrightarrow>
    hs = \<lparr>hs_current_term = rv_term r, hs_voted_for = Some from\<rparr> \<Longrightarrow>
    lstep M n [] (pend op (hs_batch hs) (AfterVoteReply from True wl) (n1\<lparr>rn_hard_state := hs\<rparr>))"
| l_observe: "idle n \<Longrightarrow> t > rn_term n \<Longrightarrow> harmless n k \<Longrightarrow>
    lstep M n [] (pend op (hs_batch \<lparr>hs_current_term = t, hs_voted_for = None\<rparr>) k (stepped t n))"
| l_yield: "idle n \<Longrightarrow> lstep M n [] (stepped (rn_term n) n)"
| l_tally: "idle n \<Longrightarrow> rn_role n = Candidate \<Longrightarrow> received M n from (MRequestVoteResponse r) \<Longrightarrow>
    rvr_term r = rn_term n \<Longrightarrow> rvr_vote_granted r \<Longrightarrow>
    lstep M n [] (n\<lparr>rn_votes_received := finsert from (rn_votes_received n)\<rparr>)"
| l_lead: "idle n \<Longrightarrow> rn_role n = Candidate \<Longrightarrow> fcard (rn_votes_received n) \<ge> quorum_size n \<Longrightarrow>
    fresh = \<lparr>pp_next_index = rn_durable_last_log_index n + 1, pp_match_index = 0,
             pp_inflight = None, pp_inflight_heartbeat_age = 0\<rparr> \<Longrightarrow>
    lstep M n [] (n\<lparr>rn_role := Leader, rn_leader_ready := False, rn_readiness_index := 0,
       rn_votes_received := {||}, rn_peers := fmap_of_list (map (\<lambda>m. (m, fresh)) (peer_ids n))\<rparr>)"
| l_noop: "idle n \<Longrightarrow> rn_role n = Leader \<Longrightarrow> last_log_index n \<noteq> -1 \<Longrightarrow>
    e = \<lparr>ent_index = last_log_index n + 1, ent_term = rn_term n, ent_command = None\<rparr> \<Longrightarrow> can_append n e \<Longrightarrow>
    \<not> rn_leader_ready n \<Longrightarrow>
    lstep M n [] (pend op (empty_batch\<lparr>pb_entries := [e]\<rparr>) AfterLeaderNoop
      (n\<lparr>rn_log := rn_log n @ [e], rn_readiness_index := ent_index e\<rparr>))"
| l_client: "idle n \<Longrightarrow> rn_role n = Leader \<Longrightarrow> rn_leader_ready n \<Longrightarrow> last_log_index n \<noteq> -1 \<Longrightarrow>
    command_ok (rn_config n) c \<Longrightarrow>
    e = \<lparr>ent_index = last_log_index n + 1, ent_term = rn_term n, ent_command = Some c\<rparr> \<Longrightarrow> can_append_client n e \<Longrightarrow>
    lstep M n [] (pend op (empty_batch\<lparr>pb_entries := [e]\<rparr>) AfterClientAppend (n\<lparr>rn_log := rn_log n @ [e]\<rparr>))"
| l_accept: "idle n \<Longrightarrow> received M n from (MAppendEntries r) \<Longrightarrow> ae_leader_id r = from \<Longrightarrow> ae_term r \<ge> rn_term n \<Longrightarrow>
    request_ok (rn_config n) r \<Longrightarrow> ae_prev_log_index r \<le> last_log_index n \<Longrightarrow>
    term_at n (ae_prev_log_index r) = ae_prev_log_term r \<Longrightarrow>
    (new_suffix n (ae_entries r) \<noteq> [] \<longrightarrow> ent_index (hd (new_suffix n (ae_entries r))) > rn_commit_index n) \<Longrightarrow>
    \<not> batch_empty (accept_batch r n) \<Longrightarrow>
    lstep M n [] (pend op (accept_batch r n)
      (AfterAccept from (ae_rpc_id r) (match_of r) (pb_commit_index (accept_batch r n) \<noteq> None)) (accepted_node r n))"
| l_send: "idle n \<Longrightarrow> may_send M n to msg \<Longrightarrow> from_peer n to \<Longrightarrow>
    lstep M n [\<lparr>env_from = rn_id n, env_to = to, env_message = msg\<rparr>] n"
| l_advance: "idle n \<Longrightarrow> rn_role n = Leader \<Longrightarrow> committable n target \<Longrightarrow> rn_commit_index n < target \<Longrightarrow>
    target \<le> rn_durable_last_log_index n \<Longrightarrow>
    lstep M n [] (pend op (empty_batch\<lparr>pb_commit_index := Some target\<rparr>) AfterCommit (n\<lparr>rn_commit_index := target\<rparr>))"
| l_apply: "idle n \<Longrightarrow> rn_last_applied n < rn_commit_index n \<Longrightarrow> entry_at n (rn_last_applied n + 1) = Some e \<Longrightarrow>
    lstep M n [] (n\<lparr>rn_last_applied := rn_last_applied n + 1, rn_state_machine := apply_entry (rn_state_machine n) e\<rparr>)"
| l_ready: "idle n \<Longrightarrow> rn_role n = Leader \<Longrightarrow> rn_readiness_index n \<noteq> 0 \<Longrightarrow> rn_last_applied n \<ge> rn_readiness_index n \<Longrightarrow>
    lstep M n [] (n\<lparr>rn_leader_ready := True\<rparr>)"
| l_progress: "idle n \<Longrightarrow> rn_role n = Leader \<Longrightarrow>
    (\<And>p. rel_option (keeps_match n) (fmlookup (rn_peers n) p) (fmlookup peers p)) \<Longrightarrow>
    lstep M n [] (n\<lparr>rn_peers := peers\<rparr>)"
| l_ack: "idle n \<Longrightarrow> rn_role n = Leader \<Longrightarrow> received M n from (MAppendEntriesResponse r) \<Longrightarrow>
    aer_term r = rn_term n \<Longrightarrow> aer_success r \<Longrightarrow> fmlookup (rn_peers n) from = Some q \<Longrightarrow>
    pp_inflight q = Some sent \<Longrightarrow> ia_rpc_id sent = aer_rpc_id r \<Longrightarrow> ia_last_index sent \<le> aer_match_index r \<Longrightarrow>
    pp_match_index q' = max (pp_match_index q) (ia_last_index sent) \<Longrightarrow> pp_inflight q' = None \<Longrightarrow>
    lstep M n [] (set_peer from q' n)"

inductive lsteps :: "MessageEnvelope set \<Rightarrow> RaftNode \<Rightarrow> MessageEnvelope list \<Rightarrow> RaftNode \<Rightarrow> bool"
  for M :: "MessageEnvelope set" where
  ls_refl: "lsteps M n [] n"
| ls_step: "lstep M n ms m \<Longrightarrow> lsteps M m ms' k \<Longrightarrow> lsteps M n (ms @ ms') k"

end
