(* ===== verification/RaftInvariant.thy ===== *)
theory RaftInvariant
  imports RaftLocal
begin

text \<open>
  The invariant of one node and its preservation by every protocol transition: shape of the log,
  order of the cursors, the state machine as the replay of the applied prefix, what each role
  implies, and what an outstanding write is going to make durable.
\<close>

section \<open>Indices\<close>

lemma unat_of_nat_size [simp]: "k \<le> kSizeMax \<Longrightarrow> unat (of_nat k :: u64) = k"
  by (rule unat_of_nat64) (simp add: kSizeMax_def)

lemma unat_le_size [simp]: "unat (w :: u64) \<le> kSizeMax"
  using unsigned_less [of w, where 'a = nat] unfolding kSizeMax_def by (simp del: unat_less_64)

lemma unat_pred: "(w :: u64) \<noteq> 0 \<Longrightarrow> unat (w - 1) = unat w - 1"
  by (metis unat_minus_one)

lemma last_log_index_unat: "length (rn_log n) \<le> kSizeMax \<Longrightarrow> unat (last_log_index n) = length (rn_log n)"
  by (simp add: last_log_index_def)

lemma entry_at_iff:
  assumes "length (rn_log n) \<le> kSizeMax"
  shows "entry_at n i = Some e \<longleftrightarrow> i \<noteq> 0 \<and> unat i \<le> length (rn_log n) \<and> e = rn_log n ! (unat i - 1)"
  using assms by (auto simp: entry_at_def word_less_nat_alt last_log_index_unat unat_pred)

lemma entry_at_none:
  assumes "length (rn_log n) \<le> kSizeMax"
  shows "entry_at n i = None \<longleftrightarrow> i = 0 \<or> length (rn_log n) < unat i"
  using assms by (auto simp: entry_at_def word_less_nat_alt last_log_index_unat)

lemma entry_at_of_nat:
  assumes "length (rn_log n) \<le> kSizeMax" "i < length (rn_log n)"
  shows "entry_at n (of_nat (Suc i)) = Some (rn_log n ! i)"
proof -
  have u: "unat (of_nat (Suc i) :: u64) = Suc i" using assms by (intro unat_of_nat_size) simp
  then have "of_nat (Suc i) \<noteq> (0 :: u64)" by (metis unat_0 nat.simps(3))
  with u assms show ?thesis by (simp only: entry_at_iff diff_Suc_1 Suc_le_eq) simp
qed

lemma entry_at_log_cong: "rn_log m = rn_log n \<Longrightarrow> entry_at m = entry_at n"
  by (simp add: entry_at_def last_log_index_def fun_eq_iff)

lemma term_at_log_cong: "rn_log m = rn_log n \<Longrightarrow> term_at m = term_at n"
  using entry_at_log_cong [of m n] by (simp add: term_at_def fun_eq_iff)

lemma last_log_index_log_cong: "rn_log m = rn_log n \<Longrightarrow> last_log_index m = last_log_index n"
  by (simp add: last_log_index_def)

section \<open>The invariant\<close>

definition entry_wf :: "RaftConfig \<Rightarrow> Term \<Rightarrow> nat \<Rightarrow> LogEntry \<Rightarrow> bool" where
  "entry_wf cfg t i e \<longleftrightarrow> ent_index e = of_nat (Suc i) \<and> ent_term e \<noteq> 0 \<and> ent_term e \<le> t \<and>
     (case ent_command e of None \<Rightarrow> True | Some c \<Rightarrow> command_ok cfg c)"

definition log_wf :: "RaftConfig \<Rightarrow> Term \<Rightarrow> LogEntry list \<Rightarrow> bool" where
  "log_wf cfg t l \<longleftrightarrow> length l \<le> kSizeMax \<and> (\<forall>i < length l. entry_wf cfg t i (l ! i))"

definition votes_ok :: "MessageEnvelope set \<Rightarrow> RaftNode \<Rightarrow> bool" where
  "votes_ok M n \<longleftrightarrow> (\<forall>v. v |\<in>| rn_votes_received n \<longrightarrow> v = rn_id n \<or>
     (\<exists>r. received M n v (MRequestVoteResponse r) \<and> rvr_term r = rn_term n \<and> rvr_vote_granted r))"

text \<open>A successful reply of the current term that covers the index has come from the peer.\<close>

definition acked :: "MessageEnvelope set \<Rightarrow> RaftNode \<Rightarrow> NodeId \<Rightarrow> LogIndex \<Rightarrow> bool" where
  "acked M n p i \<longleftrightarrow> (\<exists>r. received M n p (MAppendEntriesResponse r) \<and> aer_success r \<and>
     aer_term r = rn_term n \<and> i \<le> aer_match_index r)"

definition peers_ok :: "MessageEnvelope set \<Rightarrow> RaftNode \<Rightarrow> bool" where
  "peers_ok M n \<longleftrightarrow> (\<forall>p q. fmlookup (rn_peers n) p = Some q \<longrightarrow> from_peer n p \<and>
     pp_match_index q \<le> last_log_index n \<and> (pp_match_index q = 0 \<or> acked M n p (pp_match_index q)) \<and>
     (\<forall>a. pp_inflight q = Some a \<longrightarrow> ia_last_index a \<le> last_log_index n))"

definition role_ok :: "MessageEnvelope set \<Rightarrow> RaftNode \<Rightarrow> bool" where
  "role_ok M n \<longleftrightarrow>
     (rn_role n = Candidate \<longrightarrow> rn_voted_for n = Some (rn_id n) \<and> votes_ok M n) \<and>
     (rn_role n = Leader \<longrightarrow> rn_voted_for n = Some (rn_id n) \<and> peers_ok M n) \<and>
     (rn_role n \<noteq> Leader \<longrightarrow> rn_peers n = fmempty \<and> \<not> rn_leader_ready n) \<and>
     (rn_role n = Leader \<and> rn_readiness_index n \<noteq> 0 \<longrightarrow>
        rn_readiness_index n \<le> last_log_index n \<and> term_at n (rn_readiness_index n) = rn_term n) \<and>
     (rn_leader_ready n \<longrightarrow> rn_readiness_index n \<noteq> 0 \<and> rn_readiness_index n \<le> rn_last_applied n)"

fun callback_ok :: "MessageEnvelope set \<Rightarrow> RaftNode \<Rightarrow> AfterSuccess \<Rightarrow> bool" where
  "callback_ok M n (AfterVoteReply from grant was_leader) \<longleftrightarrow>
     from_peer n from \<and> (grant \<longrightarrow> rn_voted_for n = Some from)"
| "callback_ok M n (AfterReject from rpc_id ci ct) \<longleftrightarrow> from_peer n from"
| "callback_ok M n (AfterAccept from rpc_id match_index apply_now) \<longleftrightarrow>
     (\<exists>r. received M n from (MAppendEntries r) \<and> ae_term r = rn_term n \<and> holds_request n r \<and>
          match_index = match_of r)"
| "callback_ok M n AfterCommit \<longleftrightarrow> rn_role n = Leader \<and> committable n (rn_commit_index n)"
| "callback_ok M n AfterLeaderNoop \<longleftrightarrow>
     uncommitted_entry_count n \<le> cfg_max_uncommitted_entries (rn_config n) \<and>
     uncommitted_bytes n \<le> cfg_max_uncommitted_bytes (rn_config n)"
| "callback_ok M n AfterClientAppend \<longleftrightarrow>
     uncommitted_entry_count n < cfg_max_uncommitted_entries (rn_config n) \<and>
     uncommitted_bytes n + kEntryOverhead \<le> cfg_max_uncommitted_bytes (rn_config n)"
| "callback_ok M n k \<longleftrightarrow> True"

definition durable_ok :: "RaftNode \<Rightarrow> PersistBatch \<Rightarrow> bool" where
  "durable_ok n b \<longleftrightarrow>
     (case pb_hard_state b of None \<Rightarrow> rn_durable_hard_state n = rn_hard_state n | Some hs \<Rightarrow> hs = rn_hard_state n) \<and>
     (pb_truncate_from b = None \<and> pb_entries b = [] \<longrightarrow> rn_durable_last_log_index n = last_log_index n) \<and>
     (case pb_commit_index b of None \<Rightarrow> rn_durable_commit_index n = rn_commit_index n | Some c \<Rightarrow> c = rn_commit_index n)"

text \<open>A leader's batch with a commit record is that of \<^verbatim>\<open>maybe_advance_commit\<close> and holds nothing else of the log.\<close>

definition leader_batch_ok :: "RaftNode \<Rightarrow> PersistBatch \<Rightarrow> AfterSuccess \<Rightarrow> bool" where
  "leader_batch_ok n b k \<longleftrightarrow> (rn_role n = Leader \<and> pb_commit_index b \<noteq> None \<longrightarrow>
     k = AfterCommit \<and> pb_truncate_from b = None \<and> pb_entries b = [])"

definition storage_ok :: "MessageEnvelope set \<Rightarrow> RaftNode \<Rightarrow> bool" where
  "storage_ok M n \<longleftrightarrow>
     (case rn_pending_storage n of
        None \<Rightarrow> rn_role n \<noteq> Unavailable \<longrightarrow> durable_ok n empty_batch
      | Some ps \<Rightarrow> rn_role n \<noteq> Unavailable \<and> \<not> batch_empty (ps_batch ps) \<and> durable_ok n (ps_batch ps) \<and>
          callback_ok M n (ps_after_success ps) \<and> leader_batch_ok n (ps_batch ps) (ps_after_success ps))"

definition node_inv :: "MessageEnvelope set \<Rightarrow> RaftNode \<Rightarrow> bool" where
  "node_inv M n \<longleftrightarrow> membership_ok (rn_config n) \<and> bounds_ok (rn_config n) \<and> \<not> rn_logic_error n \<and>
     log_wf (rn_config n) (rn_term n) (rn_log n) \<and>
     (\<forall>v. rn_voted_for n = Some v \<longrightarrow> rn_term n \<noteq> 0 \<and> v \<in> set (cfg_members (rn_config n))) \<and>
     rn_commit_index n \<le> last_log_index n \<and> rn_last_applied n \<le> rn_commit_index n \<and>
     rn_state_machine n = replay kv_empty (take (unat (rn_last_applied n)) (rn_log n)) \<and>
     role_ok M n \<and> storage_ok M n"

lemma node_invD:
  assumes "node_inv M n"
  shows "membership_ok (rn_config n)" "bounds_ok (rn_config n)" "\<not> rn_logic_error n"
    "log_wf (rn_config n) (rn_term n) (rn_log n)"
    "rn_voted_for n = Some v \<Longrightarrow> rn_term n \<noteq> 0 \<and> v \<in> set (cfg_members (rn_config n))"
    "rn_commit_index n \<le> last_log_index n" "rn_last_applied n \<le> rn_commit_index n"
    "rn_state_machine n = replay kv_empty (take (unat (rn_last_applied n)) (rn_log n))"
    "role_ok M n" "storage_ok M n" "length (rn_log n) \<le> kSizeMax"
  using assms by (auto simp: node_inv_def log_wf_def)

lemma received_mono: "received M n p msg \<Longrightarrow> M \<subseteq> M' \<Longrightarrow> received M' n p msg"
  by (auto simp: received_def)

lemma callback_ok_mono: "callback_ok M n k \<Longrightarrow> M \<subseteq> M' \<Longrightarrow> callback_ok M' n k"
  by (cases k) (auto intro: received_mono)

lemma votes_ok_mono: "votes_ok M n \<Longrightarrow> M \<subseteq> M' \<Longrightarrow> votes_ok M' n"
  unfolding votes_ok_def by (meson received_mono)

lemma acked_mono: "acked M n p i \<Longrightarrow> M \<subseteq> M' \<Longrightarrow> acked M' n p i"
  unfolding acked_def by (meson received_mono)

lemma peers_ok_mono: "peers_ok M n \<Longrightarrow> M \<subseteq> M' \<Longrightarrow> peers_ok M' n"
  unfolding peers_ok_def by (meson acked_mono)

lemma role_ok_mono: "role_ok M n \<Longrightarrow> M \<subseteq> M' \<Longrightarrow> role_ok M' n"
  unfolding role_ok_def by (metis votes_ok_mono peers_ok_mono)

lemma storage_ok_mono: "storage_ok M n \<Longrightarrow> M \<subseteq> M' \<Longrightarrow> storage_ok M' n"
  unfolding storage_ok_def by (cases "rn_pending_storage n") (auto intro: callback_ok_mono)

lemma node_inv_mono: "node_inv M n \<Longrightarrow> M \<subseteq> M' \<Longrightarrow> node_inv M' n"
  unfolding node_inv_def using role_ok_mono storage_ok_mono by blast

section \<open>Reading the log\<close>

text \<open>The queries as functions of the log alone, so that they see through updates of other fields.\<close>

definition entry_in :: "LogEntry list \<Rightarrow> LogIndex \<Rightarrow> LogEntry option" where
  "entry_in l i = (if i = 0 \<or> i > of_nat (length l) then None else Some (l ! unat (i - 1)))"

definition term_in :: "LogEntry list \<Rightarrow> LogIndex \<Rightarrow> Term" where
  "term_in l i = (case entry_in l i of None \<Rightarrow> 0 | Some e \<Rightarrow> ent_term e)"

lemma entry_at_log: "entry_at n = entry_in (rn_log n)"
  by (simp add: entry_at_def entry_in_def last_log_index_def fun_eq_iff)

lemma term_at_log: "term_at n = term_in (rn_log n)"
  by (simp add: term_at_def term_in_def entry_at_log fun_eq_iff)

lemmas at_log = entry_at_log term_at_log last_log_index_def

lemma entry_in_iff:
  "length l \<le> kSizeMax \<Longrightarrow> entry_in l i = Some e \<longleftrightarrow> i \<noteq> 0 \<and> unat i \<le> length l \<and> e = l ! (unat i - 1)"
  by (auto simp: entry_in_def word_less_nat_alt unat_pred)

lemma entry_in_none: "length l \<le> kSizeMax \<Longrightarrow> entry_in l i = None \<longleftrightarrow> i = 0 \<or> length l < unat i"
  by (auto simp: entry_in_def word_less_nat_alt)

lemma entry_in_append:
  assumes "length (l @ es) \<le> kSizeMax" "unat i \<le> length l"
  shows "entry_in (l @ es) i = entry_in l i"
proof (cases "i = 0")
  case False
  then have "0 < unat i" by (simp add: unat_gt_0)
  then have "unat i - 1 < length l" using assms(2) by simp
  moreover from False have "entry_in (l @ es) i = Some ((l @ es) ! (unat i - 1))"
    using assms by (subst entry_in_iff) auto
  moreover from False have "entry_in l i = Some (l ! (unat i - 1))"
    using assms by (subst entry_in_iff) auto
  ultimately show ?thesis by (simp add: nth_append)
qed (simp add: entry_in_def)

lemma term_in_append:
  "length (l @ es) \<le> kSizeMax \<Longrightarrow> unat i \<le> length l \<Longrightarrow> term_in (l @ es) i = term_in l i"
  by (simp add: term_in_def entry_in_append)

lemma log_wf_mono: "log_wf cfg t l \<Longrightarrow> t \<le> t' \<Longrightarrow> log_wf cfg t' l"
  by (auto simp: log_wf_def entry_wf_def)

lemma log_wf_size: "log_wf cfg t l \<Longrightarrow> length l \<le> kSizeMax"
  by (simp add: log_wf_def)

lemma log_wf_snoc:
  assumes "log_wf cfg t l" "length l < kSizeMax" "entry_wf cfg t (length l) e"
  shows "log_wf cfg t (l @ [e])"
  using assms by (auto simp: log_wf_def nth_append less_Suc_eq)

lemma not_last_index: "length l \<le> kSizeMax \<Longrightarrow> of_nat (length l) \<noteq> (-1 :: u64) \<Longrightarrow> length l < kSizeMax"
proof (rule ccontr)
  assume "length l \<le> kSizeMax" "of_nat (length l) \<noteq> (-1 :: u64)" "\<not> length l < kSizeMax"
  then have "length l = kSizeMax" by simp
  then have "of_nat (length l) = (-1 :: u64)" by (simp add: kSizeMax_def)
  with \<open>of_nat (length l) \<noteq> (-1 :: u64)\<close> show False by simp
qed

section \<open>Transitions that leave the log alone\<close>

text \<open>What \<open>callback_ok\<close> reads of a node.\<close>

lemma callback_ok_cong:
  assumes "rn_config m = rn_config n" "rn_log m = rn_log n" "rn_hard_state m = rn_hard_state n"
    "rn_commit_index m = rn_commit_index n" "rn_role m = rn_role n" "rn_peers m = rn_peers n"
  shows "callback_ok M m k = callback_ok M n k"
  using assms
  by (cases k) (simp_all add: received_def from_peer_def holds_request_def committable_def replicas_def
      quorum_size_def uncommitted_entry_count_def uncommitted_bytes_def at_log cong: option.case_cong)

lemma core_simps [simp]:
  "rn_config (core n) = rn_config n"
  "rn_role (core n) = rn_role n"
  "rn_hard_state (core n) = rn_hard_state n"
  "rn_durable_hard_state (core n) = rn_durable_hard_state n"
  "rn_log (core n) = rn_log n"
  "rn_durable_last_log_index (core n) = rn_durable_last_log_index n"
  "rn_commit_index (core n) = rn_commit_index n"
  "rn_durable_commit_index (core n) = rn_durable_commit_index n"
  "rn_last_applied (core n) = rn_last_applied n"
  "rn_state_machine (core n) = rn_state_machine n"
  "rn_leader_ready (core n) = rn_leader_ready n"
  "rn_readiness_index (core n) = rn_readiness_index n"
  "rn_votes_received (core n) = rn_votes_received n"
  "rn_peers (core n) = rn_peers n"
  "rn_pending_storage (core n) = rn_pending_storage n"
  "rn_logic_error (core n) = rn_logic_error n"
  by (simp_all add: core_def)

lemma core_reads [simp]:
  "from_peer (core n) = from_peer n" "received M (core n) = received M n"
  "last_log_index (core n) = last_log_index n" "entry_at (core n) = entry_at n" "term_at (core n) = term_at n"
  "holds_request (core n) = holds_request n" "acked M (core n) = acked M n"
  by (simp_all add: from_peer_def received_def acked_def holds_request_def at_log fun_eq_iff)

lemma acked_cong:
  "rn_config m = rn_config n \<Longrightarrow> rn_hard_state m = rn_hard_state n \<Longrightarrow> acked M m = acked M n"
  by (simp add: acked_def received_def from_peer_def fun_eq_iff)

lemma acked_update [simp]:
  "acked M (n\<lparr>rn_log := l\<rparr>) = acked M n" "acked M (n\<lparr>rn_commit_index := c\<rparr>) = acked M n"
  "acked M (n\<lparr>rn_log := l, rn_readiness_index := i\<rparr>) = acked M n"
  "acked M (n\<lparr>rn_last_applied := a, rn_state_machine := sm\<rparr>) = acked M n"
  "acked M (n\<lparr>rn_leader_ready := b\<rparr>) = acked M n" "acked M (n\<lparr>rn_peers := ps\<rparr>) = acked M n"
  "acked M (n\<lparr>rn_pending_storage := st\<rparr>) = acked M n"
  by (rule acked_cong; simp)+

lemma leader_batch_ok_simps [simp]:
  "rn_role n \<noteq> Leader \<Longrightarrow> leader_batch_ok n b k"
  "leader_batch_ok n (hs_batch hs) k" "leader_batch_ok n (empty_batch\<lparr>pb_entries := es\<rparr>) k"
  "leader_batch_ok n (empty_batch\<lparr>pb_commit_index := c\<rparr>) AfterCommit"
  "leader_batch_ok (core n) b k = leader_batch_ok n b k" "leader_batch_ok (pend op b' k' n) b k = leader_batch_ok n b k"
  by (simp_all add: leader_batch_ok_def hs_batch_def empty_batch_def pend_def)

lemma callback_ok_core [simp]: "callback_ok M (core n) k = callback_ok M n k"
  by (rule callback_ok_cong) simp_all

lemma node_inv_core: "node_inv M (core n) = node_inv M n"
proof -
  have "votes_ok M (core n) = votes_ok M n" "peers_ok M (core n) = peers_ok M n" "durable_ok (core n) = durable_ok n"
    by (simp_all add: votes_ok_def peers_ok_def durable_ok_def fun_eq_iff split: option.split)
  then show ?thesis by (simp add: node_inv_def role_ok_def storage_ok_def cong: option.case_cong)
qed

lemma inv_quiet: "node_inv M n \<Longrightarrow> core m = core n \<Longrightarrow> node_inv M m"
  by (metis node_inv_core)

lemma idle_durable:
  "node_inv M n \<Longrightarrow> idle n \<Longrightarrow> rn_durable_hard_state n = rn_hard_state n"
  "node_inv M n \<Longrightarrow> idle n \<Longrightarrow> rn_durable_last_log_index n = last_log_index n"
  "node_inv M n \<Longrightarrow> idle n \<Longrightarrow> rn_durable_commit_index n = rn_commit_index n"
  by (auto simp: node_inv_def storage_ok_def idle_def durable_ok_def empty_batch_def)

lemma inv_fail: "node_inv M n \<Longrightarrow> node_inv M (make_unavailable n)"
  by (simp add: node_inv_def make_unavailable_def role_ok_def storage_ok_def at_log)

text \<open>The parts of the invariant that a transition has to establish anew.\<close>

lemma node_invI:
  assumes "membership_ok (rn_config n)" "bounds_ok (rn_config n)" "\<not> rn_logic_error n"
    "log_wf (rn_config n) (rn_term n) (rn_log n)"
    "\<And>v. rn_voted_for n = Some v \<Longrightarrow> rn_term n \<noteq> 0 \<and> v \<in> set (cfg_members (rn_config n))"
    "rn_commit_index n \<le> last_log_index n" "rn_last_applied n \<le> rn_commit_index n"
    "rn_state_machine n = replay kv_empty (take (unat (rn_last_applied n)) (rn_log n))"
    "role_ok M n" "storage_ok M n"
  shows "node_inv M n"
  using assms by (simp add: node_inv_def)

lemma members_self: "membership_ok cfg \<Longrightarrow> cfg_node_id cfg \<in> set (cfg_members cfg)"
  by (simp add: membership_ok_def)

lemma succ_greater: "(t :: u64) \<noteq> -1 \<Longrightarrow> t < t + 1"
  by (simp add: word_less_nat_alt unat_succ64)

lemma stepped_simps [simp]:
  "rn_term (stepped t n) = max (rn_term n) t"
  "rn_config (stepped t n) = rn_config n" "rn_log (stepped t n) = rn_log n"
  "rn_commit_index (stepped t n) = rn_commit_index n" "rn_last_applied (stepped t n) = rn_last_applied n"
  "rn_state_machine (stepped t n) = rn_state_machine n" "rn_role (stepped t n) = Follower"
  "rn_leader_ready (stepped t n) = False" "rn_peers (stepped t n) = fmempty"
  "rn_logic_error (stepped t n) = rn_logic_error n" "rn_pending_storage (stepped t n) = rn_pending_storage n"
  "rn_durable_hard_state (stepped t n) = rn_durable_hard_state n"
  "rn_durable_last_log_index (stepped t n) = rn_durable_last_log_index n"
  "rn_durable_commit_index (stepped t n) = rn_durable_commit_index n"
  by (auto simp: stepped_def max_def)

lemma role_ok_follower:
  "rn_role n = Follower \<Longrightarrow> rn_peers n = fmempty \<Longrightarrow> \<not> rn_leader_ready n \<Longrightarrow> role_ok M n"
  by (simp add: role_ok_def)

lemma storage_ok_pend:
  assumes "rn_role n \<noteq> Unavailable" "\<not> batch_empty b" "durable_ok n b" "callback_ok M n k" "leader_batch_ok n b k"
  shows "storage_ok M (pend op b k n)"
proof -
  have "durable_ok (pend op b k n) b = durable_ok n b" by (simp add: durable_ok_def pend_def at_log split: option.split)
  moreover have "callback_ok M (pend op b k n) k = callback_ok M n k"
    by (rule callback_ok_cong) (simp_all add: pend_def)
  moreover have "leader_batch_ok (pend op b k n) b k" using assms(5) by simp
  ultimately show ?thesis using assms(1,2) by (simp only: assms(3,4)) (simp add: storage_ok_def pend_def)
qed

lemma node_inv_pend:
  assumes "membership_ok (rn_config n)" "bounds_ok (rn_config n)" "\<not> rn_logic_error n"
    "log_wf (rn_config n) (rn_term n) (rn_log n)"
    "\<And>v. rn_voted_for n = Some v \<Longrightarrow> rn_term n \<noteq> 0 \<and> v \<in> set (cfg_members (rn_config n))"
    "rn_commit_index n \<le> last_log_index n" "rn_last_applied n \<le> rn_commit_index n"
    "rn_state_machine n = replay kv_empty (take (unat (rn_last_applied n)) (rn_log n))"
    "role_ok M n" "rn_role n \<noteq> Unavailable" "\<not> batch_empty b" "durable_ok n b" "callback_ok M n k" "leader_batch_ok n b k"
  shows "node_inv M (pend op b k n)"
proof -
  have "role_ok M (pend op b k n) = role_ok M n"
    by (simp add: pend_def role_ok_def votes_ok_def peers_ok_def received_def from_peer_def at_log)
  with assms storage_ok_pend [OF assms(10-14)] show ?thesis
    by (intro node_invI) (simp_all add: pend_def at_log)
qed

lemma hs_batch_simps [simp]:
  "\<not> batch_empty (hs_batch hs)"
  "durable_ok n (hs_batch hs) \<longleftrightarrow> hs = rn_hard_state n \<and> rn_durable_last_log_index n = last_log_index n \<and>
     rn_durable_commit_index n = rn_commit_index n"
  by (auto simp: hs_batch_def empty_batch_def batch_empty_def durable_ok_def)

lemma inv_campaign:
  assumes inv: "node_inv M n" and idle: "idle n" and "rn_term n \<noteq> -1"
    and hs: "hs = \<lparr>hs_current_term = rn_term n + 1, hs_voted_for = Some (rn_id n)\<rparr>"
  shows "node_inv M (pend op (hs_batch hs) AfterElection
      (n\<lparr>rn_role := Candidate, rn_hard_state := hs, rn_leader_ready := False, rn_readiness_index := 0,
         rn_peers := fmempty, rn_votes_received := {|rn_id n|}\<rparr>))" (is "node_inv M (pend op ?b ?k ?m)")
proof (rule node_inv_pend)
  note D = node_invD [OF inv] and dur = idle_durable [OF inv idle]
  show "role_ok M ?m" by (simp add: role_ok_def hs votes_ok_def)
  show "log_wf (rn_config ?m) (rn_term ?m) (rn_log ?m)"
    using log_wf_mono [OF D(4)] succ_greater [OF assms(3)] by (simp add: hs order.strict_implies_order)
  show "rn_term ?m \<noteq> 0 \<and> v \<in> set (cfg_members (rn_config ?m))" if "rn_voted_for ?m = Some v" for v
    using that members_self [OF D(1)] succ_greater [OF assms(3)] by (auto simp: hs)
qed (use node_invD [OF inv] idle_durable [OF inv idle] in \<open>simp_all add: at_log\<close>)

lemma from_peer_simps [simp]: "from_peer (stepped t n) = from_peer n"
  by (simp add: from_peer_def fun_eq_iff)

lemma inv_grant:
  assumes inv: "node_inv M n" and idle: "idle n" and rcv: "received M n from (MRequestVote r)"
    and t: "rv_term r \<noteq> 0" "rv_term r \<ge> rn_term n"
    and n1: "n1 = (if rv_term r > rn_term n then stepped (rv_term r) n else n)"
    and vote: "rn_voted_for n1 = None"
    and hs: "hs = \<lparr>hs_current_term = rv_term r, hs_voted_for = Some from\<rparr>"
  shows "node_inv M (pend op (hs_batch hs) (AfterVoteReply from True wl) (n1\<lparr>rn_hard_state := hs\<rparr>))"
    (is "node_inv M (pend op ?b ?k ?m)")
proof (rule node_inv_pend)
  note D = node_invD [OF inv] and dur = idle_durable [OF inv idle]
  have peer: "from_peer n from" using rcv by (simp add: received_def)
  then show "callback_ok M ?m ?k" by (auto simp: hs n1 from_peer_def stepped_def)
  have "rn_role n1 = Follower"
    using D(9) vote idle by (cases "rn_role n") (auto simp: n1 role_ok_def idle_def split: if_splits)
  moreover have "rn_peers n1 = fmempty" "\<not> rn_leader_ready n1"
    using D(9) calculation by (auto simp: n1 role_ok_def split: if_splits)
  ultimately show "role_ok M ?m" and "rn_role ?m \<noteq> Unavailable" by (simp_all add: role_ok_def)
  show "log_wf (rn_config ?m) (rn_term ?m) (rn_log ?m)"
    using log_wf_mono [OF D(4) t(2)] by (simp add: hs n1)
  show "rn_term ?m \<noteq> 0 \<and> v \<in> set (cfg_members (rn_config ?m))" if "rn_voted_for ?m = Some v" for v
    using that peer t(1) by (auto simp: hs n1 from_peer_def)
qed (use node_invD [OF inv] idle_durable [OF inv idle] in \<open>auto simp: n1 hs at_log\<close>)

lemma inv_observe:
  assumes inv: "node_inv M n" and idle: "idle n" and t: "t > rn_term n" and k: "harmless n k"
  shows "node_inv M (pend op (hs_batch \<lparr>hs_current_term = t, hs_voted_for = None\<rparr>) k (stepped t n))"
proof (rule node_inv_pend)
  show "callback_ok M (stepped t n) k" using k by (cases k) auto
  show "role_ok M (stepped t n)" by (simp add: role_ok_follower)
  show "log_wf (rn_config (stepped t n)) (rn_term (stepped t n)) (rn_log (stepped t n))"
    using log_wf_mono [OF node_invD(4) [OF inv]] by simp
  show "rn_term (stepped t n) \<noteq> 0 \<and> v \<in> set (cfg_members (rn_config (stepped t n)))"
    if "rn_voted_for (stepped t n) = Some v" for v
    using that t by (simp add: stepped_def)
qed (use node_invD [OF inv] idle_durable [OF inv idle] t in \<open>auto simp: at_log stepped_def\<close>)

lemma storage_ok_idle:
  assumes "node_inv M n" "idle n" "rn_pending_storage m = None"
    "rn_hard_state m = rn_hard_state n" "rn_log m = rn_log n" "rn_commit_index m = rn_commit_index n"
    "rn_durable_hard_state m = rn_durable_hard_state n"
    "rn_durable_last_log_index m = rn_durable_last_log_index n"
    "rn_durable_commit_index m = rn_durable_commit_index n"
  shows "storage_ok M m"
  using assms idle_durable [OF assms(1,2)]
  by (simp add: storage_ok_def durable_ok_def empty_batch_def last_log_index_def)

lemma inv_yield:
  assumes inv: "node_inv M n" and idle: "idle n"
  shows "node_inv M (stepped (rn_term n) n)"
proof (rule node_invI)
  show "storage_ok M (stepped (rn_term n) n)"
    by (rule storage_ok_idle [OF inv idle]) (use idle in \<open>simp_all add: stepped_def idle_def\<close>)
  show "role_ok M (stepped (rn_term n) n)" by (simp add: role_ok_follower)
qed (use node_invD [OF inv] in \<open>auto simp: at_log stepped_def\<close>)

lemma inv_tally:
  assumes inv: "node_inv M n" and idle: "idle n" and "rn_role n = Candidate"
    and "received M n from (MRequestVoteResponse r)" "rvr_term r = rn_term n" "rvr_vote_granted r"
  shows "node_inv M (n\<lparr>rn_votes_received := finsert from (rn_votes_received n)\<rparr>)" (is "node_inv M ?m")
proof (rule node_invI)
  show "storage_ok M ?m"
    by (rule storage_ok_idle [OF inv idle]) (use idle in \<open>simp_all add: idle_def\<close>)
  show "role_ok M ?m"
    using node_invD(9) [OF inv] assms(3-6) by (auto simp: role_ok_def votes_ok_def received_def from_peer_def)
qed (use node_invD [OF inv] in \<open>auto simp: at_log\<close>)

lemma fmlookup_fresh_peers:
  "fmlookup (fmap_of_list (map (\<lambda>m. (m, q)) ps)) p = (if p \<in> set ps then Some q else None)"
  by (induction ps) auto

lemma from_peer_ids: "p \<in> set (peer_ids n) \<longleftrightarrow> from_peer n p"
  by (auto simp: peer_ids_def from_peer_def)

lemma inv_lead:
  assumes inv: "node_inv M n" and idle: "idle n" and "rn_role n = Candidate"
    and fresh: "fresh = \<lparr>pp_next_index = rn_durable_last_log_index n + 1, pp_match_index = 0,
             pp_inflight = None, pp_inflight_heartbeat_age = 0\<rparr>"
  shows "node_inv M (n\<lparr>rn_role := Leader, rn_leader_ready := False, rn_readiness_index := 0,
       rn_votes_received := {||}, rn_peers := fmap_of_list (map (\<lambda>m. (m, fresh)) (peer_ids n))\<rparr>)"
    (is "node_inv M ?m")
proof (rule node_invI)
  show "storage_ok M ?m"
    by (rule storage_ok_idle [OF inv idle]) (use idle in \<open>simp_all add: idle_def\<close>)
  have "peers_ok M ?m"
    by (auto simp: peers_ok_def fmlookup_fresh_peers from_peer_ids fresh split: if_splits)
      (simp add: from_peer_def)
  then show "role_ok M ?m"
    using node_invD(9) [OF inv] assms(3) by (simp add: role_ok_def)
qed (use node_invD [OF inv] in \<open>auto simp: at_log\<close>)

text \<open>A leader's log with one more entry.\<close>

lemma role_ok_snoc:
  assumes inv: "node_inv M n" and lead: "rn_role n = Leader" and len: "length (rn_log n) < kSizeMax"
    and ready: "ready = rn_readiness_index n \<or> (ready = last_log_index n + 1 \<and> ent_term e = rn_term n \<and> \<not> rn_leader_ready n)"
  shows "role_ok M (n\<lparr>rn_log := rn_log n @ [e], rn_readiness_index := ready\<rparr>)" (is "role_ok M ?m")
proof -
  have role: "role_ok M n" using node_invD(9) [OF inv] .
  have grow: "last_log_index n \<le> last_log_index ?m"
    using len last_log_index_unat [of ?m] last_log_index_unat [of n] by (simp add: word_le_nat_alt)
  have last: "last_log_index ?m = last_log_index n + 1" by (simp add: last_log_index_def)
  have keep: "term_at ?m i = term_at n i" if "i \<le> last_log_index n" for i
    using that len by (simp add: term_at_log term_in_append word_le_nat_alt last_log_index_unat)
  have new: "term_at ?m (last_log_index n + 1) = ent_term e"
    using len entry_at_of_nat [of ?m "length (rn_log n)"]
    by (simp add: term_at_def last_log_index_def nth_append add.commute)
  have "peers_ok M ?m"
    using role lead order_trans [OF _ grow] by (auto simp: role_ok_def peers_ok_def from_peer_def)
  with role lead ready grow keep new last show ?thesis
    by (auto simp: role_ok_def intro: order_trans)
qed

lemma replay_prefix_snoc: "k \<le> length l \<Longrightarrow> replay m (take k (l @ es)) = replay m (take k l)"
  by simp

lemma applied_le_log:
  "node_inv M n \<Longrightarrow> unat (rn_last_applied n) \<le> unat (rn_commit_index n)"
  "node_inv M n \<Longrightarrow> unat (rn_commit_index n) \<le> length (rn_log n)"
  using node_invD(6,7,11) [of M n] by (simp_all add: word_le_nat_alt last_log_index_unat)

text \<open>The admission tests bound the uncommitted suffix, the new entry included.\<close>

lemma add_entry_bytes_snoc: "add_entry_bytes acc (es @ [e]) \<le> add_entry_bytes acc es + entry_bytes e"
  by (induction es arbitrary: acc) (auto simp: Let_def)

lemma uncommitted_snoc:
  assumes inv: "node_inv M n" and len: "length (rn_log n) < kSizeMax" and m: "rn_log m = rn_log n @ [e]" "rn_commit_index m = rn_commit_index n"
  shows "uncommitted_entry_count m = Suc (uncommitted_entry_count n)"
    "uncommitted_bytes m \<le> uncommitted_bytes n + entry_bytes e"
proof -
  have c: "unat (rn_commit_index n) \<le> length (rn_log n)" using applied_le_log(2) [OF inv] .
  have "unat (of_nat k - rn_commit_index n) = k - unat (rn_commit_index n)" if "unat (rn_commit_index n) \<le> k" "k \<le> kSizeMax" for k
    using that by (subst unat_sub) (simp_all add: word_le_nat_alt)
  from this [of "length (rn_log n)"] this [of "Suc (length (rn_log n))"] c len m
  show "uncommitted_entry_count m = Suc (uncommitted_entry_count n)"
    by (simp add: uncommitted_entry_count_def last_log_index_def Suc_diff_le del: of_nat_Suc)
  show "uncommitted_bytes m \<le> uncommitted_bytes n + entry_bytes e"
    using c m add_entry_bytes_snoc by (simp add: uncommitted_bytes_def)
qed

lemma room_left: "node_inv M n \<Longrightarrow> last_log_index n \<noteq> -1 \<Longrightarrow> length (rn_log n) < kSizeMax"
  using not_last_index [OF node_invD(11)] by (simp add: last_log_index_def)

lemma noop_admitted:
  assumes "node_inv M n" "last_log_index n \<noteq> -1" "can_append n e"
  shows "callback_ok M (n\<lparr>rn_log := rn_log n @ [e], rn_readiness_index := ready\<rparr>) AfterLeaderNoop"
  using uncommitted_snoc [OF assms(1) room_left [OF assms(1,2)], of "n\<lparr>rn_log := rn_log n @ [e], rn_readiness_index := ready\<rparr>" e]
    assms(3) by (simp add: can_append_def Let_def split: if_splits) linarith

lemma client_admitted:
  assumes "node_inv M n" "last_log_index n \<noteq> -1" "can_append_client n e"
  shows "callback_ok M (n\<lparr>rn_log := rn_log n @ [e], rn_readiness_index := ready\<rparr>) AfterClientAppend"
  using uncommitted_snoc [OF assms(1) room_left [OF assms(1,2)], of "n\<lparr>rn_log := rn_log n @ [e], rn_readiness_index := ready\<rparr>" e]
    assms(3) by (simp add: can_append_client_def Let_def split: if_splits) linarith

lemma inv_append:
  assumes inv: "node_inv M n" and idle: "idle n" and lead: "rn_role n = Leader"
    and room: "last_log_index n \<noteq> -1"
    and e: "e = \<lparr>ent_index = last_log_index n + 1, ent_term = rn_term n, ent_command = c\<rparr>"
    and c: "case c of None \<Rightarrow> True | Some cmd \<Rightarrow> command_ok (rn_config n) cmd"
    and ready: "ready = rn_readiness_index n \<or> (ready = last_log_index n + 1 \<and> \<not> rn_leader_ready n)"
    and k: "callback_ok M (n\<lparr>rn_log := rn_log n @ [e], rn_readiness_index := ready\<rparr>) k"
  shows "node_inv M (pend op (empty_batch\<lparr>pb_entries := [e]\<rparr>) k
     (n\<lparr>rn_log := rn_log n @ [e], rn_readiness_index := ready\<rparr>))" (is "node_inv M (pend op ?b k ?m)")
proof (rule node_inv_pend)
  note D = node_invD [OF inv] and dur = idle_durable [OF inv idle]
  have len: "length (rn_log n) < kSizeMax" using not_last_index [OF D(11)] room by (simp add: last_log_index_def)
  show "role_ok M ?m" by (rule role_ok_snoc [OF inv lead len]) (use ready in \<open>auto simp: e\<close>)
  have "rn_term n \<noteq> 0" using D(5,9) lead by (auto simp: role_ok_def)
  then show "log_wf (rn_config ?m) (rn_term ?m) (rn_log ?m)"
    using D(4) len c by (simp add: log_wf_snoc entry_wf_def e last_log_index_def)
  show "rn_commit_index ?m \<le> last_log_index ?m"
    using applied_le_log [OF inv] len last_log_index_unat [of ?m] by (simp add: word_le_nat_alt)
  show "callback_ok M ?m k" by (rule k)
  show "durable_ok ?m ?b" using dur by (simp add: durable_ok_def empty_batch_def)
  show "leader_batch_ok ?m ?b k" by (rule leader_batch_ok_simps)
qed (use node_invD [OF inv] lead applied_le_log [OF inv] in
      \<open>auto simp: batch_empty_def empty_batch_def simp flip: One_nat_def\<close>)

section \<open>Accepting entries\<close>

lemma entries_valid_spec:
  "entries_valid cfg t p b es \<Longrightarrow>
     unat p + length es \<le> kSizeMax \<and> (\<forall>i < length es. entry_wf cfg t (unat p + i) (es ! i))"
proof (induction es arbitrary: p b)
  case (Cons e es)
  then have p: "p \<noteq> -1" and rest: "entries_valid cfg t (p + 1) (b + entry_bytes e) es" by simp_all
  have u: "unat (p + 1) = Suc (unat p)" by (rule unat_succ64 [OF p])
  have "entry_wf cfg t (unat p) e" using Cons.prems by (simp add: entry_wf_def)
  with Cons.IH [OF rest] u show ?case by (auto simp: nth_Cons split: nat.split)
qed simp

lemma new_suffix_spec:
  assumes "length (rn_log n) \<le> kSizeMax" "p \<le> length (rn_log n)" "p + length es \<le> kSizeMax"
    "\<And>i. i < length es \<Longrightarrow> ent_index (es ! i) = of_nat (Suc (p + i))"
  shows "\<exists>k \<le> length es. new_suffix n es = drop k es \<and> p + k \<le> length (rn_log n) \<and>
     take (p + k) (rn_log n) = take p (rn_log n) @ take k es \<and>
     (k < length es \<longrightarrow> p + k < length (rn_log n) \<longrightarrow> rn_log n ! (p + k) \<noteq> es ! k)"
  using assms(2-)
proof (induction es arbitrary: p)
  case (Cons e es)
  have idx: "ent_index e = of_nat (Suc p)" using Cons.prems(3) [of 0] by simp
  have u: "unat (of_nat (Suc p) :: u64) = Suc p" using Cons.prems(2) by (intro unat_of_nat_size) simp
  show ?case
  proof (cases "entry_at n (ent_index e) = Some e")
    case True
    then have p: "p < length (rn_log n)" "rn_log n ! p = e"
      using u unfolding idx entry_at_iff [OF assms(1)] by auto
    from p(1) Cons.prems(2,3) obtain k where k: "k \<le> length es" "new_suffix n es = drop k es"
      "Suc p + k \<le> length (rn_log n)" "take (Suc p + k) (rn_log n) = take (Suc p) (rn_log n) @ take k es"
      "k < length es \<longrightarrow> Suc p + k < length (rn_log n) \<longrightarrow> rn_log n ! (Suc p + k) \<noteq> es ! k"
      using Cons.IH [of "Suc p"] by fastforce
    with p True show ?thesis by (intro exI [of _ "Suc k"]) (simp add: take_Suc_conv_app_nth)
  next
    case False
    then have "\<not> (p < length (rn_log n) \<and> rn_log n ! p = e)"
      using u entry_at_of_nat [OF assms(1)] unfolding idx by metis
    with False Cons.prems show ?thesis by (intro exI [of _ 0]) auto
  qed
qed simp

lemma spliced_spec:
  assumes len: "length l \<le> kSizeMax" and p: "p \<le> length l" and size: "p + length es \<le> kSizeMax"
    and idx: "\<And>i. i < length es \<Longrightarrow> ent_index (es ! i) = of_nat (Suc (p + i))" and l: "l = rn_log n"
    and ne: "new_suffix n es \<noteq> []"
  shows "spliced n (new_suffix n es) = take p l @ es" "take p l @ es \<noteq> l"
    "ent_index (hd (new_suffix n es)) > c \<Longrightarrow> take (unat c) (take p l @ es) = take (unat c) l \<and> unat c \<le> p + length es"
proof -
  obtain k where k: "k \<le> length es" "new_suffix n es = drop k es" "p + k \<le> length l"
    "take (p + k) l = take p l @ take k es" "k < length es \<longrightarrow> p + k < length l \<longrightarrow> l ! (p + k) \<noteq> es ! k"
    using new_suffix_spec [of n p es] len p size idx unfolding l by blast
  have kk: "k < length es" using ne k(2) by simp
  have hd: "ent_index (hd (new_suffix n es)) = of_nat (Suc (p + k))"
    using idx [OF kk] by (simp only: k(2) hd_drop_conv_nth [OF kk])
  have u: "unat (of_nat (Suc (p + k)) :: u64) = Suc (p + k)" using kk size by (intro unat_of_nat_size) simp
  have nz: "of_nat (Suc (p + k)) \<noteq> (0 :: u64)" using u by (metis unat_0 nat.simps(3))
  have cut: "unat (of_nat (Suc (p + k)) - 1 :: u64) = p + k" using u nz by (metis unat_pred diff_Suc_1)
  have "spliced n (new_suffix n es) = take (p + k) l @ drop k es"
    unfolding spliced_def hd using ne cut by (simp add: k(2) l del: of_nat_Suc of_nat_add)
  then show "spliced n (new_suffix n es) = take p l @ es" using k(4) by simp
  have nth: "(take p l @ es) ! (p + k) = es ! k" using p by (simp add: nth_append)
  show "take p l @ es \<noteq> l"
  proof
    assume eq: "take p l @ es = l"
    then have "p + k < length l" using p kk by (metis add_less_cancel_left length_append length_take min.absorb2)
    with k(5) kk nth eq show False by simp
  qed
  show "take (unat c) (take p l @ es) = take (unat c) l \<and> unat c \<le> p + length es"
    if "ent_index (hd (new_suffix n es)) > c"
  proof -
    have c: "unat c \<le> p + k" using that u unfolding hd word_less_nat_alt by simp
    have "take (p + k) (take p l @ es) = take (p + k) l" using k(4) p by simp
    then have "take (unat c) (take p l @ es) = take (unat c) l" using c by (metis min.absorb1 take_take)
    with c kk show ?thesis by simp
  qed
qed

text \<open>What accepting a request makes of the log.\<close>

lemma accept_log_spec:
  assumes inv: "node_inv M n" and ok: "request_ok (rn_config n) r" and prev: "ae_prev_log_index r \<le> last_log_index n"
    and guard: "new_suffix n (ae_entries r) \<noteq> [] \<longrightarrow> ent_index (hd (new_suffix n (ae_entries r))) > rn_commit_index n"
  defines "p \<equiv> unat (ae_prev_log_index r)" and "es \<equiv> ae_entries r"
    and "l \<equiv> rn_log n" and "l' \<equiv> spliced n (new_suffix n (ae_entries r))"
  shows "p \<le> length l" "p + length es \<le> length l'" "take (p + length es) l' = take p l @ es"
    "l' = l \<or> l' = take p l @ es" "unat (match_of r) = p + length es"
    "take (unat (rn_commit_index n)) l' = take (unat (rn_commit_index n)) l"
    "unat (rn_commit_index n) \<le> length l'" "length l' \<le> kSizeMax"
    "\<And>i. i < length es \<Longrightarrow> entry_wf (rn_config n) (ae_term r) (p + i) (es ! i)"
    "new_suffix n es = [] \<longleftrightarrow> l' = l"
proof -
  have len: "length l \<le> kSizeMax" using node_invD(11) [OF inv] by (simp add: l_def)
  have com: "unat (rn_commit_index n) \<le> length l" using applied_le_log(2) [OF inv] by (simp add: l_def)
  show p: "p \<le> length l" using prev len by (simp add: p_def l_def word_le_nat_alt last_log_index_unat)
  have ev: "p + length es \<le> kSizeMax" "\<And>i. i < length es \<Longrightarrow> entry_wf (rn_config n) (ae_term r) (p + i) (es ! i)"
    using entries_valid_spec ok unfolding request_ok_def p_def es_def by blast+
  then show "\<And>i. i < length es \<Longrightarrow> entry_wf (rn_config n) (ae_term r) (p + i) (es ! i)" by blast
  have idx: "ent_index (es ! i) = of_nat (Suc (p + i))" if "i < length es" for i
    using ev(2) [OF that] by (simp add: entry_wf_def)
  show "unat (match_of r) = p + length es"
  proof (cases "es = []")
    case False
    then have "ent_index (last es) = of_nat (Suc (p + (length es - 1)))"
      using idx [of "length es - 1"] by (simp add: last_conv_nth)
    moreover have "Suc (p + (length es - 1)) = p + length es" using False by (cases es) auto
    ultimately show ?thesis using False ev(1) by (simp add: match_of_def es_def del: of_nat_Suc of_nat_add)
  qed (simp add: match_of_def es_def p_def)
  have same: "l' = l \<and> take (p + length es) l = take p l @ es \<and> p + length es \<le> length l" if "new_suffix n es = []"
    using that new_suffix_spec [of n p es] len p ev(1) idx
    by (auto simp: l'_def spliced_def l_def es_def)
  have l'_eq: "l' = spliced n (new_suffix n es)" by (simp add: l'_def es_def)
  note cut = spliced_spec [OF len p ev(1) idx meta_eq_to_obj_eq [OF l_def], folded l'_eq]
  show "l' = l \<or> l' = take p l @ es" "new_suffix n es = [] \<longleftrightarrow> l' = l"
    "p + length es \<le> length l'" "take (p + length es) l' = take p l @ es" "length l' \<le> kSizeMax"
    "take (unat (rn_commit_index n)) l' = take (unat (rn_commit_index n)) l" "unat (rn_commit_index n) \<le> length l'"
    using same cut guard len p ev(1) com unfolding es_def [symmetric] by (cases "new_suffix n es = []"; force)+
qed

lemma raised_simps [simp]:
  "rn_log (raised r n) = rn_log n" "rn_config (raised r n) = rn_config n"
  "rn_commit_index (raised r n) = rn_commit_index n" "rn_last_applied (raised r n) = rn_last_applied n"
  "rn_state_machine (raised r n) = rn_state_machine n" "rn_logic_error (raised r n) = rn_logic_error n"
  "rn_pending_storage (raised r n) = rn_pending_storage n" "rn_role (raised r n) = Follower"
  "rn_durable_hard_state (raised r n) = rn_durable_hard_state n"
  "rn_durable_last_log_index (raised r n) = rn_durable_last_log_index n"
  "rn_durable_commit_index (raised r n) = rn_durable_commit_index n"
  by (simp_all add: raised_def)

lemma raised_hard_state: "rn_term n \<le> ae_term r \<Longrightarrow> rn_hard_state (raised r n) =
    (if ae_term r > rn_term n then \<lparr>hs_current_term = ae_term r, hs_voted_for = None\<rparr> else rn_hard_state n)"
  by (simp add: raised_def stepped_def)

lemma raised_role_ok: "node_inv M n \<Longrightarrow> rn_peers (raised r n) = fmempty \<and> \<not> rn_leader_ready (raised r n)"
  using node_invD(9) [of M n] by (auto simp: raised_def role_ok_def)

lemma holds_accepted:
  assumes inv: "node_inv M n" and ok: "request_ok (rn_config n) r" and prev: "ae_prev_log_index r \<le> last_log_index n"
    and pt: "term_at n (ae_prev_log_index r) = ae_prev_log_term r"
    and guard: "new_suffix n (ae_entries r) \<noteq> [] \<longrightarrow> ent_index (hd (new_suffix n (ae_entries r))) > rn_commit_index n"
    and m: "rn_log m = spliced n (new_suffix n (ae_entries r))" "rn_config m = rn_config n"
  shows "holds_request m r"
proof -
  let ?p = "unat (ae_prev_log_index r)" let ?l = "rn_log n" let ?es = "ae_entries r"
  note L = accept_log_spec [OF inv ok prev guard, folded m(1)]
  have len: "length ?l \<le> kSizeMax" using node_invD(11) [OF inv] .
  have "take ?p (rn_log m) = take ?p (take (?p + length ?es) (rn_log m))" by (simp add: min_def)
  also have "\<dots> = take ?p (take ?p ?l @ ?es)" by (rule arg_cong [OF L(3)])
  also have "\<dots> = take ?p ?l" using L(1) by simp
  finally have "take ?p (rn_log m) = take ?p ?l" .
  then have "term_in (take ?p (rn_log m)) (ae_prev_log_index r) = term_in (take ?p ?l) (ae_prev_log_index r)" by simp
  then have "term_at m (ae_prev_log_index r) = ae_prev_log_term r"
    using pt L(1,2,8) len term_in_append [of "take ?p ?l" "drop ?p ?l"] term_in_append [of "take ?p (rn_log m)" "drop ?p (rn_log m)"]
    by (simp add: term_at_log)
  moreover have "entry_at m (ent_index e) = Some e" if "e \<in> set ?es" for e
  proof -
    obtain i where i: "i < length ?es" "e = ?es ! i" using \<open>e \<in> set ?es\<close> by (auto simp: in_set_conv_nth)
    have "rn_log m ! (?p + i) = take (?p + length ?es) (rn_log m) ! (?p + i)" using i by simp
    also have "\<dots> = e" using i L(1) by (simp add: L(3) nth_append)
    finally show ?thesis
      using entry_at_of_nat [of m "?p + i"] L(2,8) L(9) [OF i(1)] i by (simp add: entry_wf_def)
  qed
  ultimately show ?thesis
    using ok m(2) L(1,2,8) by (simp add: holds_request_def word_le_nat_alt last_log_index_unat)
qed

lemma accepted_log_wf:
  assumes inv: "node_inv M n" and ok: "request_ok (rn_config n) r" and prev: "ae_prev_log_index r \<le> last_log_index n"
    and guard: "new_suffix n (ae_entries r) \<noteq> [] \<longrightarrow> ent_index (hd (new_suffix n (ae_entries r))) > rn_commit_index n"
    and t: "rn_term n \<le> ae_term r"
  shows "log_wf (rn_config n) (ae_term r) (spliced n (new_suffix n (ae_entries r)))"
proof -
  let ?p = "unat (ae_prev_log_index r)"
  note L = accept_log_spec [OF inv ok prev guard] and wf = log_wf_mono [OF node_invD(4) [OF inv] t]
  from L(4) show ?thesis
  proof (elim disjE)
    assume "spliced n (new_suffix n (ae_entries r)) = rn_log n"
    with wf show ?thesis by metis
  next
    assume eq: "spliced n (new_suffix n (ae_entries r)) = take ?p (rn_log n) @ ae_entries r"
    have "entry_wf (rn_config n) (ae_term r) i ((take ?p (rn_log n) @ ae_entries r) ! i)"
      if "i < ?p + length (ae_entries r)" for i
      using that L(1) L(9) [of "i - ?p"] wf by (cases "i < ?p") (auto simp: nth_append log_wf_def)
    with eq L(1,8) show ?thesis by (simp add: log_wf_def)
  qed
qed

lemma accept_batch_simps [simp]:
  "pb_hard_state (accept_batch r n) =
     (if ae_term r > rn_term n then Some \<lparr>hs_current_term = ae_term r, hs_voted_for = None\<rparr> else None)"
  "pb_entries (accept_batch r n) = new_suffix n (ae_entries r)"
  "pb_commit_index (accept_batch r n) = (if min (ae_leader_commit r) (match_of r) > rn_commit_index n
     then Some (min (ae_leader_commit r) (match_of r)) else None)"
  by (simp_all add: accept_batch_def Let_def)

lemma accepted_simps [simp]:
  "rn_log (accepted_node r n) = spliced n (new_suffix n (ae_entries r))" "rn_config (accepted_node r n) = rn_config n"
  "rn_commit_index (accepted_node r n) = max (rn_commit_index n) (min (ae_leader_commit r) (match_of r))"
  "rn_last_applied (accepted_node r n) = rn_last_applied n" "rn_role (accepted_node r n) = Follower"
  "rn_state_machine (accepted_node r n) = rn_state_machine n" "rn_logic_error (accepted_node r n) = rn_logic_error n"
  "rn_hard_state (accepted_node r n) = rn_hard_state (raised r n)"
  "rn_peers (accepted_node r n) = rn_peers (raised r n)" "rn_leader_ready (accepted_node r n) = rn_leader_ready (raised r n)"
  "rn_durable_hard_state (accepted_node r n) = rn_durable_hard_state n"
  "rn_durable_last_log_index (accepted_node r n) = rn_durable_last_log_index n"
  "rn_durable_commit_index (accepted_node r n) = rn_durable_commit_index n"
  by (simp_all add: accepted_node_def)

lemma inv_accept:
  assumes inv: "node_inv M n" and idle: "idle n" and rcv: "received M n from (MAppendEntries r)"
    and t: "ae_term r \<ge> rn_term n" and ok: "request_ok (rn_config n) r" and prev: "ae_prev_log_index r \<le> last_log_index n"
    and pt: "term_at n (ae_prev_log_index r) = ae_prev_log_term r"
    and guard: "new_suffix n (ae_entries r) \<noteq> [] \<longrightarrow> ent_index (hd (new_suffix n (ae_entries r))) > rn_commit_index n"
    and ne: "\<not> batch_empty (accept_batch r n)"
  shows "node_inv M (pend op (accept_batch r n) (AfterAccept from rpc (match_of r) apply_now) (accepted_node r n))"
proof (rule node_inv_pend)
  note L = accept_log_spec [OF inv ok prev guard] and D = node_invD [OF inv] and dur = idle_durable [OF inv idle]
  have trm: "rn_term (accepted_node r n) = ae_term r" using t by (auto simp: raised_hard_state)
  have last: "unat (last_log_index (accepted_node r n)) = length (spliced n (new_suffix n (ae_entries r)))"
    using last_log_index_unat [of "accepted_node r n"] L(8) by simp
  have "holds_request (accepted_node r n) r" by (rule holds_accepted [OF inv ok prev pt guard]) simp_all
  moreover have "received M (accepted_node r n) from (MAppendEntries r)"
    using rcv by (simp add: received_def from_peer_def)
  ultimately show "callback_ok M (accepted_node r n) (AfterAccept from rpc (match_of r) apply_now)"
    using trm by auto
  show "log_wf (rn_config (accepted_node r n)) (rn_term (accepted_node r n)) (rn_log (accepted_node r n))"
    using accepted_log_wf [OF inv ok prev guard t] trm by simp
  show "role_ok M (accepted_node r n)" using raised_role_ok [OF inv] by (simp add: role_ok_follower)
  show "rn_commit_index (accepted_node r n) \<le> last_log_index (accepted_node r n)"
    using L(2,5,7) last by (auto simp: word_le_nat_alt max_def min_def)
  show "rn_last_applied (accepted_node r n) \<le> rn_commit_index (accepted_node r n)" using D(7) by (simp add: le_max_iff_disj)
  show "rn_state_machine (accepted_node r n) = replay kv_empty (take (unat (rn_last_applied (accepted_node r n))) (rn_log (accepted_node r n)))"
    using D(8) L(6) applied_le_log(1) [OF inv] by simp (metis min.absorb1 take_take)
  show "durable_ok (accepted_node r n) (accept_batch r n)"
    using dur t L(10) by (auto simp: durable_ok_def raised_hard_state max_def last_log_index_def)
  show "rn_term (accepted_node r n) \<noteq> 0 \<and> v \<in> set (cfg_members (rn_config (accepted_node r n)))"
    if "rn_voted_for (accepted_node r n) = Some v" for v
    using that ok D(5) [of v] t by (auto simp: request_ok_def raised_hard_state split: if_splits)
qed (use node_invD [OF inv] ne in simp_all)

section \<open>Commit, application and progress\<close>

lemma committable_le: "committable n i \<Longrightarrow> i \<le> last_log_index n"
  by (auto simp: committable_def entry_at_def not_less split: if_splits)

lemma inv_advance:
  assumes inv: "node_inv M n" and idle: "idle n" and lead: "rn_role n = Leader"
    and com: "committable n target" and more: "rn_commit_index n < target"
  shows "node_inv M (pend op (empty_batch\<lparr>pb_commit_index := Some target\<rparr>) AfterCommit (n\<lparr>rn_commit_index := target\<rparr>))"
    (is "node_inv M (pend op ?b ?k ?m)")
proof (rule node_inv_pend)
  show "role_ok M ?m"
    using node_invD(9) [OF inv] by (simp add: role_ok_def peers_ok_def votes_ok_def received_def from_peer_def at_log)
  show "callback_ok M ?m ?k"
    using com lead by (simp add: committable_def replicas_def quorum_size_def at_log split: option.splits)
  show "rn_commit_index ?m \<le> last_log_index ?m" using committable_le [OF com] by (simp add: last_log_index_def)
  show "durable_ok ?m ?b" using idle_durable [OF inv idle] by (simp add: durable_ok_def empty_batch_def last_log_index_def)
  show "leader_batch_ok ?m ?b ?k" by (rule leader_batch_ok_simps)
qed (use node_invD [OF inv] lead more in \<open>auto simp: batch_empty_def empty_batch_def\<close>)

lemma replay_step:
  "k < length l \<Longrightarrow> replay m (take (Suc k) l) = apply_entry (replay m (take k l)) (l ! k)"
  by (simp add: replay_def take_Suc_conv_app_nth)

lemma inv_apply:
  assumes inv: "node_inv M n" and idle: "idle n" and less: "rn_last_applied n < rn_commit_index n"
    and e: "entry_at n (rn_last_applied n + 1) = Some e"
  shows "node_inv M (n\<lparr>rn_last_applied := rn_last_applied n + 1, rn_state_machine := apply_entry (rn_state_machine n) e\<rparr>)"
    (is "node_inv M ?m")
proof (rule node_invI)
  note D = node_invD [OF inv]
  have u: "unat (rn_last_applied n + 1) = Suc (unat (rn_last_applied n))" by (rule unat_succ_less [OF less])
  then have k: "unat (rn_last_applied n) < length (rn_log n)" and e': "e = rn_log n ! unat (rn_last_applied n)"
    using e D(11) by (auto simp: entry_at_iff)
  show "rn_state_machine ?m = replay kv_empty (take (unat (rn_last_applied ?m)) (rn_log ?m))"
    using D(8) replay_step [OF k] u e' by simp
  show "rn_last_applied ?m \<le> rn_commit_index ?m" using less u by (simp add: word_le_nat_alt word_less_nat_alt)
  have "rn_last_applied n \<le> rn_last_applied n + 1" using u by (simp add: word_le_nat_alt)
  then show "role_ok M ?m"
    using D(9) by (auto simp: role_ok_def peers_ok_def votes_ok_def received_def from_peer_def at_log intro: order_trans)
  show "storage_ok M ?m"
    by (rule storage_ok_idle [OF inv idle]) (use idle in \<open>simp_all add: idle_def\<close>)
qed (use node_invD [OF inv] in \<open>auto simp: at_log\<close>)

lemma inv_ready:
  assumes inv: "node_inv M n" and idle: "idle n" and "rn_role n = Leader"
    and "rn_readiness_index n \<noteq> 0" "rn_last_applied n \<ge> rn_readiness_index n"
  shows "node_inv M (n\<lparr>rn_leader_ready := True\<rparr>)" (is "node_inv M ?m")
proof (rule node_invI)
  show "storage_ok M ?m" by (rule storage_ok_idle [OF inv idle]) (use idle in \<open>simp_all add: idle_def\<close>)
  show "role_ok M ?m"
    using node_invD(9) [OF inv] assms(3-5)
    by (simp add: role_ok_def peers_ok_def votes_ok_def received_def from_peer_def at_log)
qed (use node_invD [OF inv] in \<open>auto simp: at_log\<close>)

lemma inv_peers:
  assumes inv: "node_inv M n" and idle: "idle n" and lead: "rn_role n = Leader"
    and ok: "peers_ok M (n\<lparr>rn_peers := peers\<rparr>)"
  shows "node_inv M (n\<lparr>rn_peers := peers\<rparr>)" (is "node_inv M ?m")
proof (rule node_invI)
  show "storage_ok M ?m" by (rule storage_ok_idle [OF inv idle]) (use idle in \<open>simp_all add: idle_def\<close>)
  show "role_ok M ?m" using node_invD(9) [OF inv] lead ok by (simp add: role_ok_def at_log)
qed (use node_invD [OF inv] in \<open>auto simp: at_log\<close>)

lemma inv_progress:
  assumes inv: "node_inv M n" and idle: "idle n" and lead: "rn_role n = Leader"
    and rel: "\<And>p. rel_option (keeps_match n) (fmlookup (rn_peers n) p) (fmlookup peers p)"
  shows "node_inv M (n\<lparr>rn_peers := peers\<rparr>)"
proof (rule inv_peers [OF inv idle lead])
  have old: "peers_ok M n" using node_invD(9) [OF inv] lead by (simp add: role_ok_def)
  have "from_peer n p \<and> pp_match_index q \<le> last_log_index n \<and> (pp_match_index q = 0 \<or> acked M n p (pp_match_index q)) \<and>
      (\<forall>a. pp_inflight q = Some a \<longrightarrow> ia_last_index a \<le> last_log_index n)"
    if q: "fmlookup peers p = Some q" for p q
    using rel [of p] old q by (cases "fmlookup (rn_peers n) p") (auto simp: peers_ok_def keeps_match_def)
  then show "peers_ok M (n\<lparr>rn_peers := peers\<rparr>)" by (simp add: peers_ok_def from_peer_def last_log_index_def)
qed

lemma inv_ack:
  assumes inv: "node_inv M n" and idle: "idle n" and lead: "rn_role n = Leader"
    and r: "received M n from (MAppendEntriesResponse r)" "aer_term r = rn_term n" "aer_success r"
    and q: "fmlookup (rn_peers n) from = Some q" "pp_inflight q = Some sent" "ia_last_index sent \<le> aer_match_index r"
    and q': "pp_match_index q' = max (pp_match_index q) (ia_last_index sent)" "pp_inflight q' = None"
  shows "node_inv M (set_peer from q' n)"
  unfolding set_peer_def
proof (rule inv_peers [OF inv idle lead])
  have "acked M n from (ia_last_index sent)" using r q(3) by (auto simp: acked_def)
  moreover have "peers_ok M n" using node_invD(9) [OF inv] lead by (simp add: role_ok_def)
  ultimately show "peers_ok M (n\<lparr>rn_peers := fmupd from q' (rn_peers n)\<rparr>)"
    using q q' by (auto simp: peers_ok_def from_peer_def last_log_index_def max_def)
qed

section \<open>Preservation\<close>

theorem lstep_inv: "lstep M n ms m \<Longrightarrow> node_inv M n \<Longrightarrow> node_inv M m"
proof (induction rule: lstep.induct)
  case (l_noop n e op)
  then show ?case
    using inv_append [OF l_noop.prems l_noop(1,2,3,4) _ _ noop_admitted, of "ent_index e" op] by simp
next
  case (l_client n c e op)
  then show ?case
    using inv_append [OF l_client.prems l_client(1,2,4,6) _ _ client_admitted, of "rn_readiness_index n" op] by simp
qed (blast intro: inv_quiet inv_fail inv_campaign inv_grant inv_observe inv_yield inv_tally inv_lead inv_accept
    inv_advance inv_apply inv_ready inv_progress inv_ack)+

lemma lsteps_inv: "lsteps M n ms m \<Longrightarrow> node_inv M n \<Longrightarrow> node_inv M m"
  by (induction rule: lsteps.induct) (auto dest: lstep_inv)

section \<open>Completion and construction\<close>

definition completed :: "PendingStorage \<Rightarrow> RaftNode \<Rightarrow> RaftNode" where
  "completed ps n = mark_durable (ps_batch ps) (n\<lparr>rn_pending_storage := None\<rparr>)"

lemma completed_simps [simp]:
  "rn_config (completed ps n) = rn_config n" "rn_role (completed ps n) = rn_role n"
  "rn_hard_state (completed ps n) = rn_hard_state n" "rn_log (completed ps n) = rn_log n"
  "rn_commit_index (completed ps n) = rn_commit_index n" "rn_last_applied (completed ps n) = rn_last_applied n"
  "rn_state_machine (completed ps n) = rn_state_machine n" "rn_leader_ready (completed ps n) = rn_leader_ready n"
  "rn_readiness_index (completed ps n) = rn_readiness_index n" "rn_votes_received (completed ps n) = rn_votes_received n"
  "rn_peers (completed ps n) = rn_peers n" "rn_pending_storage (completed ps n) = None"
  "rn_logic_error (completed ps n) = rn_logic_error n" "last_log_index (completed ps n) = last_log_index n"
  by (simp_all add: completed_def mark_durable_def last_log_index_def)

lemma inv_complete:
  assumes inv: "node_inv M n" and ps: "rn_pending_storage n = Some ps"
  shows "node_inv M (completed ps n)" "idle (completed ps n)" "callback_ok M (completed ps n) (ps_after_success ps)"
proof -
  have st: "rn_role n \<noteq> Unavailable" "durable_ok n (ps_batch ps)" "callback_ok M n (ps_after_success ps)"
    using node_invD(10) [OF inv] ps by (simp_all add: storage_ok_def)
  then show "idle (completed ps n)" by (simp add: idle_def)
  show "callback_ok M (completed ps n) (ps_after_success ps)"
    using st(3) callback_ok_cong [of "completed ps n" n] by simp
  have "durable_ok (completed ps n) empty_batch"
    using st(2) by (auto simp: durable_ok_def empty_batch_def completed_def mark_durable_def last_log_index_def
        split: option.splits)
  moreover have "acked M (completed ps n) = acked M n" by (rule acked_cong) simp_all
  ultimately show "node_inv M (completed ps n)"
    using inv by (simp add: node_inv_def storage_ok_def role_ok_def votes_ok_def peers_ok_def received_def
        from_peer_def at_log)
qed

lemma recovered_log_wf:
  "recovered_log_ok cfg t (of_nat (Suc k)) l \<Longrightarrow> i < length l \<Longrightarrow> entry_wf cfg t (k + i) (l ! i)"
proof (induction l arbitrary: k i)
  case (Cons e l)
  then have e: "entry_wf cfg t k e" by (simp add: entry_wf_def)
  have "recovered_log_ok cfg t (of_nat (Suc (Suc k))) l" using Cons.prems(1) by (simp add: add.commute)
  from Cons.IH [OF this] Cons.prems(2) e show ?case by (cases i) auto
qed simp

lemma replay_committed_eq:
  assumes "length (rn_log n) \<le> kSizeMax" "rn_commit_index n \<le> last_log_index n" "rn_last_applied n \<le> rn_commit_index n"
    "rn_state_machine n = replay kv_empty (take (unat (rn_last_applied n)) (rn_log n))"
  shows "replay_committed n = n\<lparr>rn_last_applied := rn_commit_index n,
    rn_state_machine := replay kv_empty (take (unat (rn_commit_index n)) (rn_log n))\<rparr>"
  using assms
proof (induction n rule: replay_committed.induct)
  case (1 n)
  show ?case
  proof (cases "rn_last_applied n < rn_commit_index n")
    case True
    let ?n1 = "n\<lparr>rn_last_applied := rn_last_applied n + 1\<rparr>"
    have u: "unat (rn_last_applied n + 1) = Suc (unat (rn_last_applied n))" by (rule unat_succ_less [OF True])
    have k: "unat (rn_last_applied n) < length (rn_log n)"
      using True 1(3) last_log_index_unat [OF 1(2)] by (simp add: word_less_nat_alt word_le_nat_alt)
    have nz: "rn_last_applied n + 1 \<noteq> 0" using u by (metis unat_0 nat.simps(3))
    have e: "entry_at ?n1 (rn_last_applied ?n1) = Some (rn_log n ! unat (rn_last_applied n))"
      using u k nz 1(2) by (simp add: entry_at_iff)
    let ?m = "?n1\<lparr>rn_state_machine := apply_entry (rn_state_machine ?n1) (rn_log n ! unat (rn_last_applied n))\<rparr>"
    have "rn_last_applied ?m \<le> rn_commit_index ?m" using True u by (simp add: word_le_nat_alt word_less_nat_alt)
    moreover have "rn_state_machine ?m = replay kv_empty (take (unat (rn_last_applied ?m)) (rn_log ?m))"
      using 1(5) u replay_step [OF k] by simp
    ultimately have "replay_committed ?m = ?m\<lparr>rn_last_applied := rn_commit_index ?m,
        rn_state_machine := replay kv_empty (take (unat (rn_commit_index ?m)) (rn_log ?m))\<rparr>"
      using 1(1) [OF True refl] 1(2,3) e by (simp add: last_log_index_def)
    moreover have "replay_committed n = replay_committed ?m"
      using True e by (subst replay_committed.simps) (simp add: Let_def)
    ultimately show ?thesis by simp
  next
    case False
    with 1(4) have "rn_last_applied n = rn_commit_index n" by simp
    with 1(5) False show ?thesis by (subst replay_committed.simps) (cases n, simp)
  qed
qed

lemma new_raft_node_eq:
  assumes "new_raft_node config rec = Inr n"
  defines "cfg \<equiv> config\<lparr>cfg_members := sort (cfg_members config)\<rparr>"
  shows "n = (fresh_node cfg rec)\<lparr>rn_last_applied := rec_commit_index rec,
      rn_state_machine := replay kv_empty (take (unat (rec_commit_index rec)) (rec_log rec))\<rparr>"
    and "membership_ok cfg" "bounds_ok cfg" "length (rec_log rec) \<le> kSizeMax"
    "recovered_log_ok cfg (hs_current_term (rec_hard_state rec)) 1 (rec_log rec)"
    "rec_commit_index rec \<le> of_nat (length (rec_log rec))"
    "\<And>v. hs_voted_for (rec_hard_state rec) = Some v \<Longrightarrow> hs_current_term (rec_hard_state rec) \<noteq> 0 \<and> v \<in> set (cfg_members cfg)"
proof -
  have n: "n = replay_committed (fresh_node cfg rec)" and C: "membership_ok cfg" "bounds_ok cfg" "length (rec_log rec) \<le> kSizeMax"
    "recovered_log_ok cfg (hs_current_term (rec_hard_state rec)) 1 (rec_log rec)"
    "rec_commit_index rec \<le> of_nat (length (rec_log rec))"
    "\<And>v. hs_voted_for (rec_hard_state rec) = Some v \<Longrightarrow> hs_current_term (rec_hard_state rec) \<noteq> 0 \<and> v \<in> set (cfg_members cfg)"
    using assms(1) unfolding new_raft_node_def Let_def cfg_def [symmetric]
    by (auto split: if_splits option.splits)
  show "membership_ok cfg" "bounds_ok cfg" "length (rec_log rec) \<le> kSizeMax"
    "recovered_log_ok cfg (hs_current_term (rec_hard_state rec)) 1 (rec_log rec)"
    "rec_commit_index rec \<le> of_nat (length (rec_log rec))" by (fact C)+
  show "hs_current_term (rec_hard_state rec) \<noteq> 0 \<and> v \<in> set (cfg_members cfg)"
    if "hs_voted_for (rec_hard_state rec) = Some v" for v by (rule C(6) [OF that])
  show "n = (fresh_node cfg rec)\<lparr>rn_last_applied := rec_commit_index rec,
      rn_state_machine := replay kv_empty (take (unat (rec_commit_index rec)) (rec_log rec))\<rparr>"
    using replay_committed_eq [of "fresh_node cfg rec"] C(3,5) n
    by (simp add: fresh_node_def last_log_index_def replay_def)
qed

lemma new_raft_node_inv:
  assumes "new_raft_node config rec = Inr n"
  shows "node_inv M n"
proof -
  let ?cfg = "config\<lparr>cfg_members := sort (cfg_members config)\<rparr>"
  note C = new_raft_node_eq [OF assms]
  have wf: "log_wf ?cfg (hs_current_term (rec_hard_state rec)) (rec_log rec)"
    using C(4) recovered_log_wf [of ?cfg _ 0 "rec_log rec"] C(5) by (simp add: log_wf_def)
  show ?thesis
  proof (rule node_invI)
    show "role_ok M n" by (rule role_ok_follower) (simp_all add: C(1) fresh_node_def)
    show "storage_ok M n" by (simp add: C(1) fresh_node_def storage_ok_def durable_ok_def empty_batch_def last_log_index_def)
  qed (use C(2-7) wf in \<open>simp_all add: C(1) fresh_node_def last_log_index_def\<close>)
qed

end
