(* ===== verification/RaftHandlers.thy ===== *)
theory RaftHandlers
  imports RaftInvariant
begin

text \<open>
  Every handler of \<^verbatim>\<open>src/raft.cpp\<close>, run on a node that satisfies the invariant, is a sequence of
  the transitions of \<open>lstep\<close>, and the messages of those transitions are exactly the ones among its
  effects. With \<open>lsteps_inv\<close> this carries the invariant through \<^verbatim>\<open>step\<close>.
\<close>

section \<open>Acts as sequences of transitions\<close>

fun sends :: "RaftEffect list \<Rightarrow> MessageEnvelope list" where
  "sends [] = []"
| "sends (SendEffect env # es) = env # sends es"
| "sends (e # es) = sends es"

lemma sends_append [simp]: "sends (xs @ ys) = sends xs @ sends ys"
  by (induction xs rule: sends.induct) auto

lemma in_sends: "env \<in> set (sends es) \<longleftrightarrow> SendEffect env \<in> set es"
  by (induction es rule: sends.induct) auto

definition does :: "MessageEnvelope set \<Rightarrow> Act \<Rightarrow> RaftNode \<Rightarrow> bool" where
  "does M a n \<longleftrightarrow> lsteps M n (sends (snd (a n))) (fst (a n))"

lemma lsteps_trans: "lsteps M n ms m \<Longrightarrow> lsteps M m ms' k \<Longrightarrow> lsteps M n (ms @ ms') k"
  by (induction rule: lsteps.induct) (auto intro: lsteps.intros)

lemma lsteps_one: "lstep M n ms m \<Longrightarrow> lsteps M n ms m"
  using ls_step [OF _ ls_refl, of M n ms m] by simp

lemma lsteps_quiet: "core m = core n \<Longrightarrow> lsteps M n [] m"
  by (rule lsteps_one [OF l_quiet])

lemma lsteps_trans_silent: "lsteps M n [] m \<Longrightarrow> lsteps M m ms k \<Longrightarrow> lsteps M n ms k"
  using lsteps_trans [of M n "[]" m ms k] by simp

lemma lsteps_then_quiet: "lsteps M n ms m \<Longrightarrow> core k = core m \<Longrightarrow> lsteps M n ms k"
  using lsteps_trans [of M n ms m "[]" k] lsteps_quiet by simp

lemma does_quiet: "core (fst (a n)) = core n \<Longrightarrow> sends (snd (a n)) = [] \<Longrightarrow> does M a n"
  by (simp add: does_def lsteps_quiet)

lemma does_run_Nil [simp]: "does M (run []) n"
  by (simp add: does_quiet)

lemma does_run_Cons: "does M a n \<Longrightarrow> does M (run as) (fst (a n)) \<Longrightarrow> does M (run (a # as)) n"
  by (auto simp: does_def intro: lsteps_trans)

lemma does_inv: "does M a n \<Longrightarrow> node_inv M n \<Longrightarrow> node_inv M (fst (a n))"
  by (auto simp: does_def intro: lsteps_inv)

lemma does_for_each:
  assumes "\<And>x m. node_inv M m \<Longrightarrow> does M (f x) m" "node_inv M n"
  shows "does M (for_each xs f) n"
  using assms(2)
proof (induction xs arbitrary: n)
  case (Cons x xs)
  then have "does M (f x) n" "does M (for_each xs f) (fst (f x n))"
    using assms(1) does_inv by blast+
  then show ?case by (auto simp: does_def intro: lsteps_trans)
qed (simp add: does_quiet)

lemma does_whenever: "(c n \<Longrightarrow> does M a n) \<Longrightarrow> does M (whenever c a) n"
  by (cases "c n") (simp_all add: does_def lsteps.intros)

lemma does_skip [simp]: "does M skip n"
  by (simp add: does_quiet)

lemma trace_sends [simp]: "sends (snd (trace k d i n)) = []"
  by (simp add: trace_def)

lemma emit_reply_sends [simp]: "sends (snd (emit_reply t s v i n)) = []"
  by (simp add: emit_reply_def Let_def)

lemma schedule_sends [simp]: "sends (snd (schedule_election n)) = []" "sends (snd (schedule_heartbeat n)) = []"
  by (simp_all add: schedule_election_def schedule_heartbeat_def Let_def)

lemma send_message_sends [simp]:
  "sends (snd (send_message to m n)) = [\<lparr>env_from = rn_id n, env_to = to, env_message = m\<rparr>]"
  by (simp add: send_message_def)

lemma for_each_silent:
  assumes "\<And>x m. sends (snd (f x m)) = []"
  shows "sends (snd (for_each xs f n)) = []"
  using assms by (induction xs arbitrary: n) auto

lemma reply_waiters_sends [simp]: "sends (snd (reply_waiters s v i p n)) = []"
  unfolding reply_waiters_def by (rule for_each_silent) simp

lemma does_prims [simp]:
  "does M (trace k d i) n" "does M (emit_reply t s v i) n"
  "does M schedule_election n" "does M schedule_heartbeat n" "does M (reply_waiters s v i p) n"
  by (simp_all add: does_quiet core_def)

lemma does_send: "idle n \<Longrightarrow> may_send M n to m \<Longrightarrow> from_peer n to \<Longrightarrow> does M (send_message to m) n"
  by (simp add: does_def lsteps_one l_send)

section \<open>Failure and persistence\<close>

lemma fail_storage_core: "core (fst (fail_storage d n)) = core (make_unavailable n)"
proof -
  have "fst (for_each xs reply_deferred m) = m" for xs m
    by (rule for_each_keeps [where g = "\<lambda>m. m"]) (simp add: reply_deferred_def split: RaftEvent.split)
  moreover have "fst (for_each xs (\<lambda>(i, p). reply_waiters s v i p) m) = m" for xs m s v
    by (rule for_each_keeps [where g = "\<lambda>m. m"]) auto
  ultimately show ?thesis by (simp add: fail_storage_def core_def)
qed

lemma fail_storage_sends [simp]: "sends (snd (fail_storage d n)) = []"
proof -
  have "sends (snd (for_each xs reply_deferred m)) = []" for xs m
    by (rule for_each_silent) (simp add: reply_deferred_def split: RaftEvent.split)
  moreover have "sends (snd (for_each xs (\<lambda>(i, p). reply_waiters s v i p) m)) = []" for xs m s v
    by (rule for_each_silent) auto
  ultimately show ?thesis by (simp add: fail_storage_def)
qed

lemma fail_storage_simps [simp]:
  "rn_config (fst (fail_storage d n)) = rn_config n" "rn_hard_state (fst (fail_storage d n)) = rn_hard_state n"
  "rn_log (fst (fail_storage d n)) = rn_log n" "rn_role (fst (fail_storage d n)) = Unavailable"
  using arg_cong [OF fail_storage_core, of rn_config] arg_cong [OF fail_storage_core, of rn_hard_state]
    arg_cong [OF fail_storage_core, of rn_log] arg_cong [OF fail_storage_core, of rn_role]
  by (simp_all add: make_unavailable_def)

lemma does_fail [simp]: "does M (fail_storage d) n"
  unfolding does_def fail_storage_sends
  by (rule lsteps_then_quiet [OF lsteps_one [OF l_fail] fail_storage_core])

text \<open>A handler that changed \<open>n0\<close> into \<open>n\<close> and now starts a write.\<close>

lemma begin_persist_lsteps:
  assumes "\<not> batch_empty b" "rn_pending_storage n = None" "\<And>op. lsteps M n0 [] (pend op b k n)"
  shows "lsteps M n0 [] (fst (begin_persist b k now n))" "sends (snd (begin_persist b k now n)) = []"
proof -
  show "sends (snd (begin_persist b k now n)) = []"
    using assms(1,2) by (simp add: begin_persist_def Let_def)
  show "lsteps M n0 [] (fst (begin_persist b k now n))"
  proof (cases "rn_next_storage_op_id n = 0")
    case True
    then have "core (fst (begin_persist b k now n)) = core (make_unavailable (pend 0 b k n))"
      using assms(1,2) fail_storage_core [of _ n]
      by (simp add: begin_persist_def) (simp add: core_def make_unavailable_def pend_def)
    then show ?thesis
      using assms(3) [of 0] lsteps_one [OF l_fail] lsteps_trans_silent lsteps_then_quiet by metis
  next
    case False
    then have "core (fst (begin_persist b k now n)) = core (pend (rn_next_storage_op_id n) b k n)"
      using assms(1,2) by (simp add: begin_persist_def Let_def) (simp add: core_def pend_def)
    then show ?thesis using assms(3) lsteps_then_quiet by metis
  qed
qed

section \<open>Application\<close>

lemma core_updates:
  "core (n\<lparr>rn_pending_clients := a\<rparr>) = core n" "core (n\<lparr>rn_pending_sessions := b\<rparr>) = core n"
  "core (n\<lparr>rn_leader_hint := c\<rparr>) = core n" "core (n\<lparr>rn_next_rpc_id := i\<rparr>) = core n"
  "core (n\<lparr>rn_election_generation := i\<rparr>) = core n" "core (n\<lparr>rn_heartbeat_generation := i\<rparr>) = core n"
  "core (n\<lparr>rn_deferred_events := d\<rparr>) = core n" "core (n\<lparr>rn_started := s\<rparr>) = core n"
  by (simp_all add: core_def)

lemma forget_pending_core [simp]: "core (forget_pending i p n) = core n"
  by (simp add: forget_pending_def Let_def core_def)

lemma apply_log_entry_core:
  "core (fst (apply_log_entry e n)) = core (n\<lparr>rn_state_machine := apply_entry (rn_state_machine n) e\<rparr>)"
  by (auto simp: apply_log_entry_def apply_entry_def Let_def split_beta split: option.split)

lemma apply_log_entry_simps [simp]:
  "rn_config (fst (apply_log_entry e n)) = rn_config n" "rn_hard_state (fst (apply_log_entry e n)) = rn_hard_state n"
  using arg_cong [OF apply_log_entry_core, of rn_config] arg_cong [OF apply_log_entry_core, of rn_hard_state]
  by simp_all

lemma apply_log_entry_sends [simp]: "sends (snd (apply_log_entry e n)) = []"
  by (auto simp: apply_log_entry_def Let_def split_beta split: option.split)

lemma idle_core: "core m = core n \<Longrightarrow> idle m = idle n"
  by (metis idle_def core_simps(2,15))

lemma apply_committed_lsteps:
  assumes "node_inv M n" "idle n"
  shows "lsteps M n [] (fst (apply_committed n)) \<and> sends (snd (apply_committed n)) = [] \<and>
     idle (fst (apply_committed n)) \<and> rn_last_applied (fst (apply_committed n)) = rn_commit_index n"
  using assms
proof (induction n rule: apply_committed_induct)
  case (1 n)
  show ?case
  proof (cases "rn_last_applied n < rn_commit_index n")
    case True
    let ?n1 = "n\<lparr>rn_last_applied := rn_last_applied n + 1\<rparr>"
    have u: "unat (rn_last_applied n + 1) = Suc (unat (rn_last_applied n))" by (rule unat_succ_less [OF True])
    have "entry_at n (rn_last_applied n + 1) \<noteq> None"
      using True applied_le_log [OF 1(2)] u
      by (auto simp: entry_at_none [OF node_invD(11) [OF 1(2)]] word_less_nat_alt)
    then obtain e where e: "entry_at n (rn_last_applied n + 1) = Some e" by blast
    let ?m = "fst (apply_log_entry e ?n1)"
    have step: "lsteps M n [] ?m"
      by (rule lsteps_then_quiet [OF lsteps_one [OF l_apply [OF 1(3) True e]]])
        (use apply_log_entry_core [of e ?n1] in simp)
    have inv: "node_inv M ?m" using lsteps_inv [OF step 1(2)] .
    have "idle (n\<lparr>rn_last_applied := rn_last_applied n + 1, rn_state_machine := s\<rparr>)" for s
      using 1(3) by (simp add: idle_def)
    then have "idle ?m" using idle_core [OF apply_log_entry_core [of e ?n1]] by simp
    with 1(1) [OF True e inv] step e True show ?thesis
      by (subst (1 2 3 4) apply_committed_unfold) (auto simp: split_beta Let_def intro: lsteps_trans_silent)
  next
    case False
    with 1 show ?thesis
      using node_invD(7) [OF 1(2)] by (subst (1 2 3 4) apply_committed_unfold) (simp add: lsteps.intros)
  qed
qed

section \<open>Replication\<close>

lemma collect_entries_prefix:
  assumes len: "length (rn_log n) \<le> kSizeMax"
  shows "index \<noteq> 0 \<Longrightarrow> unat index - 1 \<le> length (rn_log n) \<Longrightarrow>
    \<exists>k \<le> count. unat index - 1 + k \<le> length (rn_log n) \<and>
      collect_entries n index count enc = take k (drop (unat index - 1) (rn_log n))"
proof (induction count arbitrary: index enc)
  case (Suc count)
  show ?case
  proof (cases "entry_at n index")
    case (Some e)
    then have e: "e = rn_log n ! (unat index - 1)" "unat index - 1 < length (rn_log n)" "0 < unat index"
      using Suc.prems(1) unat_gt_0 [of index] by (auto simp: entry_at_iff [OF len])
    have "\<exists>k \<le> count. unat index + k \<le> length (rn_log n) \<and>
        collect_entries n (index + 1) count (enc + entry_bytes e) = take k (drop (unat index) (rn_log n))"
    proof (cases "index = -1")
      case True
      then have "collect_entries n (index + 1) count (enc + entry_bytes e) = []"
        by (cases count) (simp_all add: entry_at_def)
      with e show ?thesis by (intro exI [of _ 0]) auto
    next
      case False
      then have "unat (index + 1) = Suc (unat index)" "index + 1 \<noteq> 0" by (simp_all add: unat_succ64 add_eq_0_iff2)
      with Suc.IH [of "index + 1" "enc + entry_bytes e"] e show ?thesis by auto
    qed
    then obtain k where k: "k \<le> count" "unat index + k \<le> length (rn_log n)"
      "collect_entries n (index + 1) count (enc + entry_bytes e) = take k (drop (unat index) (rn_log n))" by blast
    have "e # take k (drop (unat index) (rn_log n)) = take (Suc k) (drop (unat index - 1) (rn_log n))"
      using e by (simp add: Cons_nth_drop_Suc [symmetric])
    with k e Some have "entry_bytes e \<le> cfg_max_append_bytes_per_rpc (rn_config n) - enc \<Longrightarrow> ?thesis"
      by (intro exI [of _ "Suc k"]) auto
    with Some Suc.prems show ?thesis by (cases "entry_bytes e \<le> cfg_max_append_bytes_per_rpc (rn_config n) - enc") auto
  qed (use Suc.prems in auto)
qed simp

lemma collect_entries_fits:
  assumes "enc \<le> cfg_max_append_bytes_per_rpc (rn_config n)"
  shows "length (collect_entries n index count enc) \<le> count \<and>
     enc + sum_list (map entry_bytes (collect_entries n index count enc)) \<le> cfg_max_append_bytes_per_rpc (rn_config n)"
  using assms
proof (induction count arbitrary: index enc)
  case (Suc count)
  show ?case
  proof (cases "entry_at n index")
    case (Some e)
    show ?thesis
    proof (cases "entry_bytes e \<le> cfg_max_append_bytes_per_rpc (rn_config n) - enc")
      case True
      with Suc.prems have "enc + entry_bytes e \<le> cfg_max_append_bytes_per_rpc (rn_config n)" by simp
      with Suc.IH [of "enc + entry_bytes e" "index + 1"] True Some show ?thesis by (simp add: add.assoc)
    qed (use Some Suc.prems in simp)
  qed (use Suc.prems in simp)
qed simp

text \<open>The previous index \<^verbatim>\<open>send_append\<close> uses lies within the log.\<close>

lemma clamp_prev: "unat (clamp v 1 (hi + 1) - 1 :: u64) \<le> unat hi"
proof (cases "hi = -1")
  case True
  then show ?thesis by (simp add: word_le_nat_alt [symmetric] del: unat_max64)
next
  case False
  then have "unat (hi + 1) = Suc (unat hi)" by (rule unat_succ64)
  moreover have "v = 0 \<or> unat (v - 1) = unat v - 1" using unat_pred by blast
  ultimately show ?thesis by (auto simp: clamp_def word_less_nat_alt not_less)
qed

lemma sent_segment:
  fixes count enc :: nat
  assumes len: "length (rn_log n) \<le> kSizeMax" and prev: "unat (i - 1) \<le> length (rn_log n)"
  defines "es \<equiv> collect_entries n i count enc"
  shows "unat (i - 1) + length es \<le> length (rn_log n) \<and> es = take (length es) (drop (unat (i - 1)) (rn_log n))"
proof (cases "i = 0")
  case True
  then have "es = []" unfolding es_def by (cases count) (simp_all add: entry_at_def)
  with prev show ?thesis by simp
next
  case False
  with collect_entries_prefix [OF len False, of count enc] prev show ?thesis
    by (auto simp: es_def unat_pred min_def)
qed

lemma progress_step:
  assumes inv: "node_inv M n" and idle: "idle n" and lead: "rn_role n = Leader"
    and q: "fmlookup (rn_peers n) p = Some q" and keep: "keeps_match n q q'"
  shows "lsteps M n [] (set_peer p q' n)"
  unfolding set_peer_def
proof (rule lsteps_one, rule l_progress [OF idle lead])
  fix p' show "rel_option (keeps_match n) (fmlookup (rn_peers n) p') (fmlookup (fmupd p q' (rn_peers n)) p')"
    using q keep by (auto simp: option.rel_refl keeps_match_def intro!: option.rel_refl split: option.split)
qed

lemma unat_of_nat_le: "unat (of_nat k :: u64) \<le> k"
  by (simp add: unat_of_nat take_bit_nat_def)

text \<open>What \<^verbatim>\<open>send_append\<close> sends to a peer with progress \<open>q\<close>.\<close>

definition send_next :: "RaftNode \<Rightarrow> PeerProgress \<Rightarrow> LogIndex" where
  "send_next n q = clamp (pp_next_index q) 1 (last_log_index n + 1)"

definition send_request :: "RaftNode \<Rightarrow> PeerProgress \<Rightarrow> AppendEntries" where
  "send_request n q =
     (let i = send_next n q in
      \<lparr>ae_term = rn_term n, ae_leader_id = rn_id n, ae_rpc_id = rn_next_rpc_id n, ae_prev_log_index = i - 1,
       ae_prev_log_term = term_at n (i - 1),
       ae_entries = collect_entries n i (unat (min (last_log_index n - (i - 1))
         (of_nat (cfg_max_append_entries_per_rpc (rn_config n))))) kAppendRpcOverhead,
       ae_leader_commit = rn_commit_index n\<rparr>)"

definition send_progress :: "RaftNode \<Rightarrow> PeerProgress \<Rightarrow> PeerProgress" where
  "send_progress n q =
     (let i = send_next n q in
      \<lparr>pp_next_index = i, pp_match_index = pp_match_index q,
       pp_inflight = Some \<lparr>ia_rpc_id = rn_next_rpc_id n, ia_prev_index = i - 1,
         ia_last_index = i - 1 + of_nat (length (ae_entries (send_request n q)))\<rparr>,
       pp_inflight_heartbeat_age = 0\<rparr>)"

lemma send_append_eq:
  assumes "rn_role n = Leader" "rn_pending_storage n = None" "fmlookup (rn_peers n) p = Some q" "pp_inflight q = None"
    "rn_durable_last_log_index n = last_log_index n"
  shows "send_append p n =
    (if rn_next_rpc_id n = 0 then fail_storage ''RPC id overflow'' (set_peer p (q\<lparr>pp_next_index := send_next n q\<rparr>) n)
     else run [modify (\<lambda>m. set_peer p (send_progress n q) (m\<lparr>rn_next_rpc_id := rn_next_rpc_id n + 1\<rparr>)),
               send_message p (MAppendEntries (send_request n q))] n)"
  using assms by (simp add: send_append_def send_next_def send_request_def send_progress_def Let_def)

lemma send_request_ok:
  assumes inv: "node_inv M n" and lead: "rn_role n = Leader"
  shows "may_send M n p (MAppendEntries (send_request n q))" "keeps_match n q (send_progress n q)"
proof -
  let ?i = "send_next n q" and ?r = "send_request n q"
  let ?count = "unat (min (last_log_index n - (?i - 1)) (of_nat (cfg_max_append_entries_per_rpc (rn_config n))))"
  have len: "length (rn_log n) \<le> kSizeMax" using node_invD(11) [OF inv] .
  have es: "ae_entries ?r = collect_entries n ?i ?count kAppendRpcOverhead"
    and prev: "ae_prev_log_index ?r = ?i - 1" by (simp_all add: send_request_def Let_def)
  have "unat (?i - 1) \<le> length (rn_log n)"
    using clamp_prev [of "pp_next_index q" "last_log_index n"] last_log_index_unat [OF len] by (simp add: send_next_def)
  note seg = sent_segment [OF len this, of ?count kAppendRpcOverhead, folded es]
  have "kAppendRpcOverhead \<le> cfg_max_append_bytes_per_rpc (rn_config n)"
    using node_invD(2) [OF inv] by (simp add: bounds_ok_def)
  note fit = collect_entries_fits [OF this, of ?i ?count, folded es]
  have "?count \<le> cfg_max_append_entries_per_rpc (rn_config n)"
    using unat_of_nat_le [of "cfg_max_append_entries_per_rpc (rn_config n)"] by (auto simp: min_def word_le_nat_alt)
  with fit have "append_fits (rn_config n) ?r" by (simp add: append_fits_def)
  with seg lead show "may_send M n p (MAppendEntries ?r)"
    by (simp add: prev) (simp add: send_request_def Let_def)
  have "unat (?i - 1 + of_nat (length (ae_entries ?r))) \<le> unat (?i - 1) + length (ae_entries ?r)"
    using unat_word_ariths(1) [of "?i - 1" "of_nat (length (ae_entries ?r))"] by (simp add: unat_of_nat take_bit_nat_def)
  then show "keeps_match n q (send_progress n q)"
    using seg last_log_index_unat [OF len] by (simp add: keeps_match_def send_progress_def Let_def word_le_nat_alt)
qed

lemma may_send_cong:
  assumes "rn_config m = rn_config n" "rn_log m = rn_log n" "rn_hard_state m = rn_hard_state n"
    "rn_commit_index m = rn_commit_index n" "rn_role m = rn_role n"
  shows "may_send M m p msg = may_send M n p msg"
  using assms by (cases msg) (simp_all add: received_def from_peer_def holds_request_def at_log)

lemma send_append_lsteps:
  assumes inv: "node_inv M n"
  shows "does M (send_append p) n"
proof (cases "rn_role n \<noteq> Leader \<or> rn_pending_storage n \<noteq> None \<or> fmlookup (rn_peers n) p = None
    \<or> pp_inflight (the (fmlookup (rn_peers n) p)) \<noteq> None")
  case True
  then have "send_append p n = skip n" by (auto simp: send_append_def split: option.split)
  then show ?thesis by (simp add: does_def lsteps.intros)
next
  case False
  then obtain q where lead: "rn_role n = Leader" and pend: "rn_pending_storage n = None"
    and q: "fmlookup (rn_peers n) p = Some q" "pp_inflight q = None" by auto
  have idle: "idle n" using lead pend by (simp add: idle_def)
  have peer: "from_peer n p" using node_invD(9) [OF inv] lead q(1) by (auto simp: role_ok_def peers_ok_def)
  note eq = send_append_eq [OF lead pend q idle_durable(2) [OF inv idle]]
  show ?thesis
  proof (cases "rn_next_rpc_id n = 0")
    case True
    let ?m = "set_peer p (q\<lparr>pp_next_index := send_next n q\<rparr>) n"
    have "lsteps M n [] ?m"
      by (rule progress_step [OF inv idle lead q(1)]) (simp add: keeps_match_def q(2))
    with True eq does_fail [of M _ ?m] show ?thesis
      by (auto simp: does_def intro: lsteps_trans_silent)
  next
    case False
    let ?m = "set_peer p (send_progress n q) (n\<lparr>rn_next_rpc_id := rn_next_rpc_id n + 1\<rparr>)"
    have step: "lsteps M n [] ?m"
      by (rule lsteps_then_quiet [OF progress_step [OF inv idle lead q(1) send_request_ok(2) [OF inv lead]]])
        (simp add: set_peer_def core_def)
    have "may_send M ?m p (MAppendEntries (send_request n q))"
      by (subst may_send_cong [of ?m n]) (simp_all only: send_request_ok(1) [OF inv lead], simp_all add: set_peer_def)
    moreover have "idle ?m" "from_peer ?m p" using idle peer by (simp_all add: set_peer_def idle_def from_peer_def)
    ultimately have "lsteps M ?m [\<lparr>env_from = rn_id ?m, env_to = p, env_message = MAppendEntries (send_request n q)\<rparr>] ?m"
      by (intro lsteps_one l_send)
    from lsteps_trans_silent [OF step this] False show ?thesis
      by (simp add: does_def eq)
  qed
qed

lemma send_all_appends_lsteps: "node_inv M n \<Longrightarrow> does M send_all_appends n"
  using does_for_each [of M send_append n] send_append_lsteps
  by (cases "rn_role n \<noteq> Leader \<or> rn_pending_storage n \<noteq> None")
    (auto simp: send_all_appends_def does_def lsteps.intros)

lemma commit_target_spec:
  assumes "commit_target n c \<noteq> rn_commit_index n" "c \<le> kSizeMax"
  shows "committable n (commit_target n c) \<and> rn_commit_index n < commit_target n c"
  using assms
proof (induction c)
  case (Suc c)
  have u: "unat (of_nat (Suc c) :: u64) = Suc c" by (rule unat_of_nat_size [OF Suc.prems(2)])
  show ?case
  proof (cases "Suc c \<le> unat (rn_commit_index n)")
    case False
    then have less: "rn_commit_index n < of_nat (Suc c)" unfolding word_less_nat_alt u by simp
    show ?thesis
    proof (cases "committable n (of_nat (Suc c))")
      case True
      with False have "commit_target n (Suc c) = of_nat (Suc c)" by simp
      with True less show ?thesis by metis
    qed (use False Suc in simp)
  qed (use Suc.prems in simp)
qed simp

lemma maybe_advance_commit_lsteps:
  assumes inv: "node_inv M n"
  shows "does M maybe_advance_commit n"
proof (cases "rn_role n \<noteq> Leader \<or> rn_pending_storage n \<noteq> None")
  case True
  then show ?thesis by (auto simp: maybe_advance_commit_def does_def lsteps.intros)
next
  case False
  then have idle: "idle n" and lead: "rn_role n = Leader" and pend: "rn_pending_storage n = None"
    by (auto simp: idle_def)
  define target where "target = commit_target n (unat (rn_durable_last_log_index n))"
  show ?thesis
  proof (cases "target = rn_commit_index n")
    case True
    with False show ?thesis by (simp add: maybe_advance_commit_def target_def [symmetric] does_def lsteps.intros)
  next
    case ne: False
    let ?b = "empty_batch\<lparr>pb_commit_index := Some target\<rparr>" and ?n = "n\<lparr>rn_commit_index := target\<rparr>"
    have spec: "committable n target" "rn_commit_index n < target"
      using commit_target_spec [of n] ne unat_le_size unfolding target_def by blast+
    have dur: "target \<le> rn_durable_last_log_index n"
      using committable_le [OF spec(1)] idle_durable(2) [OF inv idle] by simp
    have "lsteps M n [] (fst (begin_persist ?b AfterCommit after_commit ?n))"
      "sends (snd (begin_persist ?b AfterCommit after_commit ?n)) = []"
      by (rule begin_persist_lsteps; use lsteps_one [OF l_advance [OF idle lead spec dur]] pend in
          \<open>simp add: batch_empty_def empty_batch_def\<close>)+
    with ne lead pend show ?thesis
      by (simp add: maybe_advance_commit_def target_def [symmetric] does_def)
  qed
qed

section \<open>Callbacks\<close>

lemma does_ready:
  assumes "node_inv M n"
  shows "does M (whenever (\<lambda>m. rn_role m = Leader \<and> rn_readiness_index m \<noteq> 0 \<and> rn_last_applied m \<ge> rn_readiness_index m)
     (modify (\<lambda>m. m\<lparr>rn_leader_ready := True\<rparr>))) n \<or> \<not> idle n"
  by (cases "idle n") (auto simp: does_def lsteps.intros intro!: lsteps_one l_ready)

lemma after_commit_lsteps:
  assumes inv: "node_inv M n" and idle: "idle n"
  shows "does M after_commit n"
proof -
  note A = apply_committed_lsteps [OF inv idle]
  let ?m = "fst (apply_committed n)"
  let ?r = "whenever (\<lambda>m. rn_role m = Leader \<and> rn_readiness_index m \<noteq> 0 \<and> rn_last_applied m \<ge> rn_readiness_index m)
     (modify (\<lambda>m. m\<lparr>rn_leader_ready := True\<rparr>))"
  have inv': "node_inv M ?m" using lsteps_inv A inv by blast
  have ready: "does M ?r ?m" using does_ready [OF inv'] A by blast
  have "does M send_all_appends (fst (?r ?m))" using send_all_appends_lsteps does_inv [OF ready inv'] by blast
  then have "does M (run [?r, send_all_appends]) ?m" by (intro does_run_Cons ready) simp_all
  then show ?thesis
    unfolding after_commit_def [abs_def] does_def [of M _ n] using A
    by (auto simp: does_def intro: lsteps_trans_silent)
qed

lemma leader_acts_lsteps:
  assumes inv: "node_inv M n"
  shows "does M after_leader_noop n" "does M after_client_append n"
proof -
  have s: "does M send_all_appends n" by (rule send_all_appends_lsteps [OF inv])
  note inv1 = does_inv [OF s inv]
  have "does M (run [schedule_heartbeat, maybe_advance_commit]) (fst (send_all_appends n))"
    using does_inv [OF does_prims(4) inv1] by (intro does_run_Cons maybe_advance_commit_lsteps) simp_all
  with s have a: "does M (run [send_all_appends, schedule_heartbeat, maybe_advance_commit]) n"
    by (rule does_run_Cons)
  have b: "does M (run [send_all_appends, maybe_advance_commit]) n"
    by (intro does_run_Cons s maybe_advance_commit_lsteps [OF inv1]) simp_all
  from a show "does M after_leader_noop n"
    by (cases "rn_role n = Leader") (simp_all add: after_leader_noop_def does_def lsteps.intros)
  from b show "does M after_client_append n"
    by (cases "rn_role n = Leader") (simp_all add: after_client_append_def does_def lsteps.intros)
qed

lemma does_for_each_in:
  assumes "\<And>x. x \<in> set xs \<Longrightarrow> does M (f x) n \<and> fst (f x n) = n"
  shows "does M (for_each xs f) n"
  using assms
proof (induction xs)
  case (Cons x xs)
  then have "does M (f x) n" "fst (f x n) = n" "does M (for_each xs f) n" by simp_all
  then show ?case by (auto simp: does_def intro: lsteps_trans)
qed (simp add: does_quiet)

lemma after_election_lsteps:
  assumes inv: "node_inv M n" and idle: "idle n"
  shows "does M after_election n"
proof (cases "rn_role n = Candidate")
  case True
  let ?r = "\<lparr>rv_term = rn_term n, rv_candidate_id = rn_id n, rv_last_log_index = rn_durable_last_log_index n,
     rv_last_log_term = term_at n (rn_durable_last_log_index n)\<rparr>" and ?m = "fst (schedule_election n)"
  have "does M (for_each (peer_ids n) (\<lambda>member. send_message member (MRequestVote ?r))) ?m"
  proof (rule does_for_each_in)
    fix p assume "p \<in> set (peer_ids n)"
    then show "does M (send_message p (MRequestVote ?r)) ?m \<and> fst (send_message p (MRequestVote ?r) ?m) = ?m"
      using True idle idle_durable(2) [OF inv idle]
      by (auto intro!: does_send simp: from_peer_ids idle_def from_peer_def at_log)
  qed
  then have "does M (run [schedule_election, for_each (peer_ids n) (\<lambda>member. send_message member (MRequestVote ?r))]) n"
    by (intro does_run_Cons) simp_all
  with True show ?thesis by (simp add: after_election_def does_def Let_def)
qed (simp add: after_election_def does_def lsteps.intros)

lemma send_then_quiet:
  assumes "idle n" "may_send M n p msg" "from_peer n p" "core m = core n"
  shows "lsteps M n [\<lparr>env_from = rn_id n, env_to = p, env_message = msg\<rparr>] m"
  by (rule lsteps_then_quiet [OF lsteps_one [OF l_send [OF assms(1-3)]] assms(4)])

lemma after_vote_reply_lsteps:
  assumes "idle n" "from_peer n p" "grant \<Longrightarrow> rn_voted_for n = Some p"
  shows "does M (after_vote_reply p grant wl) n"
  using send_then_quiet [OF assms(1) _ assms(2), of M "MRequestVoteResponse \<lparr>rvr_term = rn_term n, rvr_vote_granted = grant\<rparr>"]
    assms(3) by (cases grant; cases wl) (simp_all add: does_def after_vote_reply_def core_updates)

lemma after_reject_lsteps:
  assumes "idle n" "from_peer n p"
  shows "does M (after_reject p rpc ci ct) n"
  using send_then_quiet [OF assms(1) _ assms(2), of M "MAppendEntriesResponse \<lparr>aer_term = rn_term n, aer_rpc_id = rpc,
      aer_success = False, aer_match_index = 0, aer_conflict_index = ci, aer_conflict_term = ct\<rparr>"]
  by (simp add: does_def after_reject_def core_updates)

text \<open>Applying entries touches neither the log nor the term.\<close>

lemma apply_committed_simps [simp]:
  "rn_config (fst (apply_committed n)) = rn_config n" "rn_hard_state (fst (apply_committed n)) = rn_hard_state n"
  "rn_log (fst (apply_committed n)) = rn_log n"
proof -
  have "rn_config (fst (apply_committed n)) = rn_config n \<and> rn_hard_state (fst (apply_committed n)) = rn_hard_state n \<and>
      rn_log (fst (apply_committed n)) = rn_log n"
    by (induction n rule: apply_committed_induct)
      (subst (1 2 3) apply_committed_unfold, simp add: split_beta Let_def split: option.split)
  then show "rn_config (fst (apply_committed n)) = rn_config n" "rn_hard_state (fst (apply_committed n)) = rn_hard_state n"
    "rn_log (fst (apply_committed n)) = rn_log n" by simp_all
qed

lemma received_cong: "rn_config m = rn_config n \<Longrightarrow> received M m = received M n"
  by (simp add: received_def from_peer_def fun_eq_iff)

lemma holds_request_cong: "rn_config m = rn_config n \<Longrightarrow> rn_log m = rn_log n \<Longrightarrow> holds_request m = holds_request n"
  by (simp add: holds_request_def at_log fun_eq_iff)

lemma after_accept_lsteps:
  assumes inv: "node_inv M n" and idle: "idle n" and r: "received M n p (MAppendEntries r)" "ae_term r = rn_term n"
    "holds_request n r" and mi: "mi = match_of r"
  shows "does M (after_accept p rpc mi apply_now) n"
proof -
  let ?m = "if apply_now then fst (apply_committed n) else n"
  let ?msg = "MAppendEntriesResponse \<lparr>aer_term = rn_term n, aer_rpc_id = rpc, aer_success = True,
      aer_match_index = mi, aer_conflict_index = 0, aer_conflict_term = 0\<rparr>"
  have to_m: "lsteps M n [] ?m" and idle': "idle ?m" and silent: "apply_now \<Longrightarrow> sends (snd (apply_committed n)) = []"
    using apply_committed_lsteps [OF inv idle] idle by (auto intro: lsteps.intros)
  have same: "rn_config ?m = rn_config n" "rn_hard_state ?m = rn_hard_state n" "rn_log ?m = rn_log n" by simp_all
  have "may_send M ?m p ?msg"
    using r mi same received_cong [OF same(1)] holds_request_cong [OF same(1,3)] by auto
  moreover have "from_peer ?m p" using r(1) same by (simp add: received_def from_peer_def)
  ultimately have "lsteps M ?m [\<lparr>env_from = rn_id ?m, env_to = p, env_message = ?msg\<rparr>]
      (?m\<lparr>rn_election_generation := rn_election_generation ?m + 1\<rparr>)"
    using send_then_quiet [OF idle'] core_updates(5) by blast
  with to_m have "lsteps M n [\<lparr>env_from = rn_id ?m, env_to = p, env_message = ?msg\<rparr>]
      (?m\<lparr>rn_election_generation := rn_election_generation ?m + 1\<rparr>)" by (rule lsteps_trans_silent)
  then show ?thesis using silent by (cases apply_now) (simp_all add: does_def after_accept_def)
qed

lemma after_success_lsteps:
  assumes inv: "node_inv M n" and idle: "idle n" and ok: "callback_ok M n k"
  shows "does M (after_success k) n"
proof (cases k)
  case (AfterVoteReply p grant wl)
  then show ?thesis using ok after_vote_reply_lsteps [OF idle] by simp
next
  case (AfterReject p rpc ci ct)
  then show ?thesis using ok after_reject_lsteps [OF idle] by simp
next
  case (AfterAccept p rpc mi ap)
  then show ?thesis using ok after_accept_lsteps [OF inv idle] by auto
qed (simp_all add: after_election_lsteps [OF inv idle] leader_acts_lsteps [OF inv] after_commit_lsteps [OF inv idle]
      after_step_down_def)

section \<open>Elections\<close>

lemma begin_election_lsteps:
  assumes idle: "idle n" and role: "rn_role n \<noteq> Leader"
  shows "does M begin_election n"
proof (cases "rn_term n = -1")
  case True
  then show ?thesis using does_fail by (simp add: does_def begin_election_def)
next
  case False
  let ?hs = "\<lparr>hs_current_term = rn_term n + 1, hs_voted_for = Some (rn_id n)\<rparr>"
  let ?m = "n\<lparr>rn_role := Candidate, rn_hard_state := ?hs, rn_leader_hint := None, rn_leader_ready := False,
      rn_readiness_index := 0, rn_peers := fmempty, rn_votes_received := {|rn_id n|},
      rn_heartbeat_generation := rn_heartbeat_generation n + 1\<rparr>"
  have "lsteps M n [] (pend op (hs_batch ?hs) AfterElection ?m)" for op
    by (rule lsteps_then_quiet [OF lsteps_one [OF l_campaign [OF idle role False refl, of M op]]])
      (simp add: core_def pend_def)
  then have "lsteps M n [] (fst (begin_persist (hs_batch ?hs) AfterElection after_election ?m))"
    "sends (snd (begin_persist (hs_batch ?hs) AfterElection after_election ?m)) = []"
    using idle by (intro begin_persist_lsteps; simp add: idle_def)+
  with False show ?thesis
    by (simp add: does_def begin_election_def hs_batch_def [symmetric] Let_def)
qed

lemma become_leader_lsteps:
  assumes inv: "node_inv M n" and idle: "idle n" and cand: "rn_role n = Candidate"
    and votes: "fcard (rn_votes_received n) \<ge> quorum_size n"
  shows "does M become_leader n"
proof -
  let ?fresh = "\<lparr>pp_next_index = rn_durable_last_log_index n + 1, pp_match_index = 0,
      pp_inflight = None, pp_inflight_heartbeat_age = 0\<rparr>"
  let ?l = "n\<lparr>rn_role := Leader, rn_leader_ready := False, rn_readiness_index := 0, rn_votes_received := {||},
      rn_peers := fmap_of_list (map (\<lambda>m. (m, ?fresh)) (peer_ids n))\<rparr>"
  let ?n1 = "n\<lparr>rn_role := Leader, rn_leader_hint := Some (rn_id n), rn_leader_ready := False,
      rn_readiness_index := 0, rn_votes_received := {||}, rn_election_generation := rn_election_generation n + 1,
      rn_peers := fmap_of_list (map (\<lambda>m. (m, ?fresh)) (peer_ids n))\<rparr>"
  let ?e = "\<lparr>ent_index = last_log_index n + 1, ent_term = rn_term n, ent_command = None\<rparr>"
  have lead: "lsteps M n [] ?n1"
    by (rule lsteps_then_quiet [OF lsteps_one [OF l_lead [OF idle cand votes refl]]]) (simp add: core_def)
  have idle1: "idle ?n1" using idle by (simp add: idle_def)
  have last1: "last_log_index ?n1 = last_log_index n" by (simp add: last_log_index_def)
  consider "last_log_index n = -1" | "last_log_index n \<noteq> -1" "\<not> can_append ?n1 ?e"
    | "last_log_index n \<noteq> -1" "can_append ?n1 ?e" by blast
  then show ?thesis
  proof cases
    case 1
    then show ?thesis using lsteps_trans_silent [OF lead] does_fail [of M _ ?n1]
      by (simp add: does_def become_leader_def Let_def)
  next
    case 2
    have "lsteps M ?n1 [] (stepped (rn_term ?n1) ?n1)" by (rule lsteps_one [OF l_yield [OF idle1]])
    then have "lsteps M n [] (stepped (rn_term ?n1) ?n1)" by (rule lsteps_trans_silent [OF lead])
    with 2 show ?thesis
      by (auto simp: does_def become_leader_def Let_def core_def stepped_def intro: lsteps_then_quiet)
  next
    case 3
    let ?m = "?n1\<lparr>rn_log := rn_log n @ [?e], rn_readiness_index := last_log_index n + 1\<rparr>"
    let ?b = "empty_batch\<lparr>pb_entries := [?e]\<rparr>"
    have "lsteps M ?n1 [] (pend op ?b AfterLeaderNoop ?m)" for op
      using lsteps_one [OF l_noop [OF idle1, of ?e M op]] 3 last1 by simp
    then have "lsteps M ?n1 [] (fst (begin_persist ?b AfterLeaderNoop after_leader_noop ?m))"
      "sends (snd (begin_persist ?b AfterLeaderNoop after_leader_noop ?m)) = []"
      using idle by (intro begin_persist_lsteps; simp add: batch_empty_def empty_batch_def idle_def)+
    with 3 show ?thesis
      using lsteps_trans_silent [OF lead] by (simp add: does_def become_leader_def Let_def)
  qed
qed

lemma step_down_node: "core (fst (step_down t h False n)) = core (stepped t n)"
  by (simp add: step_down_def stepped_def core_def)

lemma step_down_sends [simp]: "sends (snd (step_down t h False n)) = []"
  by (simp add: step_down_def)

lemma core_pend: "core m = core n \<Longrightarrow> core (pend op b k m) = core (pend op b k n)"
proof -
  have "core (pend op b k m) = pend op b k (core m)" for m by (simp add: core_def pend_def)
  then show "core m = core n \<Longrightarrow> core (pend op b k m) = core (pend op b k n)" by metis
qed

lemma core_eq_simps:
  assumes "core m = core n"
  shows "rn_config m = rn_config n" "rn_hard_state m = rn_hard_state n" "rn_log m = rn_log n"
    "rn_pending_storage m = rn_pending_storage n" "rn_role m = rn_role n" "rn_commit_index m = rn_commit_index n"
  using assms core_simps by metis+

text \<open>The higher term is recorded and nothing else: the callback is one of the harmless ones.\<close>

lemma observe_lsteps:
  assumes idle: "idle n" and t: "t > rn_term n" and k: "harmless n k"
    and m: "core m = core (stepped t n)" and b: "b = empty_batch\<lparr>pb_hard_state := Some (rn_hard_state m)\<rparr>"
  shows "lsteps M n [] (fst (begin_persist b k now m))" "sends (snd (begin_persist b k now m)) = []"
proof -
  note M = core_eq_simps [OF m]
  have hs: "rn_hard_state m = \<lparr>hs_current_term = t, hs_voted_for = None\<rparr>" using M(2) t by (simp add: stepped_def)
  have "lsteps M n [] (pend op b k m)" for op
    by (rule lsteps_then_quiet [OF lsteps_one [OF l_observe [OF idle t k, of M op]]])
      (use core_pend [OF m] b hs in \<open>simp add: hs_batch_def\<close>)
  then show "lsteps M n [] (fst (begin_persist b k now m))" "sends (snd (begin_persist b k now m)) = []"
    using M(4) idle b by (intro begin_persist_lsteps; simp add: idle_def batch_empty_def empty_batch_def)+
qed

lemma observe_higher_term_lsteps:
  assumes "idle n" "t > rn_term n"
  shows "does M (observe_higher_term t) n"
proof -
  have "harmless n AfterStepDown" by simp
  from observe_lsteps [OF assms this step_down_node refl] show ?thesis
    by (simp add: does_def observe_higher_term_def split_beta Let_def)
qed

lemma on_request_vote_response_lsteps:
  assumes inv: "node_inv M n" and idle: "idle n" and rcv: "received M n p (MRequestVoteResponse r)"
  shows "does M (on_request_vote_response p r) n"
proof -
  consider "rvr_term r > rn_term n"
    | "rvr_term r \<le> rn_term n" "rn_role n \<noteq> Candidate \<or> rvr_term r \<noteq> rn_term n \<or> \<not> rvr_vote_granted r"
    | "rn_role n = Candidate" "rvr_term r = rn_term n" "rvr_vote_granted r" by force
  then show ?thesis
  proof cases
    case 1
    then show ?thesis
      using observe_higher_term_lsteps [OF idle 1] by (simp add: does_def on_request_vote_response_def)
  next
    case 2
    then have "on_request_vote_response p r n = skip n" by (auto simp: on_request_vote_response_def)
    then show ?thesis by (simp add: does_def lsteps.intros)
  next
    case 3
    let ?m = "n\<lparr>rn_votes_received := finsert p (rn_votes_received n)\<rparr>"
    have step: "lsteps M n [] ?m" by (rule lsteps_one [OF l_tally [OF idle 3(1) rcv 3(2,3)]])
    have inv': "node_inv M ?m" by (rule lsteps_inv [OF step inv])
    have "does M (whenever (\<lambda>m. fcard (rn_votes_received m) \<ge> quorum_size m) become_leader) ?m"
      by (rule does_whenever, rule become_leader_lsteps [OF inv']) (use idle 3(1) in \<open>simp_all add: idle_def\<close>)
    then have "lsteps M n (sends (snd (whenever (\<lambda>m. fcard (rn_votes_received m) \<ge> quorum_size m) become_leader ?m)))
        (fst (whenever (\<lambda>m. fcard (rn_votes_received m) \<ge> quorum_size m) become_leader ?m))"
      unfolding does_def by (rule lsteps_trans_silent [OF step])
    with 3 show ?thesis
      by (auto simp: does_def on_request_vote_response_def)
  qed
qed

lemma reply_or_persist_eq: "\<not> batch_empty b \<Longrightarrow> reply_or_persist b k now = begin_persist b k now"
  by (simp add: reply_or_persist_def fun_eq_iff)

lemma decide_vote_up_to_date_cong:
  "rn_log m = rn_log n \<Longrightarrow> candidate_is_up_to_date m = candidate_is_up_to_date n"
  by (simp add: candidate_is_up_to_date_def at_log fun_eq_iff)

text \<open>The vote is granted and has to be recorded.\<close>

lemma grant_lsteps:
  assumes idle: "idle n" and rcv: "received M n p (MRequestVote r)" and r: "rv_candidate_id r = p" "rv_term r \<noteq> 0"
    "rv_term r \<ge> rn_term n"
    and n1: "core n1 = core (if rv_term r > rn_term n then stepped (rv_term r) n else n)"
    and vote: "rn_voted_for n1 = None" "candidate_is_up_to_date n1 (rv_last_log_index r) (rv_last_log_term r)"
    and hs: "hs = (rn_hard_state n1)\<lparr>hs_voted_for := Some p\<rparr>"
  shows "lsteps M n [] (fst (begin_persist (empty_batch\<lparr>pb_hard_state := Some hs\<rparr>) (AfterVoteReply p True wl) now (n1\<lparr>rn_hard_state := hs\<rparr>)))"
    "sends (snd (begin_persist (empty_batch\<lparr>pb_hard_state := Some hs\<rparr>) (AfterVoteReply p True wl) now (n1\<lparr>rn_hard_state := hs\<rparr>))) = []"
proof -
  let ?s = "if rv_term r > rn_term n then stepped (rv_term r) n else n"
  let ?k = "AfterVoteReply p True wl" and ?b = "empty_batch\<lparr>pb_hard_state := Some hs\<rparr>"
  note C = core_eq_simps [OF n1]
  have hs': "hs = \<lparr>hs_current_term = rv_term r, hs_voted_for = Some p\<rparr>"
    using r(3) C(2) by (auto simp: hs stepped_def)
  have "core (n1\<lparr>rn_hard_state := hs\<rparr>) = core (?s\<lparr>rn_hard_state := hs\<rparr>)"
  proof -
    have "core (m\<lparr>rn_hard_state := hs\<rparr>) = (core m)\<lparr>rn_hard_state := hs\<rparr>" for m by (simp add: core_def)
    then show ?thesis using n1 by metis
  qed
  moreover have "lsteps M n [] (pend op (hs_batch hs) ?k (?s\<lparr>rn_hard_state := hs\<rparr>))" for op
    by (rule lsteps_one [OF l_grant [OF idle rcv r refl _ _ hs']])
      (use vote C(2,3) decide_vote_up_to_date_cong [OF C(3)] in simp_all)
  ultimately have "lsteps M n [] (pend op ?b ?k (n1\<lparr>rn_hard_state := hs\<rparr>))" for op
    using lsteps_then_quiet [of M n "[]"] core_pend unfolding hs_batch_def by metis
  moreover have "rn_pending_storage n1 = None" using C(4) idle by (simp add: idle_def stepped_def)
  ultimately show "lsteps M n [] (fst (begin_persist ?b ?k now (n1\<lparr>rn_hard_state := hs\<rparr>)))"
    "sends (snd (begin_persist ?b ?k now (n1\<lparr>rn_hard_state := hs\<rparr>))) = []"
    by (intro begin_persist_lsteps; simp add: batch_empty_def empty_batch_def)+
qed

lemma decide_vote_raised:
  assumes idle: "idle n" and rcv: "received M n p (MRequestVote r)" and r: "rv_candidate_id r = p" "rv_term r > rn_term n"
    and n1: "core n1 = core (stepped (rv_term r) n)"
    and b: "b = empty_batch\<lparr>pb_hard_state := Some (rn_hard_state n1)\<rparr>"
  shows "lsteps M n (sends (snd (decide_vote p r wl b n1))) (fst (decide_vote p r wl b n1))"
proof -
  have vote: "rn_voted_for n1 = None" using core_eq_simps(2) [OF n1] r(2) by (simp add: stepped_def)
  have ne: "\<not> batch_empty (empty_batch\<lparr>pb_hard_state := Some hs\<rparr>)" for hs
    by (simp add: batch_empty_def empty_batch_def)
  show ?thesis
  proof (cases "candidate_is_up_to_date n1 (rv_last_log_index r) (rv_last_log_term r)")
    case True
    have "rv_term r \<noteq> 0" "rv_term r \<ge> rn_term n" using r(2) by (auto simp: word_less_nat_alt word_le_nat_alt)
    from grant_lsteps [OF idle rcv r(1) this _ vote True refl] n1 r(2) vote True r(1) show ?thesis
      by (simp add: decide_vote_def Let_def b reply_or_persist_eq [OF ne])
  next
    case False
    have "harmless n (AfterVoteReply p False wl)" using rcv by (simp add: received_def)
    from observe_lsteps [OF idle r(2) this n1 b] False show ?thesis
      by (simp add: decide_vote_def Let_def b reply_or_persist_eq [OF ne])
  qed
qed

lemma decide_vote_same_term:
  assumes idle: "idle n" and rcv: "received M n p (MRequestVote r)" and r: "rv_candidate_id r = p" "rv_term r = rn_term n" "rv_term r \<noteq> 0"
  shows "does M (decide_vote p r wl empty_batch) n"
proof (cases "rn_voted_for n = None \<and> candidate_is_up_to_date n (rv_last_log_index r) (rv_last_log_term r)")
  case True
  have ne: "\<not> batch_empty (empty_batch\<lparr>pb_hard_state := Some hs\<rparr>)" for hs
    by (simp add: batch_empty_def empty_batch_def)
  from grant_lsteps [OF idle rcv r(1,3) _ _ _ _ refl, of n] True r show ?thesis
    by (simp add: does_def decide_vote_def Let_def reply_or_persist_eq [OF ne])
next
  case False
  have peer: "from_peer n p" using rcv by (simp add: received_def)
  define grant where "grant \<longleftrightarrow> rn_voted_for n = Some p \<and> candidate_is_up_to_date n (rv_last_log_index r) (rv_last_log_term r)"
  have "decide_vote p r wl empty_batch n = after_vote_reply p grant wl n"
    using False r(1) by (auto simp: decide_vote_def Let_def reply_or_persist_def batch_empty_def empty_batch_def grant_def)
  with after_vote_reply_lsteps [OF idle peer, of grant M wl] show ?thesis by (simp add: does_def grant_def)
qed

lemma on_request_vote_lsteps:
  assumes idle: "idle n" and rcv: "received M n p (MRequestVote r)"
  shows "does M (on_request_vote p r) n"
proof -
  have peer: "from_peer n p" using rcv by (simp add: received_def)
  consider "rv_term r = 0 \<or> rv_candidate_id r \<noteq> p" | "rv_term r < rn_term n" "rv_term r \<noteq> 0" "rv_candidate_id r = p"
    | "rv_term r > rn_term n" "rv_term r \<noteq> 0" "rv_candidate_id r = p"
    | "rv_term r = rn_term n" "rv_term r \<noteq> 0" "rv_candidate_id r = p"
    using less_linear [of "rv_term r" "rn_term n"] by blast
  then show ?thesis
  proof cases
    case 1
    then show ?thesis by (simp add: does_def on_request_vote_def lsteps.intros)
  next
    case 2
    then show ?thesis
      using does_send [OF idle _ peer, of M "MRequestVoteResponse \<lparr>rvr_term = rn_term n, rvr_vote_granted = False\<rparr>"]
      by (simp add: does_def on_request_vote_def)
  next
    case 3
    then have "\<not> rv_term r < rn_term n" by simp
    with 3 decide_vote_raised [OF idle rcv 3(3,1) step_down_node refl] show ?thesis
      by (simp add: does_def on_request_vote_def Let_def split_beta)
  next
    case 4
    with decide_vote_same_term [OF idle rcv 4(3,1,2)] show ?thesis
      by (simp add: does_def on_request_vote_def Let_def)
  qed
qed

section \<open>Log replication\<close>

lemma raised_lsteps:
  assumes idle: "idle n" and t: "ae_term r = rn_term n" and m: "core m = core (raised r n)"
  shows "lsteps M n [] m"
proof (cases "rn_role n = Follower")
  case True
  then show ?thesis using m t by (intro lsteps_quiet) (simp add: raised_def)
next
  case False
  then show ?thesis
    using m t lsteps_then_quiet [OF lsteps_one [OF l_yield [OF idle]]] by (simp add: raised_def)
qed

lemma raised_fail_lsteps:
  assumes idle: "idle n" and t: "ae_term r \<ge> rn_term n" and m: "core m = core (raised r n)"
  shows "lsteps M n [] (fst (fail_storage d m))"
proof -
  have fail: "core (make_unavailable m) = core (make_unavailable n)" if "core m = core n" for m n
  proof -
    have "core (make_unavailable m) = core (make_unavailable (core m))" for m
      by (simp add: core_def make_unavailable_def)
    then show ?thesis using that by metis
  qed
  show ?thesis
  proof (cases "ae_term r = rn_term n")
    case True
    then show ?thesis
      using lsteps_trans_silent [OF raised_lsteps [OF idle True m]] does_fail [of M d m] by (simp add: does_def)
  next
    case False
    then have up: "ae_term r > rn_term n" using t by simp
    let ?p = "pend 0 (hs_batch \<lparr>hs_current_term = ae_term r, hs_voted_for = None\<rparr>) AfterStepDown (stepped (ae_term r) n)"
    have "lsteps M n [] (make_unavailable ?p)"
      by (rule lsteps_trans_silent [OF lsteps_one [OF l_observe [OF idle up]] lsteps_one [OF l_fail]]) simp
    moreover have "core (make_unavailable ?p) = core (make_unavailable (raised r n))"
      using up by (simp add: raised_def core_def make_unavailable_def pend_def)
    ultimately show ?thesis
      using fail_storage_core [of d m] fail [OF m] lsteps_then_quiet by metis
  qed
qed

lemma accept_batch_empty:
  assumes "batch_empty (accept_batch r n)"
  shows "\<not> ae_term r > rn_term n" "new_suffix n (ae_entries r) = []" "pb_commit_index (accept_batch r n) = None"
  using assms by (auto simp: batch_empty_def split: if_splits)

lemma core_accepted:
  assumes m: "core m = core ((raised r n)\<lparr>rn_log := spliced n (new_suffix n (ae_entries r))\<rparr>)"
    and c: "c = max (rn_commit_index n) (min (ae_leader_commit r) (match_of r))"
  shows "core (m\<lparr>rn_commit_index := c\<rparr>) = core (accepted_node r n)"
proof -
  have "core (m\<lparr>rn_commit_index := c\<rparr>) = (core m)\<lparr>rn_commit_index := c\<rparr>" for m by (simp add: core_def)
  then show ?thesis using m c by (simp add: accepted_node_def)
qed

lemma finish_accept_lsteps:
  assumes inv: "node_inv M n" and idle: "idle n" and rcv: "received M n p (MAppendEntries r)" and lead: "ae_leader_id r = p"
    and t: "ae_term r \<ge> rn_term n" and ok: "request_ok (rn_config n) r" and prev: "ae_prev_log_index r \<le> last_log_index n"
    and pt: "term_at n (ae_prev_log_index r) = ae_prev_log_term r"
    and guard: "new_suffix n (ae_entries r) \<noteq> [] \<longrightarrow> ent_index (hd (new_suffix n (ae_entries r))) > rn_commit_index n"
    and b: "b = (accept_batch r n)\<lparr>pb_commit_index := None\<rparr>"
    and m: "core m = core ((raised r n)\<lparr>rn_log := spliced n (new_suffix n (ae_entries r))\<rparr>)"
  shows "lsteps M n (sends (snd (finish_accept p r b m))) (fst (finish_accept p r b m))"
proof -
  let ?ab = "accept_batch r n" and ?c = "min (ae_leader_commit r) (match_of r)"
  note C = core_eq_simps [OF m]
  define ap where "ap \<longleftrightarrow> pb_commit_index ?ab \<noteq> None"
  define m1 where "m1 = (if ?c > rn_commit_index m then m\<lparr>rn_commit_index := ?c\<rparr> else m)"
  let ?k = "AfterAccept p (ae_rpc_id r) (match_of r) ap" and ?now = "after_accept p (ae_rpc_id r) (match_of r) ap"
  have com: "rn_commit_index m = rn_commit_index n" using C(6) by simp
  have B: "(if ?c > rn_commit_index m then b\<lparr>pb_commit_index := Some ?c\<rparr> else b) = ?ab"
    using com by (simp add: b accept_batch_def Let_def)
  have eq: "finish_accept p r b m = reply_or_persist ?ab ?k ?now m1"
    by (simp only: finish_accept_def Let_def match_of_def [symmetric] B ap_def m1_def)
  have "m1 = m\<lparr>rn_commit_index := max (rn_commit_index n) ?c\<rparr>"
    using com by (cases m) (auto simp: m1_def max_def)
  then have core1: "core m1 = core (accepted_node r n)" using core_accepted [OF m refl] by simp
  show ?thesis
  proof (cases "batch_empty ?ab")
    case True
    note E = accept_batch_empty [OF True]
    have term_eq: "ae_term r = rn_term n" using E(1) t by simp
    have m1m: "m1 = m" using E(3) com by (auto simp: m1_def split: if_splits)
    have "core m = core (raised r n)"
      using m E(2) by (simp add: spliced_def) (simp add: core_def)
    then have to_m: "lsteps M n [] m" by (rule raised_lsteps [OF idle term_eq])
    have inv': "node_inv M m" by (rule lsteps_inv [OF to_m inv])
    have idle': "idle m" using C(4,5) idle by (simp add: idle_def)
    have cfg: "rn_config m = rn_config n" using C(1) by simp
    have hold: "holds_request m r"
      by (rule holds_accepted [OF inv ok prev pt guard]) (use C(1,3) in simp_all)
    have trm: "ae_term r = rn_term m" using C(2) term_eq by (simp add: raised_hard_state)
    have "does M ?now m"
      by (rule after_accept_lsteps [OF inv' idle' _ trm hold refl]) (use rcv received_cong [OF cfg] in simp)
    with lsteps_trans_silent [OF to_m] True show ?thesis
      by (simp add: eq reply_or_persist_def does_def m1m)
  next
    case False
    have "lsteps M n [] (pend op ?ab ?k m1)" for op
      using lsteps_then_quiet [OF lsteps_one [OF l_accept [OF idle rcv lead t ok prev pt guard False]] core_pend [OF core1]]
      unfolding ap_def .
    moreover have "rn_pending_storage m1 = None" using C(4) idle by (simp add: m1_def idle_def)
    ultimately have "lsteps M n [] (fst (begin_persist ?ab ?k ?now m1))" "sends (snd (begin_persist ?ab ?k ?now m1)) = []"
      using False by (intro begin_persist_lsteps; simp)+
    with False show ?thesis by (simp add: eq reply_or_persist_eq)
  qed
qed

lemma remove_pending_from_core [simp]: "core (fst (remove_pending_from i n)) = core n"
  unfolding remove_pending_from_def by (rule for_each_keeps) auto

lemma remove_pending_from_sends [simp]: "sends (snd (remove_pending_from i n)) = []"
  unfolding remove_pending_from_def by (rule for_each_silent) auto

lemma new_suffix_cong: "rn_log m = rn_log n \<Longrightarrow> new_suffix m es = new_suffix n es"
  by (induction es) (auto simp: entry_at_log)

lemma core_log: "core m = core n \<Longrightarrow> core (m\<lparr>rn_log := l\<rparr>) = core (n\<lparr>rn_log := l\<rparr>)"
proof -
  have "core (m\<lparr>rn_log := l\<rparr>) = (core m)\<lparr>rn_log := l\<rparr>" for m by (simp add: core_def)
  then show "core m = core n \<Longrightarrow> core (m\<lparr>rn_log := l\<rparr>) = core (n\<lparr>rn_log := l\<rparr>)" by metis
qed

text \<open>The first index of the new suffix never leaves a gap.\<close>

lemma new_suffix_no_gap:
  assumes inv: "node_inv M n" and ok: "request_ok (rn_config n) r" and prev: "ae_prev_log_index r \<le> last_log_index n"
    and ne: "new_suffix n (ae_entries r) \<noteq> []" and beyond: "\<not> ent_index (hd (new_suffix n (ae_entries r))) \<le> last_log_index n"
  shows "spliced n (new_suffix n (ae_entries r)) = rn_log n @ new_suffix n (ae_entries r)"
proof -
  have len: "length (rn_log n) \<le> kSizeMax" using node_invD(11) [OF inv] .
  let ?i = "ent_index (hd (new_suffix n (ae_entries r)))"
  have "length (rn_log n) < unat ?i" using beyond last_log_index_unat [OF len] by (simp add: word_le_nat_alt not_le)
  moreover from this have "?i \<noteq> 0" by (metis unat_0 less_zeroE)
  ultimately have "length (rn_log n) \<le> unat (?i - 1)" by (simp add: unat_pred)
  with ne show ?thesis by (simp add: spliced_def)
qed

lemma accept_entries_lsteps:
  assumes inv: "node_inv M n" and idle: "idle n" and rcv: "received M n p (MAppendEntries r)" and lead: "ae_leader_id r = p"
    and t: "ae_term r \<ge> rn_term n" and ok: "request_ok (rn_config n) r" and prev: "ae_prev_log_index r \<le> last_log_index n"
    and pt: "term_at n (ae_prev_log_index r) = ae_prev_log_term r"
    and m: "core m = core (raised r n)"
    and b: "b = (if ae_term r > rn_term n then empty_batch\<lparr>pb_hard_state := Some \<lparr>hs_current_term = ae_term r, hs_voted_for = None\<rparr>\<rparr> else empty_batch)"
  shows "lsteps M n (sends (snd (accept_entries p r b m))) (fst (accept_entries p r b m))"
proof -
  note C = core_eq_simps [OF m]
  let ?s = "new_suffix n (ae_entries r)" let ?i = "ent_index (hd ?s)"
  have sfx: "new_suffix m (ae_entries r) = ?s" by (rule new_suffix_cong) (use C(3) in simp)
  have com: "rn_commit_index m = rn_commit_index n" and last: "last_log_index m = last_log_index n" and log: "rn_log m = rn_log n"
    using C(3,6) by (simp_all add: last_log_index_def)
  note fin = finish_accept_lsteps [OF inv idle rcv lead t ok prev pt]
  consider "?s = []" | "?s \<noteq> []" "?i \<le> rn_commit_index n" | "?s \<noteq> []" "?i > rn_commit_index n" by force
  then show ?thesis
  proof cases
    case 1
    have "core m = core ((raised r n)\<lparr>rn_log := spliced n ?s\<rparr>)"
      using m 1 by (simp add: spliced_def) (simp add: core_def)
    from fin [OF _ _ this, of b] 1 b show ?thesis
      by (simp add: accept_entries_def sfx Let_def accept_batch_def empty_batch_def)
  next
    case 2
    with raised_fail_lsteps [OF idle t m] show ?thesis
      by (simp add: accept_entries_def sfx Let_def com)
  next
    case 3
    define tr where "tr \<longleftrightarrow> ?i \<le> last_log_index n"
    define m' where "m' = (if tr then (fst (remove_pending_from ?i m))\<lparr>rn_log := take (unat (?i - 1)) (rn_log n) @ ?s\<rparr>
        else m\<lparr>rn_log := rn_log n @ ?s\<rparr>)"
    define b' where "b' = (if tr then b\<lparr>pb_truncate_from := Some ?i\<rparr> else b)\<lparr>pb_entries := ?s\<rparr>"
    have "rn_log m' = spliced n ?s" "core m' = core (m\<lparr>rn_log := rn_log m'\<rparr>)"
      using 3(1) new_suffix_no_gap [OF inv ok prev 3(1)] core_log [OF remove_pending_from_core [of ?i m]]
      by (auto simp: m'_def tr_def spliced_def)
    then have m': "core m' = core ((raised r n)\<lparr>rn_log := spliced n ?s\<rparr>)" using core_log [OF m] by simp
    have b': "b' = (accept_batch r n)\<lparr>pb_commit_index := None\<rparr>"
      using 3(1) by (auto simp: b'_def tr_def b accept_batch_def Let_def empty_batch_def)
    have rl: "rn_log (fst (remove_pending_from ?i m)) = rn_log n"
      using core_eq_simps(3) [OF remove_pending_from_core [of ?i m]] log by simp
    have "fst (accept_entries p r b m) = fst (finish_accept p r b' m')"
      "sends (snd (accept_entries p r b m)) = sends (snd (finish_accept p r b' m'))"
      using 3(1) rl 3(2) [folded not_le] by (simp_all add: accept_entries_def sfx Let_def com last log tr_def [symmetric] b'_def m'_def)
    with fin [OF _ b' m'] 3 show ?thesis by simp
  qed
qed

lemma check_entries_lsteps:
  assumes inv: "node_inv M n" and idle: "idle n" and rcv: "received M n p (MAppendEntries r)" and lead: "ae_leader_id r = p"
    and t: "ae_term r \<ge> rn_term n" "ae_term r \<noteq> 0" and m: "core m = core (raised r n)"
    and b: "b = (if ae_term r > rn_term n then empty_batch\<lparr>pb_hard_state := Some (rn_hard_state m)\<rparr> else empty_batch)"
  shows "lsteps M n (sends (snd (check_entries p r b m))) (fst (check_entries p r b m))"
proof -
  note C = core_eq_simps [OF m]
  have peer: "from_peer n p" using rcv by (simp add: received_def)
  have reads: "rn_config m = rn_config n" "last_log_index m = last_log_index n" "term_at m = term_at n"
    using C(1,3) by (simp_all add: at_log)
  have reject: "lsteps M n (sends (snd (reply_or_persist b (AfterReject p rpc ci ct) (after_reject p rpc ci ct) m)))
      (fst (reply_or_persist b (AfterReject p rpc ci ct) (after_reject p rpc ci ct) m))" for rpc ci ct
  proof (cases "ae_term r > rn_term n")
    case True
    have "harmless n (AfterReject p rpc ci ct)" using peer by simp
    moreover have "core m = core (stepped (ae_term r) n)" using m True by (simp add: raised_def)
    moreover have "b = empty_batch\<lparr>pb_hard_state := Some (rn_hard_state m)\<rparr>" using True by (simp add: b)
    ultimately have "lsteps M n [] (fst (begin_persist b (AfterReject p rpc ci ct) (after_reject p rpc ci ct) m))"
      "sends (snd (begin_persist b (AfterReject p rpc ci ct) (after_reject p rpc ci ct) m)) = []"
      using observe_lsteps [OF idle True] by blast+
    moreover have "\<not> batch_empty b" using True by (simp add: b batch_empty_def empty_batch_def)
    ultimately show ?thesis by (simp add: reply_or_persist_eq)
  next
    case False
    then have "lsteps M n [] m" using t m by (intro raised_lsteps [OF idle]) simp_all
    moreover have "idle m" using C(4,5) idle by (simp add: idle_def)
    moreover have "from_peer m p" using peer reads by (simp add: from_peer_def)
    ultimately show ?thesis
      using False after_reject_lsteps [of m p M rpc ci ct]
      by (auto simp: b reply_or_persist_def batch_empty_def empty_batch_def does_def intro: lsteps_trans_silent)
  qed
  have b': "b = (if ae_term r > rn_term n then empty_batch\<lparr>pb_hard_state := Some \<lparr>hs_current_term = ae_term r, hs_voted_for = None\<rparr>\<rparr> else empty_batch)"
    using C(2) t by (simp add: b raised_hard_state)
  show ?thesis
    using reject accept_entries_lsteps [OF inv idle rcv lead t(1) _ _ _ m b'] t(2)
    by (auto simp: check_entries_def Let_def reads request_ok_def)
qed

lemma on_append_entries_lsteps:
  assumes inv: "node_inv M n" and idle: "idle n" and rcv: "received M n p (MAppendEntries r)"
  shows "does M (on_append_entries p r) n"
proof -
  have peer: "from_peer n p" using rcv by (simp add: received_def)
  consider "ae_term r = 0 \<or> ae_leader_id r \<noteq> p" | "ae_term r \<noteq> 0" "ae_leader_id r = p" "ae_term r < rn_term n"
    | "ae_term r \<noteq> 0" "ae_leader_id r = p" "ae_term r \<ge> rn_term n" by force
  then show ?thesis
  proof cases
    case 1
    then show ?thesis by (simp add: does_def on_append_entries_def lsteps.intros)
  next
    case 2
    then show ?thesis
      using does_send [OF idle _ peer, of M "MAppendEntriesResponse \<lparr>aer_term = rn_term n, aer_rpc_id = ae_rpc_id r,
          aer_success = False, aer_match_index = 0, aer_conflict_index = last_log_index n + 1, aer_conflict_term = 0\<rparr>"]
      by (simp add: does_def on_append_entries_def)
  next
    case 3
    define w where "w = (if ae_term r > rn_term n \<or> rn_role n \<noteq> Follower then step_down (ae_term r) (Some p) False n
        else (n\<lparr>rn_leader_hint := Some p\<rparr>, []))"
    have w: "core (fst w) = core (raised r n)" "sends (snd w) = []"
      using step_down_node by (simp_all add: w_def raised_def core_updates)
    let ?b = "if ae_term r > rn_term n then empty_batch\<lparr>pb_hard_state := Some (rn_hard_state (fst w))\<rparr> else empty_batch"
    have "on_append_entries p r n = (fst (check_entries p r ?b (fst w)), snd w @ snd (check_entries p r ?b (fst w)))"
      by (simp only: on_append_entries_def 3(1,2) leD [OF 3(3)] Let_def split_beta w_def [symmetric] simp_thms if_False)
    with check_entries_lsteps [OF inv idle rcv 3(2,3,1) w(1) refl] w(2) show ?thesis
      by (simp add: does_def)
  qed
qed

lemma on_append_entries_response_lsteps:
  assumes inv: "node_inv M n" and idle: "idle n" and rcv: "received M n p (MAppendEntriesResponse r)"
  shows "does M (on_append_entries_response p r) n"
proof -
  consider "aer_term r > rn_term n"
    | "\<not> aer_term r > rn_term n" "rn_role n \<noteq> Leader \<or> aer_term r \<noteq> rn_term n \<or> fmlookup (rn_peers n) p = None"
    | q where "rn_role n = Leader" "aer_term r = rn_term n" "fmlookup (rn_peers n) p = Some q" "pp_inflight q = None"
    | q sent where "rn_role n = Leader" "aer_term r = rn_term n" "fmlookup (rn_peers n) p = Some q" "pp_inflight q = Some sent"
    by force
  then show ?thesis
  proof cases
    case 1
    then show ?thesis
      using observe_higher_term_lsteps [OF idle 1] by (simp add: does_def on_append_entries_response_def)
  next
    case 2
    then have "on_append_entries_response p r n = skip n" by (auto simp: on_append_entries_response_def)
    then show ?thesis by (simp add: does_def lsteps.intros)
  next
    case 3
    then show ?thesis by (simp add: does_def on_append_entries_response_def lsteps.intros)
  next
    case (4 q sent)
    let ?q = "q\<lparr>pp_inflight := None, pp_inflight_heartbeat_age := 0\<rparr>"
    have prog: "lsteps M n [] (set_peer p q' n)" if "pp_match_index q' = pp_match_index q" "pp_inflight q' = None" for q'
      by (rule progress_step [OF inv idle 4(1,3)]) (simp add: keeps_match_def that)
    have rest: "does M (run [maybe_advance_commit, whenever (\<lambda>m. rn_role m = Leader \<and> rn_pending_storage m = None \<and>
          (case fmlookup (rn_peers m) p of None \<Rightarrow> False | Some current \<Rightarrow> pp_match_index current < rn_durable_last_log_index m))
        (send_append p)]) m" if "node_inv M m" for m
      by (intro does_run_Cons does_whenever maybe_advance_commit_lsteps send_append_lsteps)
        (use that does_inv [OF maybe_advance_commit_lsteps [OF that] that] in simp_all)
    let ?mi = "max (pp_match_index q) (ia_last_index sent)"
    let ?qa = "?q\<lparr>pp_match_index := ?mi, pp_next_index := ?mi + 1\<rparr>"
    let ?qr = "?q\<lparr>pp_next_index := backed_up_next n ?q r\<rparr>"
    consider "ia_rpc_id sent \<noteq> aer_rpc_id r" | "ia_rpc_id sent = aer_rpc_id r" "\<not> aer_success r"
      | "ia_rpc_id sent = aer_rpc_id r" "aer_success r" "aer_match_index r < ia_last_index sent"
      | "ia_rpc_id sent = aer_rpc_id r" "aer_success r" "ia_last_index sent \<le> aer_match_index r" by force
    then show ?thesis
    proof cases
      case 1
      with 4 show ?thesis by (simp add: does_def on_append_entries_response_def lsteps.intros)
    next
      case 2
      have step: "lsteps M n [] (set_peer p ?qr n)" by (rule prog) simp_all
      from send_append_lsteps [OF lsteps_inv [OF step inv], of p] lsteps_trans_silent [OF step] 2 4 show ?thesis
        by (simp add: does_def on_append_entries_response_def Let_def)
    next
      case 3
      with 4 prog [of ?q] show ?thesis by (simp add: does_def on_append_entries_response_def Let_def)
    next
      case c: 4
      have step: "lsteps M n [] (set_peer p ?qa n)"
        by (rule lsteps_one [OF l_ack [OF idle 4(1) rcv 4(2) c(2) 4(3,4) c(1,3)]]) simp_all
      have "does M (modify (set_peer p ?qa)) n" using step by (simp add: does_def)
      moreover have "node_inv M (fst (modify (set_peer p ?qa) n))" using lsteps_inv [OF step inv] by simp
      ultimately have all: "does M (run (modify (set_peer p ?qa) # [maybe_advance_commit,
          whenever (\<lambda>m. rn_role m = Leader \<and> rn_pending_storage m = None \<and>
            (case fmlookup (rn_peers m) p of None \<Rightarrow> False | Some current \<Rightarrow> pp_match_index current < rn_durable_last_log_index m))
          (send_append p)])) n"
        by (rule does_run_Cons [OF _ rest])
      with 4 c show ?thesis
        by (simp add: does_def on_append_entries_response_def Let_def leD del: run_Cons)
    qed
  qed
qed

section \<open>Clients, timers and completions\<close>

lemma admit_client_lsteps:
  assumes idle: "idle n" and lead: "rn_role n = Leader" "rn_leader_ready n" and ok: "command_ok (rn_config n) c"
  shows "does M (admit_client token c) n"
proof -
  let ?e = "\<lparr>ent_index = last_log_index n + 1, ent_term = rn_term n, ent_command = Some c\<rparr>"
  consider "last_log_index n = -1" | "last_log_index n \<noteq> -1" "\<not> can_append_client n ?e"
    | "last_log_index n \<noteq> -1" "can_append_client n ?e" by blast
  then show ?thesis
  proof cases
    case 3
    let ?b = "empty_batch\<lparr>pb_entries := [?e]\<rparr>"
    let ?m = "n\<lparr>rn_log := rn_log n @ [?e],
        rn_pending_sessions := fmupd (cmd_session c) (last_log_index n + 1) (rn_pending_sessions n),
        rn_pending_clients := fmupd (last_log_index n + 1)
          \<lparr>pc_command = c, pc_digest = command_digest c, pc_waiters = [token]\<rparr> (rn_pending_clients n)\<rparr>"
    have "lsteps M n [] (pend op ?b AfterClientAppend ?m)" for op
      by (rule lsteps_then_quiet [OF lsteps_one [OF l_client [OF idle lead 3(1) ok refl 3(2), of M op]]])
        (simp add: core_def pend_def)
    then have "lsteps M n [] (fst (begin_persist ?b AfterClientAppend after_client_append ?m))"
      "sends (snd (begin_persist ?b AfterClientAppend after_client_append ?m)) = []"
      using idle by (intro begin_persist_lsteps; simp add: batch_empty_def empty_batch_def idle_def)+
    with 3 show ?thesis by (simp add: does_def admit_client_def Let_def)
  qed (simp_all add: does_def admit_client_def lsteps.intros)
qed

lemma join_pending_lsteps:
  assumes idle: "idle n" and lead: "rn_role n = Leader" "rn_leader_ready n" and ok: "command_ok (rn_config n) c"
  shows "does M (join_pending token c) n"
proof -
  let ?m = "n\<lparr>rn_pending_sessions := fmdrop (cmd_session c) (rn_pending_sessions n)\<rparr>"
  have "does M (admit_client token c) n" by (rule admit_client_lsteps [OF assms])
  moreover have "does M (admit_client token c) ?m"
    by (rule admit_client_lsteps) (use assms in \<open>simp_all add: idle_def\<close>)
  then have "lsteps M n (sends (snd (admit_client token c ?m))) (fst (admit_client token c ?m))"
    unfolding does_def by (rule lsteps_trans_silent [OF lsteps_quiet [OF core_updates(2)]])
  ultimately show ?thesis
    by (auto simp: does_def join_pending_def core_updates lsteps.intros intro: lsteps_quiet split: option.split)
qed

lemma on_client_request_lsteps:
  assumes idle: "idle n"
  shows "does M (on_client_request token c) n"
  using join_pending_lsteps [OF idle, of c M token]
  by (auto simp: does_def on_client_request_def lsteps.intros split: option.split)

lemma on_timer_lsteps:
  assumes inv: "node_inv M n" and idle: "idle n"
  shows "does M (on_timer kind g) n"
proof -
  consider "kind = TimerElection" "g = rn_election_generation n" "rn_role n \<noteq> Leader"
    | "kind = TimerHeartbeat" "g = rn_heartbeat_generation n" "rn_role n = Leader" | "on_timer kind g n = skip n"
    by (cases kind; cases "g = rn_election_generation n \<and> rn_role n \<noteq> Leader";
        cases "g = rn_heartbeat_generation n \<and> rn_role n = Leader") (auto simp: on_timer_def)
  then show ?thesis
  proof cases
    case 1
    with begin_election_lsteps [OF idle 1(3)] idle show ?thesis by (simp add: does_def on_timer_def idle_def)
  next
    case 2
    let ?age = "modify (\<lambda>m. m\<lparr>rn_peers := fmmap (age_progress (rn_config m)) (rn_peers m)\<rparr>)"
    have "rel_option (keeps_match n) (fmlookup (rn_peers n) p) (fmlookup (fmmap (age_progress (rn_config n)) (rn_peers n)) p)" for p
      by (cases "fmlookup (rn_peers n) p") (auto simp: keeps_match_def age_progress_def split: option.split)
    then have age: "does M ?age n" by (simp add: does_def lsteps_one [OF l_progress [OF idle 2(3)]])
    have "does M (run [?age, send_all_appends, schedule_heartbeat]) n"
      by (intro does_run_Cons age send_all_appends_lsteps does_inv [OF age inv]) simp_all
    with 2 show ?thesis by (simp add: does_def on_timer_def)
  qed (simp add: does_def lsteps.intros)
qed

lemma on_message_lsteps:
  assumes inv: "node_inv M n" and idle: "idle n" and env: "env \<in> M"
  shows "does M (on_message env) n"
proof (cases "env_to env \<noteq> rn_id n \<or> env_from env = rn_id n \<or> \<not> is_member n (env_from env)")
  case True
  then show ?thesis by (simp add: does_def on_message_def lsteps.intros)
next
  case False
  then have "received M n (env_from env) (env_message env)"
    using env by (cases env) (auto simp: received_def from_peer_def is_member_def)
  with on_request_vote_lsteps [OF idle] on_request_vote_response_lsteps [OF inv idle]
    on_append_entries_lsteps [OF inv idle] on_append_entries_response_lsteps [OF inv idle] False
  show ?thesis by (auto simp: does_def on_message_def split: Message.split)
qed

text \<open>
  A completion of the outstanding write: the node first records what became durable, then runs the
  callback. Any other completion changes nothing, and a failed one makes the node unavailable.
\<close>

lemma on_storage_complete_lsteps:
  assumes inv: "node_inv M n" and ps: "rn_pending_storage n = Some ps"
  shows "lsteps M (completed ps n) (sends (snd (on_storage_complete (ps_op_id ps) True err n)))
     (fst (on_storage_complete (ps_op_id ps) True err n))"
  using after_success_lsteps [OF inv_complete [OF inv ps]] ps
  by (simp add: on_storage_complete_def does_def completed_def [symmetric])

lemma failed_completion_lsteps:
  assumes ps: "rn_pending_storage n = Some ps"
  shows "does M (on_storage_complete (ps_op_id ps) False err) n"
proof -
  have "core (make_unavailable (n\<lparr>rn_pending_storage := None\<rparr>)) = core (make_unavailable n)"
    by (simp add: core_def make_unavailable_def)
  then have "lsteps M n [] (fst (fail_storage d (n\<lparr>rn_pending_storage := None\<rparr>)))" for d
    using lsteps_then_quiet [OF lsteps_one [OF l_fail]] fail_storage_core by metis
  then show ?thesis using ps by (simp add: does_def on_storage_complete_def)
qed

lemma unexpected_completion:
  assumes "rn_pending_storage n = None \<or> ps_op_id (the (rn_pending_storage n)) \<noteq> op"
  shows "does M (on_storage_complete op success err) n" "fst (on_storage_complete op success err n) = n"
  using assms by (auto simp: does_def on_storage_complete_def lsteps.intros split: option.split)

section \<open>Events\<close>

definition event_in :: "MessageEnvelope set \<Rightarrow> RaftEvent \<Rightarrow> bool" where
  "event_in M ev = (case ev of MessageReceived env \<Rightarrow> env \<in> M | _ \<Rightarrow> True)"

lemma dispatch_lsteps:
  assumes inv: "node_inv M n" and idle: "idle n" and ev: "event_in M ev" "\<not> is_storage_complete ev"
  shows "does M (dispatch ev) n"
  using ev on_timer_lsteps [OF inv idle] on_message_lsteps [OF inv idle] on_client_request_lsteps [OF idle]
  by (cases ev) (auto simp: dispatch_def event_in_def does_def)

definition queue_ok :: "MessageEnvelope set \<Rightarrow> RaftNode \<Rightarrow> bool" where
  "queue_ok M n \<longleftrightarrow> (\<forall>ev \<in> set (rn_deferred_events n). event_in M ev \<and> \<not> is_storage_complete ev)"

lemma dispatch_queue_ok: "queue_ok M n \<Longrightarrow> queue_ok M (fst (dispatch ev n))"
  using dispatch_queue_cases [of ev n] by (auto simp: queue_ok_def)

lemma drain_unfold:
  "drain n = (if idle n then (case rn_deferred_events n of [] \<Rightarrow> (n, []) | ev # evs \<Rightarrow>
      (let m = fst (dispatch ev (n\<lparr>rn_deferred_events := evs\<rparr>)) in
       (fst (drain m), snd (dispatch ev (n\<lparr>rn_deferred_events := evs\<rparr>)) @ snd (drain m)))) else (n, []))"
  by (subst drain.simps) (simp add: idle_def split_beta Let_def split: list.split)

lemma drain_induct:
  assumes "\<And>n. (\<And>ev evs. idle n \<Longrightarrow> rn_deferred_events n = ev # evs \<Longrightarrow>
      P (fst (dispatch ev (n\<lparr>rn_deferred_events := evs\<rparr>)))) \<Longrightarrow> P n"
  shows "P n"
proof (induction n rule: drain.induct)
  case (1 n)
  show ?case
  proof (rule assms)
    fix ev evs assume "idle n" and q: "rn_deferred_events n = ev # evs"
    then have c: "rn_pending_storage n = None \<and> rn_role n \<noteq> Unavailable" by (simp add: idle_def)
    show "P (fst (dispatch ev (n\<lparr>rn_deferred_events := evs\<rparr>)))"
      by (rule 1 [OF c q refl prod.collapse])
  qed
qed

lemma drain_lsteps:
  assumes "node_inv M n" "queue_ok M n"
  shows "does M drain n \<and> queue_ok M (fst (drain n)) \<and> (idle (fst (drain n)) \<longrightarrow> rn_deferred_events (fst (drain n)) = [])"
  using assms
proof (induction n rule: drain_induct)
  case (1 n)
  show ?case
  proof (cases "idle n \<and> rn_deferred_events n \<noteq> []")
    case True
    then obtain ev evs where q: "rn_deferred_events n = ev # evs" and idle: "idle n" by (cases "rn_deferred_events n") auto
    let ?n = "n\<lparr>rn_deferred_events := evs\<rparr>" let ?m = "fst (dispatch ev ?n)"
    have pop: "lsteps M n [] ?n" by (rule lsteps_quiet) (simp add: core_updates)
    have ok: "queue_ok M ?n" "event_in M ev" "\<not> is_storage_complete ev" using 1(3) q by (auto simp: queue_ok_def)
    have "does M (dispatch ev) ?n"
      by (rule dispatch_lsteps [OF lsteps_inv [OF pop 1(2)] _ ok(2,3)]) (use idle in \<open>simp add: idle_def\<close>)
    then have step: "lsteps M n (sends (snd (dispatch ev ?n))) ?m"
      unfolding does_def by (rule lsteps_trans_silent [OF pop])
    have "drain n = (fst (drain ?m), snd (dispatch ev ?n) @ snd (drain ?m))"
      using idle q by (subst drain_unfold) (simp add: Let_def)
    with 1(1) [OF idle q lsteps_inv [OF step 1(2)] dispatch_queue_ok [OF ok(1)]] step show ?thesis
      by (auto simp: does_def intro: lsteps_trans)
  next
    case False
    then have "drain n = (n, [])" by (subst drain_unfold) (auto split: list.split)
    with False 1(3) show ?thesis by (auto simp: does_def lsteps.intros)
  qed
qed

end
