(* ===== verification/RaftProperties.thy ===== *)
theory RaftProperties
  imports RaftHandlers "HOL-Library.Code_Target_Nat"
begin

text \<open>
  What \<^verbatim>\<open>RaftNode::step\<close> guarantees for one node, whatever events it is given: no internal
  exception, the invariant, monotone hard state, immutable committed entries, the durability gate
  before every message, certified commits, bounded queues and batches, and settled steps.
\<close>

section \<open>A step as a sequence of transitions\<close>

text \<open>The outstanding write that the event reports as completed, and the node with it recorded.\<close>

definition acknowledged :: "RaftEvent \<Rightarrow> RaftNode \<Rightarrow> PendingStorage option" where
  "acknowledged ev n =
     (case ev of
        StorageComplete op_id success error \<Rightarrow>
          (case rn_pending_storage n of
             Some ps \<Rightarrow> if success \<and> ps_op_id ps = op_id then Some ps else None
           | None \<Rightarrow> None)
      | _ \<Rightarrow> None)"

definition settled :: "RaftEvent \<Rightarrow> RaftNode \<Rightarrow> RaftNode" where
  "settled ev n = (case acknowledged ev n of None \<Rightarrow> n | Some ps \<Rightarrow> completed ps n)"

lemma acknowledged_pending: "acknowledged ev n = Some ps \<Longrightarrow> rn_pending_storage n = Some ps"
  by (auto simp: acknowledged_def split: RaftEvent.splits option.splits if_splits)

lemma settled_inv: "node_inv M n \<Longrightarrow> node_inv M (settled ev n)"
  using inv_complete(1) acknowledged_pending by (auto simp: settled_def split: option.split)

lemma completed_queue [simp]: "rn_deferred_events (completed ps n) = rn_deferred_events n"
  by (simp add: completed_def)

lemma settled_queue [simp]: "rn_deferred_events (settled ev n) = rn_deferred_events n"
  by (simp add: settled_def split: option.split)

lemma settled_other: "\<not> is_storage_complete ev \<Longrightarrow> settled ev n = n"
  by (cases ev) (simp_all add: settled_def acknowledged_def)

lemma complete_lsteps:
  assumes inv: "node_inv M n"
  shows "lsteps M (settled (StorageComplete op success err) n) (sends (snd (on_storage_complete op success err n)))
     (fst (on_storage_complete op success err n))"
proof -
  let ?ev = "StorageComplete op success err"
  consider ps where "rn_pending_storage n = Some ps" "ps_op_id ps = op" "success"
    | ps where "rn_pending_storage n = Some ps" "ps_op_id ps = op" "\<not> success"
    | "rn_pending_storage n = None \<or> ps_op_id (the (rn_pending_storage n)) \<noteq> op" by force
  then show ?thesis
  proof cases
    case (1 ps)
    then show ?thesis using on_storage_complete_lsteps [OF inv 1(1), of err] by (simp add: settled_def acknowledged_def)
  next
    case (2 ps)
    then show ?thesis using failed_completion_lsteps [OF 2(1), of M err] by (simp add: settled_def acknowledged_def does_def)
  next
    case 3
    then have "settled ?ev n = n" by (auto simp: settled_def acknowledged_def split: option.split)
    with unexpected_completion(1) [OF 3, of M success err] show ?thesis by (simp add: does_def)
  qed
qed

lemma dispatch_settled:
  assumes inv: "node_inv M n" and ev: "event_in M ev" and can: "idle n \<or> is_storage_complete ev"
  shows "lsteps M (settled ev n) (sends (snd (dispatch ev n))) (fst (dispatch ev n))"
proof (cases "is_storage_complete ev")
  case True
  then obtain op success err where "ev = StorageComplete op success err" by (cases ev) auto
  with complete_lsteps [OF inv] show ?thesis by (simp add: dispatch_def)
next
  case False
  then show ?thesis using dispatch_lsteps [OF inv _ ev] can by (simp add: settled_other does_def)
qed

lemma defer_event_simps:
  "core (fst (defer_event ev n)) = core n" "sends (snd (defer_event ev n)) = []"
  "rn_deferred_events (fst (defer_event ev n)) \<in> {rn_deferred_events n, rn_deferred_events n @ [ev]}"
  "length (rn_deferred_events (fst (defer_event ev n))) \<le> max (length (rn_deferred_events n)) (cfg_max_deferred_events (rn_config n))"
  by (auto simp: defer_event_def reply_if_client_def core_updates Let_def split: RaftEvent.split)

lemma reply_if_client_simps [simp]:
  "fst (reply_if_client s ev n) = n" "sends (snd (reply_if_client s ev n)) = []"
  by (auto simp: reply_if_client_def split: RaftEvent.split)

theorem raft_step_lsteps:
  assumes inv: "node_inv M n" and queue: "queue_ok M n" and ev: "event_in M ev"
  shows "lsteps M (settled ev n) (sends (snd (raft_step ev n))) (fst (raft_step ev n))"
    and "queue_ok M (fst (raft_step ev n))"
proof -
  let ?goal = "lsteps M (settled ev n) (sends (snd (raft_step ev n))) (fst (raft_step ev n)) \<and> queue_ok M (fst (raft_step ev n))"
  consider "rn_pending_storage n \<noteq> None \<and> \<not> is_storage_complete ev"
    | "rn_pending_storage n = None \<or> is_storage_complete ev" "rn_role n = Unavailable \<and> \<not> is_storage_complete ev"
    | "rn_pending_storage n = None \<or> is_storage_complete ev" "idle n \<or> is_storage_complete ev"
    by (cases "is_storage_complete ev"; cases "rn_pending_storage n"; cases "rn_role n = Unavailable") (simp_all add: idle_def)
  then have ?goal
  proof cases
    case 1
    then have "raft_step ev n = defer_event ev n" by (simp add: raft_step_def)
    with 1 defer_event_simps [of ev n] queue ev show ?thesis
      by (auto simp: settled_other queue_ok_def intro!: lsteps_quiet)
  next
    case 2
    then have "raft_step ev n = reply_if_client CS_unavailable ev n" by (auto simp: raft_step_def)
    with 2 queue show ?thesis by (simp add: settled_other lsteps.intros)
  next
    case 3
    let ?m = "fst (dispatch ev n)"
    have step: "lsteps M (settled ev n) (sends (snd (dispatch ev n))) ?m" by (rule dispatch_settled [OF inv ev 3(2)])
    have "node_inv M ?m" by (rule lsteps_inv [OF step settled_inv [OF inv]])
    note D = drain_lsteps [OF this dispatch_queue_ok [OF queue]]
    have "raft_step ev n = run [dispatch ev, drain] n" using 3 by (auto simp: raft_step_def idle_def)
    with D lsteps_trans [OF step] show ?thesis by (auto simp: does_def)
  qed
  then show "lsteps M (settled ev n) (sends (snd (raft_step ev n))) (fst (raft_step ev n))"
    and "queue_ok M (fst (raft_step ev n))" by blast+
qed

lemma raft_step_inv:
  "node_inv M n \<Longrightarrow> queue_ok M n \<Longrightarrow> event_in M ev \<Longrightarrow> node_inv M (fst (raft_step ev n))"
  using lsteps_inv [OF raft_step_lsteps(1) settled_inv] by blast

lemma raft_start_inv: "node_inv M n \<Longrightarrow> node_inv M (fst (raft_start n))"
  by (erule inv_quiet) (auto simp: raft_start_def core_def)

section \<open>Runs of a node\<close>

text \<open>The states of one node: construction from a recovered state, then \<^verbatim>\<open>start\<close> and any events.\<close>

inductive node_reach :: "RaftConfig \<Rightarrow> RaftNode \<Rightarrow> bool" for config :: RaftConfig where
  nr_new: "new_raft_node config rec = Inr n \<Longrightarrow> node_reach config n"
| nr_start: "node_reach config n \<Longrightarrow> node_reach config (fst (raft_start n))"
| nr_step: "node_reach config n \<Longrightarrow> node_reach config (fst (raft_step ev n))"

lemma event_in_UNIV [simp]: "event_in UNIV ev"
  by (cases ev) (simp_all add: event_in_def)

lemma raft_start_queue [simp]: "rn_deferred_events (fst (raft_start n)) = rn_deferred_events n"
  by (simp add: raft_start_def)

lemma raft_start_core [simp]: "core (fst (raft_start n)) = core n"
  by (simp add: raft_start_def core_def)

lemma new_raft_node_queue: "new_raft_node config rec = Inr n \<Longrightarrow> rn_deferred_events n = []"
  by (drule new_raft_node_eq(1)) (simp add: fresh_node_def)

lemma node_reach_inv:
  assumes "node_reach config n"
  shows "node_inv UNIV n" "queue_ok UNIV n"
  using assms
proof (induction rule: node_reach.induct)
  case (nr_new rec n)
  { case 1 show ?case by (rule new_raft_node_inv [OF nr_new]) }
  { case 2 show ?case using new_raft_node_queue [OF nr_new] by (simp add: queue_ok_def) }
next
  case (nr_start n)
  { case 1 show ?case by (rule raft_start_inv [OF nr_start(2)]) }
  { case 2 show ?case using nr_start(3) by (simp add: queue_ok_def) }
next
  case (nr_step n ev)
  { case 1 show ?case by (rule raft_step_inv [OF nr_step(2,3)]) simp }
  { case 2 show ?case by (rule raft_step_lsteps(2) [OF nr_step(2,3)]) simp }
qed

text \<open>The same runs with the events given since the construction, and the messages among them.\<close>

inductive node_run :: "RaftConfig \<Rightarrow> RaftEvent list \<Rightarrow> RaftNode \<Rightarrow> bool" for config :: RaftConfig where
  run_new: "new_raft_node config rec = Inr n \<Longrightarrow> node_run config [] n"
| run_start: "node_run config evs n \<Longrightarrow> node_run config evs (fst (raft_start n))"
| run_step: "node_run config evs n \<Longrightarrow> node_run config (evs @ [ev]) (fst (raft_step ev n))"

definition delivered :: "RaftEvent list \<Rightarrow> MessageEnvelope set" where
  "delivered evs = {env. MessageReceived env \<in> set evs}"

lemma delivered_snoc: "delivered evs \<subseteq> delivered (evs @ [ev])" "event_in (delivered (evs @ [ev])) ev"
  by (auto simp: delivered_def event_in_def split: RaftEvent.split)

lemma queue_ok_mono: "queue_ok M n \<Longrightarrow> M \<subseteq> M' \<Longrightarrow> queue_ok M' n"
  by (auto simp: queue_ok_def event_in_def split: RaftEvent.splits)

lemma node_run_reach: "node_run config evs n \<Longrightarrow> node_reach config n"
  by (induction rule: node_run.induct) (auto intro: node_reach.intros)

lemma node_run_inv:
  assumes "node_run config evs n"
  shows "node_inv (delivered evs) n \<and> queue_ok (delivered evs) n"
  using assms
proof (induction rule: node_run.induct)
  case (run_new rec n)
  show ?case using new_raft_node_inv [OF run_new] new_raft_node_queue [OF run_new] by (simp add: queue_ok_def)
next
  case (run_start evs n)
  then show ?case using raft_start_inv by (simp add: queue_ok_def)
next
  case (run_step evs n ev)
  then have "node_inv (delivered (evs @ [ev])) n" "queue_ok (delivered (evs @ [ev])) n"
    using node_inv_mono [OF _ delivered_snoc(1)] queue_ok_mono [OF _ delivered_snoc(1)] by blast+
  from raft_step_inv [OF this delivered_snoc(2)] raft_step_lsteps(2) [OF this delivered_snoc(2)] show ?case by blast
qed

section \<open>Relations every step respects\<close>

locale node_order =
  fixes R :: "RaftNode \<Rightarrow> RaftNode \<Rightarrow> bool"
  assumes refl: "R n n"
    and trans: "R a b \<Longrightarrow> R b c \<Longrightarrow> R a c"
    and lstep: "lstep M n ms m \<Longrightarrow> node_inv M n \<Longrightarrow> R n m"
    and complete: "node_inv M n \<Longrightarrow> rn_pending_storage n = Some ps \<Longrightarrow> R n (completed ps n)"
begin

lemma lsteps: "lsteps M n ms m \<Longrightarrow> node_inv M n \<Longrightarrow> R n m"
proof (induction rule: lsteps.induct)
  case (ls_step n ms m ms' k)
  then show ?case using trans [OF lstep [OF ls_step(1)]] lstep_inv [OF ls_step(1)] by blast
qed (rule refl)

lemma settled: "node_inv M n \<Longrightarrow> R n (settled ev n)"
  using complete acknowledged_pending refl by (auto simp: settled_def split: option.split)

lemma step:
  assumes "node_inv M n" "queue_ok M n" "event_in M ev"
  shows "R n (fst (raft_step ev n))"
  using trans [OF settled lsteps [OF raft_step_lsteps(1) [OF assms] settled_inv]] assms(1) by blast

end

text \<open>Terms only grow, and within a term a vote is cast once.\<close>

definition hard_state_le :: "HardState \<Rightarrow> HardState \<Rightarrow> bool" where
  "hard_state_le a b \<longleftrightarrow> hs_current_term a < hs_current_term b \<or>
     (hs_current_term a = hs_current_term b \<and> (hs_voted_for a = None \<or> hs_voted_for b = hs_voted_for a))"

lemma hard_state_le_refl [simp]: "hard_state_le a a"
  by (simp add: hard_state_le_def)

lemma hard_state_le_trans: "hard_state_le a b \<Longrightarrow> hard_state_le b c \<Longrightarrow> hard_state_le a c"
  by (auto simp: hard_state_le_def)

lemma hard_state_le_stepped: "hard_state_le (rn_hard_state n) (rn_hard_state (stepped t n))"
  by (simp add: stepped_def hard_state_le_def)

lemma pend_simps [simp]:
  "rn_hard_state (pend op b k n) = rn_hard_state n" "rn_log (pend op b k n) = rn_log n"
  "rn_commit_index (pend op b k n) = rn_commit_index n" "rn_config (pend op b k n) = rn_config n"
  "rn_last_applied (pend op b k n) = rn_last_applied n"
  "rn_durable_hard_state (pend op b k n) = rn_durable_hard_state n"
  by (simp_all add: pend_def)

lemma make_unavailable_simps [simp]:
  "rn_hard_state (make_unavailable n) = rn_hard_state n" "rn_log (make_unavailable n) = rn_log n"
  "rn_commit_index (make_unavailable n) = rn_commit_index n" "rn_config (make_unavailable n) = rn_config n"
  "rn_last_applied (make_unavailable n) = rn_last_applied n"
  "rn_durable_hard_state (make_unavailable n) = rn_durable_hard_state n"
  by (simp_all add: make_unavailable_def)

lemma set_peer_simps [simp]:
  "rn_hard_state (set_peer p q n) = rn_hard_state n" "rn_log (set_peer p q n) = rn_log n"
  "rn_commit_index (set_peer p q n) = rn_commit_index n" "rn_config (set_peer p q n) = rn_config n"
  "rn_last_applied (set_peer p q n) = rn_last_applied n"
  "rn_durable_hard_state (set_peer p q n) = rn_durable_hard_state n"
  by (simp_all add: set_peer_def)

lemma lstep_hard_state: "lstep M n ms m \<Longrightarrow> hard_state_le (rn_hard_state n) (rn_hard_state m)"
proof (induction rule: lstep.induct)
  case (l_quiet m n)
  then show ?case using core_eq_simps(2) [of m n] by simp
next
  case (l_campaign n hs op)
  then show ?case using succ_greater [of "rn_term n"] by (simp add: hard_state_le_def)
next
  case (l_grant n p r n1 hs op wl)
  have "hs_voted_for (rn_hard_state n) = None" if "rv_term r = rn_term n" using that l_grant(6,7) by simp
  then show ?case using l_grant(5) by (auto simp: hard_state_le_def l_grant(9))
next
  case (l_accept n p r op)
  then show ?case by (simp (no_asm_simp) add: raised_hard_state hard_state_le_def)
qed (simp_all (no_asm) add: hard_state_le_stepped)

lemma lstep_durable: "lstep M n ms m \<Longrightarrow> rn_durable_hard_state m = rn_durable_hard_state n"
proof (induction rule: lstep.induct)
  case (l_quiet m n)
  then show ?case using core_simps(4) by metis
next
  case (l_grant n p r n1 hs op wl)
  then show ?case by (simp (no_asm_simp) add: stepped_def)
qed (simp_all (no_asm))

text \<open>The same for the hard state on disk, which never runs ahead of the one in memory.\<close>

definition hard_states_le :: "RaftNode \<Rightarrow> RaftNode \<Rightarrow> bool" where
  "hard_states_le n m \<longleftrightarrow> hard_state_le (rn_hard_state n) (rn_hard_state m) \<and>
     (hard_state_le (rn_durable_hard_state n) (rn_hard_state n) \<longrightarrow>
        hard_state_le (rn_durable_hard_state n) (rn_durable_hard_state m) \<and>
        hard_state_le (rn_durable_hard_state m) (rn_hard_state m))"

lemma completed_durable:
  assumes "node_inv M n" "rn_pending_storage n = Some ps"
  shows "rn_durable_hard_state (completed ps n) = rn_hard_state n"
  using idle_durable(1) [OF inv_complete(1,2) [OF assms]] by simp

interpretation hs: node_order hard_states_le
proof (unfold_locales, goal_cases)
  case (3 M n ms m)
  then show ?case
    using lstep_hard_state [OF 3(1)] lstep_durable [OF 3(1)] hard_state_le_trans by (auto simp: hard_states_le_def)
next
  case (4 M n ps)
  then show ?case using completed_durable [OF 4] by (simp add: hard_states_le_def)
qed (auto simp: hard_states_le_def intro: hard_state_le_trans)

lemma durable_behind:
  "node_reach config n \<Longrightarrow> hard_state_le (rn_durable_hard_state n) (rn_hard_state n)"
proof (induction rule: node_reach.induct)
  case (nr_new rec n)
  then show ?case using new_raft_node_eq(1) [OF nr_new] by (simp add: fresh_node_def)
next
  case (nr_start n)
  then show ?case by (simp add: raft_start_def)
next
  case (nr_step n ev)
  then show ?case
    using hs.step [OF node_reach_inv [OF nr_step(1)], of ev] by (simp add: hard_states_le_def)
qed

text \<open>Committed entries stay, commit and apply cursors only grow.\<close>

definition keeps_committed :: "RaftNode \<Rightarrow> RaftNode \<Rightarrow> bool" where
  "keeps_committed n m \<longleftrightarrow> rn_config m = rn_config n \<and> rn_commit_index n \<le> rn_commit_index m \<and>
     rn_last_applied n \<le> rn_last_applied m \<and>
     take (unat (rn_commit_index n)) (rn_log m) = take (unat (rn_commit_index n)) (rn_log n)"

lemma keeps_committed_trans:
  assumes "keeps_committed a b" "keeps_committed b c"
  shows "keeps_committed a c"
proof -
  have "unat (rn_commit_index a) \<le> unat (rn_commit_index b)" using assms(1) by (simp add: keeps_committed_def word_le_nat_alt)
  moreover have "take (unat (rn_commit_index b)) (rn_log c) = take (unat (rn_commit_index b)) (rn_log b)"
    using assms(2) by (simp add: keeps_committed_def)
  ultimately have "take (unat (rn_commit_index a)) (rn_log c) = take (unat (rn_commit_index a)) (rn_log b)"
    by (metis min.absorb1 take_take)
  with assms show ?thesis by (auto simp: keeps_committed_def intro: order_trans)
qed

lemma lstep_keeps_committed: "lstep M n ms m \<Longrightarrow> node_inv M n \<Longrightarrow> keeps_committed n m"
proof (induction rule: lstep.induct)
  case (l_quiet m n)
  have "rn_last_applied m = rn_last_applied n" using l_quiet(1) core_simps(9) by metis
  then show ?case using core_eq_simps [OF l_quiet(1)] by (simp add: keeps_committed_def)
next
  case (l_grant n p r n1 hs op wl)
  then show ?case by (simp (no_asm_simp) add: keeps_committed_def)
next
  case (l_noop n e op)
  then show ?case using applied_le_log(2) [OF l_noop.prems] by (simp (no_asm_simp) add: keeps_committed_def)
next
  case (l_client n c e op)
  then show ?case using applied_le_log(2) [OF l_client.prems] by (simp (no_asm_simp) add: keeps_committed_def)
next
  case (l_accept n p r op)
  from accept_log_spec(6) [OF l_accept.prems l_accept(5,6,8)] show ?case
    by (simp (no_asm_simp) add: keeps_committed_def)
next
  case (l_advance n target op)
  from l_advance(4) show ?case by (simp (no_asm_simp) add: keeps_committed_def)
next
  case (l_apply n e)
  from unat_succ_less [OF l_apply(2)] show ?case by (simp (no_asm_simp) add: keeps_committed_def word_le_nat_alt)
qed (simp_all (no_asm) add: keeps_committed_def)

interpretation com: node_order keeps_committed
proof (unfold_locales, goal_cases)
  case (2 a b c)
  then show ?case by (rule keeps_committed_trans)
next
  case (3 M n ms m)
  then show ?case by (rule lstep_keeps_committed)
qed (simp_all add: keeps_committed_def)

section \<open>Messages\<close>

fun message_term :: "Message \<Rightarrow> Term" where
  "message_term (MRequestVote r) = rv_term r"
| "message_term (MRequestVoteResponse r) = rvr_term r"
| "message_term (MAppendEntries r) = ae_term r"
| "message_term (MAppendEntriesResponse r) = aer_term r"

text \<open>A message to another member that says no more than the hard state \<open>hs\<close> backs.\<close>

definition backed_by :: "RaftConfig \<Rightarrow> HardState \<Rightarrow> MessageEnvelope \<Rightarrow> bool" where
  "backed_by cfg hs env \<longleftrightarrow> env_from env = cfg_node_id cfg \<and> env_to env \<noteq> cfg_node_id cfg \<and>
     env_to env \<in> set (cfg_members cfg) \<and> message_term (env_message env) = hs_current_term hs \<and>
     (case env_message env of
        MRequestVote r \<Rightarrow> rv_candidate_id r = cfg_node_id cfg \<and> hs_voted_for hs = Some (cfg_node_id cfg)
      | MRequestVoteResponse r \<Rightarrow> rvr_vote_granted r \<longrightarrow> hs_voted_for hs = Some (env_to env)
      | MAppendEntries r \<Rightarrow> ae_leader_id r = cfg_node_id cfg \<and> hs_voted_for hs = Some (cfg_node_id cfg) \<and>
          append_fits cfg r
      | MAppendEntriesResponse r \<Rightarrow> True)"

inductive_cases lstep_sendE: "lstep M n (env # ms) m"

lemma lstep_backed:
  assumes "lstep M n ms m" "node_inv M n" "env \<in> set ms"
  shows "backed_by (rn_config n) (rn_durable_hard_state n) env"
proof (cases ms)
  case (Cons e es)
  with assms(1) have "lstep M n (e # es) m" by simp
  then show ?thesis
  proof (rule lstep_sendE)
    fix to msg
    assume e: "e = \<lparr>env_from = rn_id n, env_to = to, env_message = msg\<rparr>" "es = []"
      and i: "idle n" and msg: "may_send M n to msg" and to: "from_peer n to"
    have "env = e" using Cons e(2) assms(3) by simp
    with msg to e idle_durable(1) [OF assms(2) i] node_invD(9) [OF assms(2)] show ?thesis
      by (cases msg) (auto simp: backed_by_def from_peer_def role_ok_def)
  qed
qed (use assms(3) in simp)

lemma lsteps_backed:
  "lsteps M n ms m \<Longrightarrow> node_inv M n \<Longrightarrow> rn_durable_hard_state m = rn_durable_hard_state n \<and>
     (\<forall>env \<in> set ms. backed_by (rn_config n) (rn_durable_hard_state n) env)"
proof (induction rule: lsteps.induct)
  case (ls_step n ms m ms' k)
  have cfg: "rn_config m = rn_config n" using lstep_keeps_committed [OF ls_step(1,4)] by (simp add: keeps_committed_def)
  note dur = lstep_durable [OF ls_step(1)] and IH = ls_step(3) [OF lstep_inv [OF ls_step(1,4)]]
  have "\<forall>env \<in> set ms. backed_by (rn_config n) (rn_durable_hard_state n) env"
    using lstep_backed [OF ls_step(1,4)] by blast
  with cfg dur IH show ?case by auto
qed simp

section \<open>A running node\<close>

text \<open>A three-node configuration, a fresh node, and the events of an election it wins.\<close>

definition demo_config :: RaftConfig where
  "demo_config = \<lparr>cfg_node_id = 1, cfg_members = [3, 1, 2], cfg_election_timeout = 10, cfg_heartbeat_interval = 2,
     cfg_max_deferred_events = 2, cfg_max_uncommitted_entries = 4, cfg_max_uncommitted_bytes = 512,
     cfg_max_command_bytes = 64, cfg_max_key_bytes = 32, cfg_max_value_bytes = 32,
     cfg_max_append_entries_per_rpc = 2, cfg_max_append_bytes_per_rpc = 400, cfg_append_retry_heartbeats = 3,
     cfg_max_waiters_per_request = 2\<rparr>"

definition demo_recovered :: RecoveredState where
  "demo_recovered = \<lparr>rec_hard_state = \<lparr>hs_current_term = 0, hs_voted_for = None\<rparr>, rec_log = [], rec_commit_index = 0\<rparr>"

definition demo_start :: "RaftConfig \<Rightarrow> RaftNode" where
  "demo_start config = fst (raft_start (projr (new_raft_node config demo_recovered)))"

fun feed :: "RaftEvent list \<Rightarrow> RaftNode \<Rightarrow> RaftNode" where
  "feed [] n = n"
| "feed (ev # evs) n = feed evs (fst (raft_step ev n))"

definition demo_election :: "RaftEvent list" where
  "demo_election = [TimerFired TimerElection 1, StorageComplete 1 True [],
     MessageReceived \<lparr>env_from = 2, env_to = 1, env_message = MRequestVoteResponse \<lparr>rvr_term = 1, rvr_vote_granted = True\<rparr>\<rparr>]"

definition demo_ready :: "RaftEvent list" where
  "demo_ready = demo_election @ [StorageComplete 2 True [],
     MessageReceived \<lparr>env_from = 2, env_to = 1, env_message = MAppendEntriesResponse \<lparr>aer_term = 1, aer_rpc_id = 1,
       aer_success = True, aer_match_index = 1, aer_conflict_index = 0, aer_conflict_term = 0\<rparr>\<rparr>]"

definition demo_put :: ClientCommand where
  "demo_put = \<lparr>cmd_session = SessionId 0 1, cmd_sequence = 1, cmd_kind = CmdPut, cmd_key = [107], cmd_value = replicate 20 118\<rparr>"

definition demo_client :: "RaftEvent list" where
  "demo_client = demo_ready @ [StorageComplete 3 True [], ClientRequest 7 demo_put]"

lemma feed_reach: "node_reach config n \<Longrightarrow> node_reach config (feed evs n)"
  by (induction evs arbitrary: n) (auto intro: nr_step)

lemma demo_reach: "\<not> isl (new_raft_node config demo_recovered) \<Longrightarrow> node_reach config (feed evs (demo_start config))"
  unfolding demo_start_def by (intro feed_reach nr_start nr_new) simp

lemma feed_run: "node_run config es n \<Longrightarrow> node_run config (es @ evs) (feed evs n)"
proof (induction evs arbitrary: es n)
  case (Cons ev evs)
  from Cons.IH [OF run_step [OF Cons.prems]] show ?case by simp
qed simp

lemma demo_run: "\<not> isl (new_raft_node config demo_recovered) \<Longrightarrow> node_run config evs (feed evs (demo_start config))"
  using feed_run [OF run_start [OF run_new]] unfolding demo_start_def by fastforce

lemma demo_config_ok: "\<not> isl (new_raft_node demo_config demo_recovered)"
  by code_simp

lemmas demo_reachable = demo_reach [OF demo_config_ok]

lemma demo_election_facts:
  "let n = feed demo_election (demo_start demo_config); ps = the (rn_pending_storage n) in
     rn_role n = Leader \<and> rn_pending_storage n \<noteq> None \<and> ps_after_success ps = AfterLeaderNoop \<and> rn_term n = 1"
  by code_simp

lemma demo_ready_facts:
  "let n = feed demo_ready (demo_start demo_config); ps = the (rn_pending_storage n) in
     rn_role n = Leader \<and> rn_pending_storage n \<noteq> None \<and> pb_commit_index (ps_batch ps) = Some 1 \<and> rn_commit_index n = 1"
  by code_simp

lemma demo_client_facts:
  "let n = feed demo_client (demo_start demo_config); ps = the (rn_pending_storage n) in
     rn_pending_storage n \<noteq> None \<and> ps_after_success ps = AfterClientAppend \<and> rn_leader_ready n \<and>
     rn_last_applied n = 1 \<and> length (rn_log n) = 2"
  by code_simp

lemma demo_append_sent:
  "let n = feed demo_election (demo_start demo_config) in
     SendEffect \<lparr>env_from = 1, env_to = 2, env_message = MAppendEntries \<lparr>ae_term = 1, ae_leader_id = 1, ae_rpc_id = 1,
         ae_prev_log_index = 0, ae_prev_log_term = 0,
         ae_entries = [\<lparr>ent_index = 1, ent_term = 1, ent_command = None\<rparr>], ae_leader_commit = 0\<rparr>\<rparr>
       \<in> set (snd (raft_step (StorageComplete 2 True []) n))"
  by code_simp

section \<open>The deferred queue\<close>

lemma drain_length: "length (rn_deferred_events (fst (drain n))) \<le> length (rn_deferred_events n)"
proof (induction n rule: drain_induct)
  case (1 n)
  show ?case
  proof (cases "idle n \<and> rn_deferred_events n \<noteq> []")
    case True
    then obtain ev evs where q: "rn_deferred_events n = ev # evs" by (cases "rn_deferred_events n") auto
    let ?n = "n\<lparr>rn_deferred_events := evs\<rparr>"
    have "drain n = (fst (drain (fst (dispatch ev ?n))), snd (dispatch ev ?n) @ snd (drain (fst (dispatch ev ?n))))"
      using True q by (subst drain_unfold) (simp add: Let_def)
    with 1 [OF _ q] True q dispatch_queue_cases [of ev ?n] show ?thesis by auto
  qed (subst drain_unfold, auto split: list.split)
qed

lemma raft_step_queue_length:
  "length (rn_deferred_events (fst (raft_step ev n))) \<le> max (length (rn_deferred_events n)) (cfg_max_deferred_events (rn_config n))"
  using defer_event_simps(4) [of ev n] drain_length [of "fst (dispatch ev n)"] dispatch_queue_cases [of ev n]
  by (auto simp: raft_step_def)

lemma queue_bounded:
  assumes "node_reach config n"
  shows "rn_config n = config\<lparr>cfg_members := sort (cfg_members config)\<rparr>"
    "length (rn_deferred_events n) \<le> cfg_max_deferred_events config"
  using assms
proof (induction rule: node_reach.induct)
  case (nr_new rec n)
  { case 1 show ?case using new_raft_node_eq(1) [OF nr_new] by (simp add: fresh_node_def) }
  { case 2 show ?case using new_raft_node_queue [OF nr_new] by simp }
next
  case (nr_start n)
  { case 1 show ?case using nr_start(2) by (simp add: raft_start_def) }
  { case 2 show ?case using nr_start(3) by simp }
next
  case (nr_step n ev)
  { case 1 show ?case using com.step [OF node_reach_inv [OF nr_step(1)], of ev] nr_step(2) by (simp add: keeps_committed_def) }
  { case 2 show ?case using raft_step_queue_length [of ev n] nr_step(2,3) by simp }
qed

section \<open>Messages and certificates\<close>

lemma step_backed:
  assumes "node_reach config n" and "SendEffect env \<in> set (snd (raft_step ev n))"
  shows "backed_by (rn_config n) (rn_durable_hard_state (fst (raft_step ev n))) env"
proof -
  note N = node_reach_inv [OF assms(1)]
  have "rn_config (settled ev n) = rn_config n" using com.settled [OF N(1)] by (simp add: keeps_committed_def)
  with lsteps_backed [OF raft_step_lsteps(1) [OF N event_in_UNIV, of ev] settled_inv [OF N(1)]] assms(2) show ?thesis
    by (simp add: in_sends)
qed

lemma committable_term: "committable n i \<Longrightarrow> term_at n i = rn_term n \<and> i \<noteq> 0 \<and> quorum_size n \<le> replicas n i"
  by (auto simp: committable_def term_at_def entry_at_def split: option.splits if_splits)

lemma leader_commit_batch:
  assumes "node_inv M n" "rn_role n = Leader" "rn_pending_storage n = Some ps" "pb_commit_index (ps_batch ps) = Some c"
  shows "c = rn_commit_index n" "committable n c" "c \<le> rn_durable_last_log_index n"
proof -
  have "durable_ok n (ps_batch ps)" "callback_ok M n (ps_after_success ps)" "leader_batch_ok n (ps_batch ps) (ps_after_success ps)"
    using node_invD(10) [OF assms(1)] assms(3) by (auto simp: storage_ok_def)
  with assms(2,4) node_invD(6) [OF assms(1)] show "c = rn_commit_index n" "committable n c" "c \<le> rn_durable_last_log_index n"
    by (simp_all add: durable_ok_def leader_batch_ok_def)
qed

text \<open>The count of \<^verbatim>\<open>maybe_advance_commit\<close>: the node itself and the peers with a sufficient match index.\<close>

lemma replicas_card:
  "replicas n i = Suc (card {p. \<exists>q. fmlookup (rn_peers n) p = Some q \<and> i \<le> pp_match_index q})"
proof -
  let ?l = "sorted_list_of_fmap (rn_peers n)" let ?P = "\<lambda>(p, q). i \<le> pp_match_index q"
  have keys: "map fst ?l = sorted_list_of_fset (fmdom (rn_peers n))"
    by (simp add: sorted_list_of_fmap_def comp_def)
  have "distinct (map fst (filter ?P ?l))"
    by (rule distinct_map_filter) (simp add: keys sorted_list_of_fset.rep_eq)
  then have "length (filter ?P ?l) = card (fst ` set (filter ?P ?l))" by (metis distinct_card length_map set_map)
  also have "fst ` set (filter ?P ?l) = {p. \<exists>q. fmlookup (rn_peers n) p = Some q \<and> i \<le> pp_match_index q}"
    by (force simp: sorted_list_of_fmap_def fmlookup_dom_iff)
  finally show ?thesis by (simp add: replicas_def)
qed

lemma replicas_acked:
  assumes inv: "node_inv M n" and lead: "rn_role n = Leader" and i: "i \<noteq> 0"
  shows "replicas n i \<le> card {p \<in> set (cfg_members (rn_config n)). p = rn_id n \<or> acked M n p i}"
proof -
  let ?A = "{p. \<exists>q. fmlookup (rn_peers n) p = Some q \<and> i \<le> pp_match_index q}"
  let ?B = "{p \<in> set (cfg_members (rn_config n)). p = rn_id n \<or> acked M n p i}"
  have "peers_ok M n" using node_invD(9) [OF inv] lead by (simp add: role_ok_def)
  then have A: "from_peer n p \<and> acked M n p i" if "p \<in> ?A" for p
    using that i by (fastforce simp: peers_ok_def acked_def)
  then have sub: "insert (rn_id n) ?A \<subseteq> ?B" and "rn_id n \<notin> ?A"
    using members_self [OF node_invD(1) [OF inv]] by (auto simp: from_peer_def)
  moreover have "finite ?B" by simp
  ultimately have "card (insert (rn_id n) ?A) = Suc (card ?A)" by (meson card_insert_disjoint finite_insert finite_subset)
  with card_mono [OF \<open>finite ?B\<close> sub] show ?thesis by (simp add: replicas_card)
qed

lemma recovered_entry_bytes:
  "recovered_log_ok cfg t i l \<Longrightarrow> e \<in> set l \<Longrightarrow> entry_bytes e \<le> cfg_max_append_bytes_per_rpc cfg - kAppendRpcOverhead"
  by (induction l arbitrary: i) auto

section \<open>Properties\<close>

text \<open>C20. Whatever events a node is given, \<^verbatim>\<open>begin_persist\<close> is never entered while a storage operation
  is outstanding: the \<^verbatim>\<open>std::logic_error\<close> it would throw is unreachable.\<close>

theorem raft_never_throws:
  assumes "node_reach config n"
  shows "\<not> rn_logic_error (fst (raft_step ev n))"
  using node_invD(3) [OF node_reach_inv(1) [OF nr_step [OF assms]]] .

theorem raft_never_throws_witness:
  "\<not> rn_logic_error (fst (raft_step (StorageComplete 4 True []) (feed demo_client (demo_start demo_config))))"
  by (rule raft_never_throws [OF demo_reachable])

text \<open>C16. A step never lowers the term and never changes a vote within a term, neither in memory nor
  in the hard state known to be on disk.\<close>

theorem raft_votes_once:
  assumes "node_reach config n"
  shows "hard_state_le (rn_hard_state n) (rn_hard_state (fst (raft_step ev n))) \<and>
     hard_state_le (rn_durable_hard_state n) (rn_durable_hard_state (fst (raft_step ev n)))"
  using hs.step [OF node_reach_inv [OF assms], of ev] durable_behind [OF assms] by (simp add: hard_states_le_def)

theorem raft_votes_once_witness:
  "hard_state_le (rn_hard_state (feed demo_election (demo_start demo_config)))
     (rn_hard_state (fst (raft_step (StorageComplete 2 True []) (feed demo_election (demo_start demo_config)))))"
  using raft_votes_once [OF demo_reachable] by blast

text \<open>C15. A step never moves the commit index or the apply cursor back, and never changes or removes an
  entry at or below the commit index.\<close>

theorem raft_committed_immutable:
  assumes "node_reach config n"
  shows "keeps_committed n (fst (raft_step ev n))"
  by (rule com.step [OF node_reach_inv [OF assms]]) simp

theorem raft_committed_immutable_witness:
  "rn_commit_index (feed demo_ready (demo_start demo_config)) = 1 \<and>
   keeps_committed (feed demo_ready (demo_start demo_config))
     (fst (raft_step (StorageComplete 3 True []) (feed demo_ready (demo_start demo_config))))"
  using raft_committed_immutable [OF demo_reachable] demo_ready_facts by (simp add: Let_def)

text \<open>C17. Every message a step sends goes to another member and is backed by the hard state on disk at
  that moment: it carries the durable term, a granted vote and a vote request are the durable vote,
  and a batch of entries respects the configured limits.\<close>

theorem raft_sends_durable:
  assumes "node_reach config n" and "SendEffect env \<in> set (snd (raft_step ev n))"
  shows "backed_by (rn_config n) (rn_durable_hard_state (fst (raft_step ev n))) env"
  by (rule step_backed [OF assms])

theorem raft_sends_durable_witness:
  "let n = feed demo_election (demo_start demo_config); ev = StorageComplete 2 True [];
       env = \<lparr>env_from = 1, env_to = 2, env_message = MAppendEntries \<lparr>ae_term = 1, ae_leader_id = 1, ae_rpc_id = 1,
         ae_prev_log_index = 0, ae_prev_log_term = 0,
         ae_entries = [\<lparr>ent_index = 1, ent_term = 1, ent_command = None\<rparr>], ae_leader_commit = 0\<rparr>\<rparr> in
     SendEffect env \<in> set (snd (raft_step ev n)) \<and>
     backed_by (rn_config n) (rn_durable_hard_state (fst (raft_step ev n))) env"
  using raft_sends_durable [OF demo_reachable demo_append_sent [unfolded Let_def]] demo_append_sent by (simp add: Let_def)

text \<open>C19. The state machine is always the replay of the applied prefix of the log, which is a prefix of
  the committed one.\<close>

theorem raft_state_is_replay:
  assumes "node_reach config n"
  shows "rn_state_machine n = replay kv_empty (take (unat (rn_last_applied n)) (rn_log n)) \<and>
     unat (rn_last_applied n) \<le> unat (rn_commit_index n) \<and> unat (rn_commit_index n) \<le> length (rn_log n)"
  using node_invD(8) [OF node_reach_inv(1) [OF assms]] applied_le_log [OF node_reach_inv(1) [OF assms]] by simp

theorem raft_state_is_replay_witness:
  "rn_state_machine (feed demo_client (demo_start demo_config)) =
     replay kv_empty (take 1 (rn_log (feed demo_client (demo_start demo_config))))"
  using raft_state_is_replay [OF demo_reachable, of demo_client] demo_client_facts by (simp add: Let_def)

text \<open>C18. Whenever a leader has a batch with a commit record outstanding, the entry at the recorded index is
  of its own term and on its disk, and a majority of the members stores it by what they said: each of them is the
  leader itself or a member from which the node has received a successful reply of this term that covers the index.\<close>

theorem raft_commit_certificate:
  assumes "node_run config evs n" and "rn_role n = Leader" and "rn_pending_storage n = Some ps"
    and "pb_commit_index (ps_batch ps) = Some c"
  shows "c = rn_commit_index n \<and> term_at n c = rn_term n \<and> c \<le> rn_durable_last_log_index n \<and>
     length (cfg_members config) < 2 * card {p \<in> set (cfg_members config). p = cfg_node_id config \<or>
        (\<exists>r. MessageReceived \<lparr>env_from = p, env_to = cfg_node_id config, env_message = MAppendEntriesResponse r\<rparr> \<in> set evs \<and>
             aer_success r \<and> aer_term r = rn_term n \<and> c \<le> aer_match_index r)}" (is "_ \<and> _ \<and> _ \<and> _ < 2 * card ?Q")
proof -
  have inv: "node_inv (delivered evs) n" using node_run_inv [OF assms(1)] by blast
  note C = leader_commit_batch [OF inv assms(2-4)]
  have cfg: "rn_config n = config\<lparr>cfg_members := sort (cfg_members config)\<rparr>"
    by (rule queue_bounded(1) [OF node_run_reach [OF assms(1)]])
  then have "{p \<in> set (cfg_members (rn_config n)). p = rn_id n \<or> acked (delivered evs) n p c} \<subseteq> ?Q"
    by (auto simp: acked_def received_def delivered_def)
  from card_mono [OF _ this] replicas_acked [OF inv assms(2), of c] committable_term [OF C(2)]
  have "length (cfg_members config) div 2 + 1 \<le> card ?Q" by (simp add: quorum_size_def cfg)
  then have "length (cfg_members config) < 2 * card ?Q" by linarith
  with C committable_term [OF C(2)] show ?thesis by blast
qed

theorem raft_commit_certificate_witness:
  "let n = feed demo_ready (demo_start demo_config) in rn_commit_index n = 1 \<and> term_at n 1 = rn_term n \<and>
     length (cfg_members demo_config) < 2 * card {p \<in> set (cfg_members demo_config). p = cfg_node_id demo_config \<or>
       (\<exists>r. MessageReceived \<lparr>env_from = p, env_to = cfg_node_id demo_config, env_message = MAppendEntriesResponse r\<rparr> \<in> set demo_ready \<and>
            aer_success r \<and> aer_term r = rn_term n \<and> 1 \<le> aer_match_index r)}"
  using raft_commit_certificate [OF demo_run [OF demo_config_ok], of demo_ready "the (rn_pending_storage (feed demo_ready (demo_start demo_config)))" 1]
    demo_ready_facts unfolding Let_def by fastforce

text \<open>C22. A leader admits an entry only within the configured bounds on uncommitted entries and bytes, the
  new entry included, and a client entry leaves room for one more no-op.\<close>

theorem raft_admission_bounded:
  assumes "node_reach config n" and "rn_pending_storage n = Some ps"
    and "ps_after_success ps = AfterLeaderNoop \<or> ps_after_success ps = AfterClientAppend"
  shows "uncommitted_entry_count n \<le> cfg_max_uncommitted_entries config \<and>
     uncommitted_bytes n \<le> cfg_max_uncommitted_bytes config \<and>
     (ps_after_success ps = AfterClientAppend \<longrightarrow>
        uncommitted_entry_count n + 1 \<le> cfg_max_uncommitted_entries config \<and>
        uncommitted_bytes n + kEntryOverhead \<le> cfg_max_uncommitted_bytes config)"
proof -
  have "callback_ok UNIV n (ps_after_success ps)"
    using node_invD(10) [OF node_reach_inv(1) [OF assms(1)]] assms(2) by (simp add: storage_ok_def)
  with assms(3) queue_bounded(1) [OF assms(1)] show ?thesis by auto
qed

theorem raft_admission_bounded_witness:
  "uncommitted_bytes (feed demo_client (demo_start demo_config)) + kEntryOverhead \<le> 512"
  using raft_admission_bounded [OF demo_reachable, of demo_client "the (rn_pending_storage (feed demo_client (demo_start demo_config)))"]
    demo_client_facts by (simp add: Let_def demo_config_def)

text \<open>C21. Every step ends: the deferred queue never exceeds its bound, and it is empty again whenever no
  write is outstanding and storage has not failed.\<close>

theorem raft_step_settles:
  assumes "node_reach config n"
  shows "length (rn_deferred_events (fst (raft_step ev n))) \<le> cfg_max_deferred_events config \<and>
     (rn_pending_storage (fst (raft_step ev n)) = None \<and> rn_role (fst (raft_step ev n)) \<noteq> Unavailable \<longrightarrow>
        rn_deferred_events (fst (raft_step ev n)) = [])"
proof
  show "length (rn_deferred_events (fst (raft_step ev n))) \<le> cfg_max_deferred_events config"
    by (rule queue_bounded(2) [OF nr_step [OF assms]])
  note N = node_reach_inv [OF assms]
  show "rn_pending_storage (fst (raft_step ev n)) = None \<and> rn_role (fst (raft_step ev n)) \<noteq> Unavailable \<longrightarrow>
      rn_deferred_events (fst (raft_step ev n)) = []"
  proof (cases "(rn_pending_storage n \<noteq> None \<or> rn_role n = Unavailable) \<and> \<not> is_storage_complete ev")
    case True
    then show ?thesis
      using idle_core [OF defer_event_simps(1) [of ev n]] by (auto simp: raft_step_def idle_def)
  next
    case False
    then have eq: "raft_step ev n = run [dispatch ev, drain] n" and can: "idle n \<or> is_storage_complete ev"
      by (auto simp: raft_step_def idle_def)
    have "node_inv UNIV (fst (dispatch ev n))"
      by (rule lsteps_inv [OF dispatch_settled [OF N(1) event_in_UNIV can] settled_inv [OF N(1)]])
    from drain_lsteps [OF this dispatch_queue_ok [OF N(2)]] show ?thesis by (simp add: eq idle_def)
  qed
qed

theorem raft_step_settles_witness:
  "length (rn_deferred_events (fst (raft_step (TimerFired TimerHeartbeat 0) (feed demo_client (demo_start demo_config))))) \<le> 2"
  using raft_step_settles [OF demo_reachable] by (simp add: demo_config_def)

text \<open>C23. A leader serves clients only behind a committed entry of its own term: when it is ready, some
  applied entry has the current term.\<close>

theorem raft_ready_after_barrier:
  assumes "node_reach config n" and "rn_leader_ready n"
  shows "rn_role n = Leader \<and> (\<exists>i. 0 < i \<and> i \<le> rn_last_applied n \<and> term_at n i = rn_term n)"
proof -
  have "role_ok UNIV n" by (rule node_invD(9) [OF node_reach_inv(1) [OF assms(1)]])
  with assms(2) have "rn_role n = Leader" "rn_readiness_index n \<noteq> 0" "rn_readiness_index n \<le> rn_last_applied n"
    "term_at n (rn_readiness_index n) = rn_term n"
    by (auto simp: role_ok_def)
  then show ?thesis by (auto simp: word_gt_0)
qed

theorem raft_ready_after_barrier_witness:
  "rn_role (feed demo_client (demo_start demo_config)) = Leader"
  using raft_ready_after_barrier [OF demo_reachable, of demo_client] demo_client_facts by (simp add: Let_def)

text \<open>C24. The log of a node is well formed whatever it receives: indices are consecutive from one, terms
  are positive and at most the current term, commands pass the validity checks, and the vote names a member.\<close>

theorem raft_log_wellformed:
  assumes "node_reach config n"
  shows "(\<forall>i < length (rn_log n). ent_index (rn_log n ! i) = of_nat (Suc i) \<and> ent_term (rn_log n ! i) \<noteq> 0 \<and>
        ent_term (rn_log n ! i) \<le> rn_term n \<and>
        (\<forall>c. ent_command (rn_log n ! i) = Some c \<longrightarrow> command_ok (rn_config n) c)) \<and>
     (\<forall>v. rn_voted_for n = Some v \<longrightarrow> rn_term n \<noteq> 0 \<and> v \<in> set (cfg_members config))"
  using node_invD(4,5) [OF node_reach_inv(1) [OF assms]] queue_bounded(1) [OF assms]
  by (auto simp: log_wf_def entry_wf_def split: option.splits)

theorem raft_log_wellformed_witness:
  "ent_index (rn_log (feed demo_client (demo_start demo_config)) ! 1) = 2"
  using raft_log_wellformed [OF demo_reachable, of demo_client] demo_client_facts by (auto simp: Let_def)

text \<open>An entry larger than the byte budget of an \<^verbatim>\<open>AppendEntries\<close>, which \<^verbatim>\<open>on_client_request\<close> does not test:
  with a budget below the command limit, this leader accepts and stores one.\<close>

theorem raft_oversized_entry:
  "let config = demo_config\<lparr>cfg_max_append_bytes_per_rpc := 140\<rparr>;
       n = feed (demo_client @ [StorageComplete 4 True []]) (demo_start config) in
     \<not> isl (new_raft_node config demo_recovered) \<and> rn_role n = Leader \<and> rn_durable_last_log_index n = 2 \<and>
     cfg_max_append_bytes_per_rpc config < kAppendRpcOverhead + entry_bytes (rn_log n ! 1) \<and>
     collect_entries n 2 2 kAppendRpcOverhead = [] \<and>
     new_raft_node config \<lparr>rec_hard_state = rn_durable_hard_state n, rec_log = rn_log n,
       rec_commit_index = rn_durable_commit_index n\<rparr> = Inl ''Recovered log is not a valid consecutive Raft log''"
  by code_simp

text \<open>C25. An entry that is too large for the byte budget of one \<^verbatim>\<open>AppendEntries\<close> can be neither replicated
  nor recovered: no step of a node in any reachable state sends it, and the constructor refuses every recovered
  log that contains it.\<close>

theorem raft_oversized_entry_stuck:
  assumes "node_reach config n" and "cfg_max_append_bytes_per_rpc config < kAppendRpcOverhead + entry_bytes e"
  shows "(\<forall>ev env r. SendEffect env \<in> set (snd (raft_step ev n)) \<and> env_message env = MAppendEntries r \<longrightarrow> e \<notin> set (ae_entries r)) \<and>
     (\<forall>rec. e \<in> set (rec_log rec) \<longrightarrow> isl (new_raft_node config rec))"
proof (intro conjI allI impI)
  fix ev env r
  assume "SendEffect env \<in> set (snd (raft_step ev n)) \<and> env_message env = MAppendEntries r"
  then have "append_fits (rn_config n) r" using step_backed [OF assms(1), of env ev] by (simp add: backed_by_def)
  moreover have "entry_bytes e \<le> sum_list (map entry_bytes (ae_entries r))" if "e \<in> set (ae_entries r)"
    using that by (intro member_le_sum_list) simp_all
  ultimately show "e \<notin> set (ae_entries r)"
    using assms(2) queue_bounded(1) [OF assms(1)] by (auto simp: append_fits_def)
next
  fix rec :: RecoveredState
  assume e: "e \<in> set (rec_log rec)"
  show "isl (new_raft_node config rec)"
  proof (rule ccontr)
    assume "\<not> isl (new_raft_node config rec)"
    then obtain m where m: "new_raft_node config rec = Inr m" by (cases "new_raft_node config rec") auto
    have "entry_bytes e \<le> cfg_max_append_bytes_per_rpc config - kAppendRpcOverhead"
      using recovered_entry_bytes [OF new_raft_node_eq(5) [OF m] e] by simp
    moreover have "kAppendRpcOverhead < cfg_max_append_bytes_per_rpc config"
      using new_raft_node_eq(3) [OF m] by (simp add: bounds_ok_def)
    ultimately show False using assms(2) by linarith
  qed
qed

theorem raft_oversized_entry_stuck_witness:
  "let config = demo_config\<lparr>cfg_max_append_bytes_per_rpc := 140\<rparr>;
       n = feed (demo_client @ [StorageComplete 4 True []]) (demo_start config) in
     rn_role n = Leader \<and>
     (\<forall>ev env r. SendEffect env \<in> set (snd (raft_step ev n)) \<and> env_message env = MAppendEntries r \<longrightarrow> rn_log n ! 1 \<notin> set (ae_entries r))"
  using raft_oversized_entry_stuck [OF demo_reach] raft_oversized_entry unfolding Let_def by blast

end
