(* ===== verification/Wal.thy ===== *)
theory Wal
  imports Model
begin

text \<open>
  The write-ahead log of \<^verbatim>\<open>src/wal.cpp\<close> as a function of bytes: options, the little-endian writer
  and reader, the CRC-32C, the validation of batches against the logical state, the batch payload,
  the file header, the frames, and the recovery scan. The file itself and the class \<^verbatim>\<open>Wal\<close> are in
  the theory \<open>WalFile\<close>.

  \<^item> A \<^verbatim>\<open>WalError\<close> is its code and its message; an operation that throws returns it as \<open>Inl\<close>.
  \<^item> A \<^verbatim>\<open>ByteReader\<close> is the list of bytes it has not read yet: the source uses its span and
    position only through \<^verbatim>\<open>remaining()\<close>.
  \<^item> \<open>CommandKind\<close> and \<open>WalFlushPolicy\<close> have the source's enumerators, so the tests of
    \<^verbatim>\<open>stage\<close> and \<^verbatim>\<open>validate_options\<close> for other values of the underlying type have no counterpart;
    an unknown kind in a file is a byte, and the decoder rejects it.
  \<^item> \<^verbatim>\<open>reserve\<close> only allocates and is left out.
\<close>

section \<open>Data\<close>

record WalIdentity =
  wi_cluster_id_high :: u64
  wi_cluster_id_low :: u64
  wi_node_id :: NodeId

datatype WalFlushPolicy = FlushEveryAppend | UnsafeNoFlush

record WalOptions =
  wo_flush_policy :: WalFlushPolicy
  wo_max_frame_bytes :: nat
  wo_max_group_bytes :: nat
  wo_max_group_frames :: u32
  wo_max_entries_per_frame :: u32
  wo_max_key_bytes :: u32
  wo_max_value_bytes :: u32
  wo_max_log_entries :: u64

definition default_wal_options :: WalOptions where
  "default_wal_options = \<lparr>wo_flush_policy = FlushEveryAppend,
     wo_max_frame_bytes = 16 * 1024 * 1024, wo_max_group_bytes = 64 * 1024 * 1024,
     wo_max_group_frames = 1024, wo_max_entries_per_frame = 65536,
     wo_max_key_bytes = 1 * 1024 * 1024, wo_max_value_bytes = 8 * 1024 * 1024,
     wo_max_log_entries = 10000000\<rparr>"

datatype WalErrorCode = WE_io | WE_format | WE_checksum | WE_identity_mismatch
  | WE_invariant_violation | WE_bounds_exceeded | WE_failed

type_synonym WalError = "WalErrorCode \<times> string"
type_synonym 'a WalResult = "WalError + 'a"

record WalState =
  ws_hard_state :: HardState
  ws_entries :: "LogEntry list"
  ws_commit_index :: LogIndex
  ws_last_frame_sequence :: u64
  ws_durable_frame_sequence :: u64
  ws_file_bytes :: u64
  ws_repaired_incomplete_tail :: bool

definition initial_wal_state :: WalState where
  "initial_wal_state = \<lparr>ws_hard_state = initial_hard_state, ws_entries = [], ws_commit_index = 0,
     ws_last_frame_sequence = 0, ws_durable_frame_sequence = 0, ws_file_bytes = 0,
     ws_repaired_incomplete_tail = False\<rparr>"

record WalAppendResult =
  wa_first_frame_sequence :: u64
  wa_last_frame_sequence :: u64
  wa_durable :: bool
  wa_bytes_written :: nat

record WalEncodedFrame =
  wf_bytes :: bytes
  wf_state_after :: WalState

record WalScanResult =
  wc_state :: WalState
  wc_valid_bytes :: u64
  wc_has_incomplete_tail :: bool

section \<open>Constants\<close>

definition kFormatVersion :: u16 where "kFormatVersion = 1"
definition kFileMagic :: bytes where "kFileMagic = map of_char ''DTLGWAL1''"
definition kFrameMagic :: bytes where "kFrameMagic = map of_char ''DTLGFRM1''"
definition kTrailerMagic :: bytes where "kTrailerMagic = map of_char ''DTLGEND1''"
definition kFileHeaderBytes :: nat where "kFileHeaderBytes = 48"
definition kFrameHeaderBytes :: nat where "kFrameHeaderBytes = 48"
definition kFrameTrailerBytes :: nat where "kFrameTrailerBytes = 24"
definition kBatchPrefixBytes :: nat where "kBatchPrefixBytes = 8"
definition kMinimumWalEntryBytes :: nat where "kMinimumWalEntryBytes = 17"
definition kMinimumFrameBytes :: nat where
  "kMinimumFrameBytes = kFrameHeaderBytes + kBatchPrefixBytes + kFrameTrailerBytes"
definition kFileHeaderTag :: u32 where "kFileHeaderTag = 0x31444857"
definition kFrameHeaderTag :: u32 where "kFrameHeaderTag = 0x31444846"
definition kFrameTrailerTag :: u32 where "kFrameTrailerTag = 0x31524c54"
definition kHardStateFlag :: u32 where "kHardStateFlag = push_bit 0 1"
definition kTruncateFlag :: u32 where "kTruncateFlag = push_bit 1 1"
definition kCommitFlag :: u32 where "kCommitFlag = push_bit 2 1"
definition kKnownBatchFlags :: u32 where "kKnownBatchFlags = kHardStateFlag OR kTruncateFlag OR kCommitFlag"
definition kAbsoluteMaxFrameBytes :: nat where "kAbsoluteMaxFrameBytes = 256 * 1024 * 1024"
definition kAbsoluteMaxGroupBytes :: nat where "kAbsoluteMaxGroupBytes = 512 * 1024 * 1024"
definition kAbsoluteMaxGroupFrames :: u32 where "kAbsoluteMaxGroupFrames = 65536"
definition kAbsoluteMaxEntriesPerFrame :: u32 where "kAbsoluteMaxEntriesPerFrame = 1000000"
definition kAbsoluteMaxLogEntries :: u64 where "kAbsoluteMaxLogEntries = 100000000"

lemmas wal_sizes = kFileHeaderBytes_def kFrameHeaderBytes_def kFrameTrailerBytes_def kBatchPrefixBytes_def
  kMinimumWalEntryBytes_def kMinimumFrameBytes_def kAbsoluteMaxFrameBytes_def

definition with_offset :: "string \<Rightarrow> u64 \<Rightarrow> string" where
  "with_offset message offset = message @ '' at WAL offset '' @ decimal (unat offset)"

text \<open>The \<^verbatim>\<open>catch\<close> clauses of the scan: the same code, the message with the offset.\<close>

definition rethrow_at :: "u64 \<Rightarrow> 'a WalResult \<Rightarrow> 'a WalResult" where
  "rethrow_at offset m = (case m of Inl (code, message) \<Rightarrow> Inl (code, with_offset message offset) | Inr x \<Rightarrow> Inr x)"

section \<open>Writer and reader\<close>

record ByteWriter =
  bw_limit :: nat
  bw_bytes :: bytes

definition new_byte_writer :: "nat \<Rightarrow> ByteWriter" where
  "new_byte_writer limit = \<lparr>bw_limit = limit, bw_bytes = []\<rparr>"

definition bw_ensure :: "nat \<Rightarrow> ByteWriter \<Rightarrow> unit WalResult" where
  "bw_ensure amount w =
     guard_res (amount > bw_limit w - min (bw_limit w) (length (bw_bytes w)))
       (WE_bounds_exceeded, ''encoded WAL object exceeds configured size bound'')"

definition bw_raw :: "bytes \<Rightarrow> ByteWriter \<Rightarrow> ByteWriter WalResult" where
  "bw_raw bs w = bind_res (bw_ensure (length bs) w) (\<lambda>_. Inr (w\<lparr>bw_bytes := bw_bytes w @ bs\<rparr>))"

definition bw_u8 :: "u8 \<Rightarrow> ByteWriter \<Rightarrow> ByteWriter WalResult" where
  "bw_u8 v = bw_raw [v]"

definition bw_u16 :: "u16 \<Rightarrow> ByteWriter \<Rightarrow> ByteWriter WalResult" where
  "bw_u16 v = bw_raw (map (\<lambda>shift. ucast (drop_bit shift v AND 0xff)) [0, 8])"

definition bw_u32 :: "u32 \<Rightarrow> ByteWriter \<Rightarrow> ByteWriter WalResult" where
  "bw_u32 v = bw_raw (map (\<lambda>shift. ucast (drop_bit shift v AND 0xff)) [0, 8, 16, 24])"

definition bw_u64 :: "u64 \<Rightarrow> ByteWriter \<Rightarrow> ByteWriter WalResult" where
  "bw_u64 v = bw_raw (map (\<lambda>shift. ucast (drop_bit shift v AND 0xff)) [0, 8, 16, 24, 32, 40, 48, 56])"

definition bw_literal :: "bytes \<Rightarrow> ByteWriter \<Rightarrow> ByteWriter WalResult" where
  "bw_literal = bw_raw"

definition bw_string :: "bytes \<Rightarrow> ByteWriter \<Rightarrow> ByteWriter WalResult" where
  "bw_string = bw_raw"

type_synonym ByteReader = bytes

definition br_require :: "nat \<Rightarrow> ByteReader \<Rightarrow> unit WalResult" where
  "br_require amount r =
     guard_res (amount > length r) (WE_format, ''declared WAL object is internally truncated'')"

definition br_u8 :: "ByteReader \<Rightarrow> (u8 \<times> ByteReader) WalResult" where
  "br_u8 r = bind_res (br_require 1 r) (\<lambda>_. Inr (hd r, tl r))"

text \<open>The loops of the multi-byte reads, over the shifts.\<close>

fun br_loop :: "nat list \<Rightarrow> 'a::len word \<Rightarrow> ByteReader \<Rightarrow> ('a word \<times> ByteReader) WalResult" where
  "br_loop [] v r = Inr (v, r)"
| "br_loop (shift # shifts) v r =
     bind_res (br_u8 r) (\<lambda>(b, r). br_loop shifts (v OR push_bit shift (ucast b)) r)"

definition br_u16 :: "ByteReader \<Rightarrow> (u16 \<times> ByteReader) WalResult" where
  "br_u16 r = bind_res (br_loop [0, 8] (0 :: u32) r) (\<lambda>(v, r). Inr (ucast v, r))"

definition br_u32 :: "ByteReader \<Rightarrow> (u32 \<times> ByteReader) WalResult" where
  "br_u32 r = br_loop [0, 8, 16, 24] 0 r"

definition br_u64 :: "ByteReader \<Rightarrow> (u64 \<times> ByteReader) WalResult" where
  "br_u64 r = br_loop [0, 8, 16, 24, 32, 40, 48, 56] 0 r"

fun br_match :: "bytes \<Rightarrow> string \<Rightarrow> ByteReader \<Rightarrow> ByteReader WalResult" where
  "br_match [] name r = Inr r"
| "br_match (c # cs) name r =
     bind_res (br_u8 r) (\<lambda>(b, r).
     if b \<noteq> c then Inl (WE_format, ''invalid '' @ name) else br_match cs name r)"

definition br_expect_literal :: "bytes \<Rightarrow> string \<Rightarrow> ByteReader \<Rightarrow> ByteReader WalResult" where
  "br_expect_literal expected name r =
     bind_res (br_require (length expected) r) (\<lambda>_. br_match expected name r)"

definition br_string :: "nat \<Rightarrow> ByteReader \<Rightarrow> (bytes \<times> ByteReader) WalResult" where
  "br_string n r = bind_res (br_require n r) (\<lambda>_. Inr (take n r, drop n r))"

section \<open>CRC-32C\<close>

definition crc_bit :: "u32 \<Rightarrow> u32" where
  "crc_bit crc = (let mask = 0 - (crc AND 1) in drop_bit 1 crc XOR (0x82f63b78 AND mask))"

definition crc_byte :: "u32 \<Rightarrow> u8 \<Rightarrow> u32" where
  "crc_byte crc b = (crc_bit ^^ 8) (crc XOR ucast b)"

definition crc32c :: "bytes \<Rightarrow> u32" where
  "crc32c bs = NOT (foldl crc_byte 0xffffffff bs)"

section \<open>Validation\<close>

definition validate_options :: "WalOptions \<Rightarrow> unit WalResult" where
  "validate_options opts =
     (if wo_max_frame_bytes opts < kMinimumFrameBytes \<or> wo_max_frame_bytes opts > kAbsoluteMaxFrameBytes
      then Inl (WE_bounds_exceeded, ''max_frame_bytes is outside the supported range'')
      else if wo_max_group_bytes opts < wo_max_frame_bytes opts \<or> wo_max_group_bytes opts > kAbsoluteMaxGroupBytes
      then Inl (WE_bounds_exceeded, ''max_group_bytes is outside the supported range'')
      else if wo_max_group_frames opts = 0 \<or> wo_max_group_frames opts > kAbsoluteMaxGroupFrames
      then Inl (WE_bounds_exceeded, ''max_group_frames is outside the supported range'')
      else if wo_max_entries_per_frame opts = 0 \<or> wo_max_entries_per_frame opts > kAbsoluteMaxEntriesPerFrame
      then Inl (WE_bounds_exceeded, ''max_entries_per_frame is outside the supported range'')
      else if unat (wo_max_key_bytes opts) > kAbsoluteMaxFrameBytes \<or> unat (wo_max_value_bytes opts) > kAbsoluteMaxFrameBytes
      then Inl (WE_bounds_exceeded, ''command field bound exceeds the absolute frame bound'')
      else if wo_max_log_entries opts = 0 \<or> wo_max_log_entries opts > kAbsoluteMaxLogEntries
      then Inl (WE_bounds_exceeded, ''max_log_entries is outside the supported range'')
      else Inr ())"

record ValidationView =
  vv_hard_state :: HardState
  vv_commit_index :: LogIndex
  vv_base_entries :: "LogEntry list"
  vv_base_keep :: nat
  vv_suffix :: "LogEntry list"

definition new_view :: "WalState \<Rightarrow> ValidationView" where
  "new_view s = \<lparr>vv_hard_state = ws_hard_state s, vv_commit_index = ws_commit_index s,
     vv_base_entries = ws_entries s, vv_base_keep = length (ws_entries s), vv_suffix = []\<rparr>"

definition vv_last_index :: "ValidationView \<Rightarrow> LogIndex" where
  "vv_last_index v = of_nat (vv_base_keep v) + of_nat (length (vv_suffix v))"

definition vv_last_term :: "ValidationView \<Rightarrow> Term" where
  "vv_last_term v =
     (if vv_suffix v \<noteq> [] then ent_term (last (vv_suffix v))
      else if vv_base_keep v \<noteq> 0 then ent_term (vv_base_entries v ! (vv_base_keep v - 1))
      else 0)"

definition stage_hard_state :: "HardState option \<Rightarrow> ValidationView \<Rightarrow> ValidationView WalResult" where
  "stage_hard_state hard v =
     (case hard of
        None \<Rightarrow> Inr v
      | Some nxt \<Rightarrow>
          if hs_current_term nxt = 0 \<and> hs_voted_for nxt \<noteq> None
          then Inl (WE_invariant_violation, ''term-zero hard state cannot contain a vote'')
          else if hs_current_term nxt < hs_current_term (vv_hard_state v)
          then Inl (WE_invariant_violation, ''hard-state term would decrease'')
          else if hs_current_term nxt = hs_current_term (vv_hard_state v) \<and>
                  hs_voted_for (vv_hard_state v) \<noteq> None \<and> hs_voted_for nxt \<noteq> hs_voted_for (vv_hard_state v)
          then Inl (WE_invariant_violation, ''vote would change or clear within one term'')
          else Inr (v\<lparr>vv_hard_state := nxt\<rparr>))"

definition stage_truncate :: "LogIndex option \<Rightarrow> ValidationView \<Rightarrow> ValidationView WalResult" where
  "stage_truncate trunc v =
     (case trunc of
        None \<Rightarrow> Inr v
      | Some start \<Rightarrow>
          if start = 0 then Inl (WE_invariant_violation, ''truncate_from index zero is invalid'')
          else if start \<le> vv_commit_index v
          then Inl (WE_invariant_violation, ''cannot truncate a committed log entry'')
          else if start > vv_last_index v + 1
          then Inl (WE_invariant_violation, ''truncate_from is beyond the end of the log'')
          else
            (let wanted = unat (start - 1) in
             if wanted \<le> vv_base_keep v then Inr (v\<lparr>vv_base_keep := wanted, vv_suffix := []\<rparr>)
             else Inr (v\<lparr>vv_suffix := take (wanted - vv_base_keep v) (vv_suffix v)\<rparr>)))"

definition stage_entry :: "WalOptions \<Rightarrow> LogEntry \<Rightarrow> ValidationView \<Rightarrow> ValidationView WalResult" where
  "stage_entry opts e v =
     (if vv_last_index v \<ge> wo_max_log_entries opts
      then Inl (WE_bounds_exceeded, ''logical WAL exceeds max_log_entries'')
      else if ent_index e \<noteq> vv_last_index v + 1
      then Inl (WE_invariant_violation, ''log entries are not consecutive'')
      else if ent_term e = 0 \<or> ent_term e > hs_current_term (vv_hard_state v)
      then Inl (WE_invariant_violation, ''log entry term is zero or exceeds current term'')
      else if ent_index e > 1 \<and> ent_term e < vv_last_term v
      then Inl (WE_invariant_violation, ''log entry terms decrease with index'')
      else if (case ent_command e of None \<Rightarrow> False
               | Some c \<Rightarrow> length (cmd_key c) > unat (wo_max_key_bytes opts) \<or>
                           length (cmd_value c) > unat (wo_max_value_bytes opts))
      then Inl (WE_bounds_exceeded, ''command field exceeds configured size bound'')
      else Inr (v\<lparr>vv_suffix := vv_suffix v @ [e]\<rparr>))"

fun stage_entries :: "WalOptions \<Rightarrow> LogEntry list \<Rightarrow> ValidationView \<Rightarrow> ValidationView WalResult" where
  "stage_entries opts [] v = Inr v"
| "stage_entries opts (e # es) v = bind_res (stage_entry opts e v) (stage_entries opts es)"

definition stage_commit :: "LogIndex option \<Rightarrow> ValidationView \<Rightarrow> ValidationView WalResult" where
  "stage_commit commit v =
     (case commit of
        None \<Rightarrow> Inr v
      | Some c \<Rightarrow>
          if c < vv_commit_index v then Inl (WE_invariant_violation, ''commit index would decrease'')
          else if c > vv_last_index v then Inl (WE_invariant_violation, ''commit index exceeds the end of the log'')
          else Inr (v\<lparr>vv_commit_index := c\<rparr>))"

definition stage :: "WalOptions \<Rightarrow> PersistBatch \<Rightarrow> ValidationView \<Rightarrow> ValidationView WalResult" where
  "stage opts b v =
     (if batch_empty b then Inl (WE_invariant_violation, ''an empty persistence batch is not a WAL frame'')
      else if length (pb_entries b) > unat (wo_max_entries_per_frame opts)
      then Inl (WE_bounds_exceeded, ''persistence batch has too many entries'')
      else bind_res (stage_hard_state (pb_hard_state b) v) (\<lambda>v.
           bind_res (stage_truncate (pb_truncate_from b) v) (\<lambda>v.
           bind_res (stage_entries opts (pb_entries b) v) (\<lambda>v.
           stage_commit (pb_commit_index b) v))))"

definition materialize :: "ValidationView \<Rightarrow> WalState \<Rightarrow> WalState" where
  "materialize v s = s\<lparr>ws_hard_state := vv_hard_state v, ws_commit_index := vv_commit_index v,
     ws_entries := take (vv_base_keep v) (ws_entries s) @ vv_suffix v\<rparr>"

definition validate_state_summary :: "WalState \<Rightarrow> WalOptions \<Rightarrow> unit WalResult" where
  "validate_state_summary s opts =
     (if of_nat (length (ws_entries s)) > wo_max_log_entries opts
      then Inl (WE_bounds_exceeded, ''WAL state exceeds max_log_entries'')
      else if hs_current_term (ws_hard_state s) = 0 \<and> hs_voted_for (ws_hard_state s) \<noteq> None
      then Inl (WE_invariant_violation, ''term-zero WAL state cannot contain a vote'')
      else if ws_entries s \<noteq> [] \<and>
              (ent_index (hd (ws_entries s)) \<noteq> 1 \<or> ent_index (last (ws_entries s)) \<noteq> of_nat (length (ws_entries s)))
      then Inl (WE_invariant_violation, ''WAL state does not use consecutive one-based indexes'')
      else if ws_entries s \<noteq> [] \<and> ent_term (last (ws_entries s)) > hs_current_term (ws_hard_state s)
      then Inl (WE_invariant_violation, ''WAL state log term exceeds hard-state term'')
      else if ws_commit_index s > of_nat (length (ws_entries s))
      then Inl (WE_invariant_violation, ''WAL state commit index exceeds its log'')
      else if ws_durable_frame_sequence s > ws_last_frame_sequence s
      then Inl (WE_invariant_violation, ''durable frame sequence exceeds last frame sequence'')
      else Inr ())"

section \<open>Batches\<close>

definition batch_flags :: "PersistBatch \<Rightarrow> u32" where
  "batch_flags b =
     (if pb_hard_state b \<noteq> None then kHardStateFlag else 0) OR
     (if pb_truncate_from b \<noteq> None then kTruncateFlag else 0) OR
     (if pb_commit_index b \<noteq> None then kCommitFlag else 0)"

definition write_optional :: "('a \<Rightarrow> ByteWriter \<Rightarrow> ByteWriter WalResult) \<Rightarrow> 'a option \<Rightarrow> ByteWriter \<Rightarrow> ByteWriter WalResult" where
  "write_optional wr x w = (case x of None \<Rightarrow> Inr w | Some y \<Rightarrow> wr y w)"

definition write_hard_state :: "HardState \<Rightarrow> ByteWriter \<Rightarrow> ByteWriter WalResult" where
  "write_hard_state hs w =
     bind_res (bw_u64 (hs_current_term hs) w) (\<lambda>w.
     bind_res (bw_u8 (if hs_voted_for hs \<noteq> None then 1 else 0) w) (\<lambda>w.
     write_optional bw_u32 (hs_voted_for hs) w))"

definition write_command :: "ClientCommand \<Rightarrow> ByteWriter \<Rightarrow> ByteWriter WalResult" where
  "write_command c w =
     bind_res (bw_u64 (sid_high (cmd_session c)) w) (\<lambda>w.
     bind_res (bw_u64 (sid_low (cmd_session c)) w) (\<lambda>w.
     bind_res (bw_u64 (cmd_sequence c) w) (\<lambda>w.
     bind_res (bw_u8 (command_kind_byte (cmd_kind c)) w) (\<lambda>w.
     bind_res (bw_u32 (of_nat (length (cmd_key c))) w) (\<lambda>w.
     bind_res (bw_u32 (of_nat (length (cmd_value c))) w) (\<lambda>w.
     bind_res (bw_string (cmd_key c) w) (\<lambda>w.
     bw_string (cmd_value c) w)))))))"

definition write_entry :: "LogEntry \<Rightarrow> ByteWriter \<Rightarrow> ByteWriter WalResult" where
  "write_entry e w =
     bind_res (bw_u64 (ent_index e) w) (\<lambda>w.
     bind_res (bw_u64 (ent_term e) w) (\<lambda>w.
     bind_res (bw_u8 (if ent_command e \<noteq> None then 1 else 0) w) (\<lambda>w.
     write_optional write_command (ent_command e) w)))"

fun write_batch_entries :: "LogEntry list \<Rightarrow> ByteWriter \<Rightarrow> ByteWriter WalResult" where
  "write_batch_entries [] w = Inr w"
| "write_batch_entries (e # es) w = bind_res (write_entry e w) (write_batch_entries es)"

definition encode_batch_payload :: "PersistBatch \<Rightarrow> WalOptions \<Rightarrow> bytes WalResult" where
  "encode_batch_payload b opts =
     (let payload_limit = wo_max_frame_bytes opts - kFrameHeaderBytes - kFrameTrailerBytes in
      bind_res (bw_u32 (batch_flags b) (new_byte_writer payload_limit)) (\<lambda>w.
      bind_res (bw_u32 (of_nat (length (pb_entries b))) w) (\<lambda>w.
      bind_res (write_optional write_hard_state (pb_hard_state b) w) (\<lambda>w.
      bind_res (write_optional bw_u64 (pb_truncate_from b) w) (\<lambda>w.
      bind_res (write_batch_entries (pb_entries b) w) (\<lambda>w.
      bind_res (write_optional bw_u64 (pb_commit_index b) w) (\<lambda>w.
      Inr (bw_bytes w))))))))"

text \<open>A field that is present only when \<open>present\<close> holds.\<close>

definition read_optional :: "bool \<Rightarrow> (ByteReader \<Rightarrow> ('a \<times> ByteReader) WalResult) \<Rightarrow> ByteReader \<Rightarrow> ('a option \<times> ByteReader) WalResult" where
  "read_optional present rd r = (if present then bind_res (rd r) (\<lambda>(x, r). Inr (Some x, r)) else Inr (None, r))"

definition read_hard_state :: "ByteReader \<Rightarrow> (HardState \<times> ByteReader) WalResult" where
  "read_hard_state r =
     bind_res (br_u64 r) (\<lambda>(t, r).
     bind_res (br_u8 r) (\<lambda>(has_vote, r).
     if has_vote > 1 then Inl (WE_format, ''invalid voted-for presence marker'')
     else bind_res (read_optional (has_vote \<noteq> 0) br_u32 r) (\<lambda>(vote, r).
          Inr (\<lparr>hs_current_term = t, hs_voted_for = vote\<rparr>, r))))"

definition read_command :: "WalOptions \<Rightarrow> ByteReader \<Rightarrow> (ClientCommand \<times> ByteReader) WalResult" where
  "read_command opts r =
     bind_res (br_u64 r) (\<lambda>(high, r).
     bind_res (br_u64 r) (\<lambda>(low, r).
     bind_res (br_u64 r) (\<lambda>(sequence, r).
     bind_res (br_u8 r) (\<lambda>(raw_kind, r).
     case command_kind_of_byte raw_kind of
       None \<Rightarrow> Inl (WE_format, ''WAL frame contains unknown command kind'')
     | Some kind \<Rightarrow>
         bind_res (br_u32 r) (\<lambda>(key_size, r).
         bind_res (br_u32 r) (\<lambda>(value_size, r).
         if key_size > wo_max_key_bytes opts \<or> value_size > wo_max_value_bytes opts
         then Inl (WE_bounds_exceeded, ''WAL command field exceeds configured size bound'')
         else bind_res (br_string (unat key_size) r) (\<lambda>(key, r).
              bind_res (br_string (unat value_size) r) (\<lambda>(val, r).
              Inr (\<lparr>cmd_session = SessionId high low, cmd_sequence = sequence, cmd_kind = kind,
                    cmd_key = key, cmd_value = val\<rparr>, r)))))))))"

definition read_entry :: "WalOptions \<Rightarrow> ByteReader \<Rightarrow> (LogEntry \<times> ByteReader) WalResult" where
  "read_entry opts r =
     bind_res (br_u64 r) (\<lambda>(index, r).
     bind_res (br_u64 r) (\<lambda>(t, r).
     bind_res (br_u8 r) (\<lambda>(has_command, r).
     if has_command > 1 then Inl (WE_format, ''invalid command presence marker'')
     else bind_res (read_optional (has_command \<noteq> 0) (read_command opts) r) (\<lambda>(c, r).
          Inr (\<lparr>ent_index = index, ent_term = t, ent_command = c\<rparr>, r)))))"

fun read_batch_entries :: "WalOptions \<Rightarrow> nat \<Rightarrow> ByteReader \<Rightarrow> (LogEntry list \<times> ByteReader) WalResult" where
  "read_batch_entries opts 0 r = Inr ([], r)"
| "read_batch_entries opts (Suc n) r =
     bind_res (read_entry opts r) (\<lambda>(e, r).
     bind_res (read_batch_entries opts n r) (\<lambda>(es, r). Inr (e # es, r)))"

definition trailing_bytes :: "u32 \<Rightarrow> nat" where
  "trailing_bytes flags = (if flags AND kCommitFlag \<noteq> 0 then 8 else 0)"

definition decode_batch_payload :: "bytes \<Rightarrow> WalOptions \<Rightarrow> PersistBatch WalResult" where
  "decode_batch_payload payload opts =
     bind_res (br_u32 payload) (\<lambda>(flags, r).
     if flags AND NOT kKnownBatchFlags \<noteq> 0 then Inl (WE_format, ''WAL batch contains unknown flags'')
     else bind_res (br_u32 r) (\<lambda>(count, r).
     if count > wo_max_entries_per_frame opts
     then Inl (WE_bounds_exceeded, ''WAL frame declares too many entries'')
     else bind_res (read_optional (flags AND kHardStateFlag \<noteq> 0) read_hard_state r) (\<lambda>(hard, r).
     bind_res (read_optional (flags AND kTruncateFlag \<noteq> 0) br_u64 r) (\<lambda>(trunc, r).
     if length r < trailing_bytes flags \<or> unat count > (length r - trailing_bytes flags) div kMinimumWalEntryBytes
     then Inl (WE_format, ''WAL entry count exceeds the remaining frame payload'')
     else bind_res (read_batch_entries opts (unat count) r) (\<lambda>(entries, r).
     bind_res (read_optional (flags AND kCommitFlag \<noteq> 0) br_u64 r) (\<lambda>(commit, r).
     if r \<noteq> [] then Inl (WE_format, ''WAL batch contains trailing bytes'')
     else Inr \<lparr>pb_hard_state = hard, pb_truncate_from = trunc, pb_entries = entries,
                pb_commit_index = commit\<rparr>))))))"

section \<open>File header\<close>

definition make_file_header :: "WalIdentity \<Rightarrow> bytes WalResult" where
  "make_file_header i =
     bind_res (bw_literal kFileMagic (new_byte_writer kFileHeaderBytes)) (\<lambda>w.
     bind_res (bw_u16 kFormatVersion w) (\<lambda>w.
     bind_res (bw_u16 (of_nat kFileHeaderBytes) w) (\<lambda>w.
     bind_res (bw_u32 0 w) (\<lambda>w.
     bind_res (bw_u64 (wi_cluster_id_high i) w) (\<lambda>w.
     bind_res (bw_u64 (wi_cluster_id_low i) w) (\<lambda>w.
     bind_res (bw_u32 (wi_node_id i) w) (\<lambda>w.
     bind_res (bw_u32 0 w) (\<lambda>w.
     bind_res (bw_u32 (crc32c (bw_bytes w)) w) (\<lambda>w.
     bind_res (bw_u32 kFileHeaderTag w) (\<lambda>w.
     Inr (bw_bytes w)))))))))))"

definition validate_file_header :: "bytes \<Rightarrow> WalIdentity \<Rightarrow> unit WalResult" where
  "validate_file_header bs expected =
     (if length bs \<noteq> kFileHeaderBytes then Inl (WE_format, ''WAL file header has the wrong size'')
      else bind_res (br_expect_literal kFileMagic ''WAL file magic'' bs) (\<lambda>r.
      bind_res (br_u16 r) (\<lambda>(version, r).
      if version \<noteq> kFormatVersion then Inl (WE_format, ''unsupported WAL format version'')
      else bind_res (br_u16 r) (\<lambda>(header_size, r).
      if header_size \<noteq> of_nat kFileHeaderBytes then Inl (WE_format, ''invalid WAL file header fields'')
      else bind_res (br_u32 r) (\<lambda>(reserved, r).
      if reserved \<noteq> 0 then Inl (WE_format, ''invalid WAL file header fields'')
      else bind_res (br_u64 r) (\<lambda>(high, r).
      bind_res (br_u64 r) (\<lambda>(low, r).
      bind_res (br_u32 r) (\<lambda>(node, r).
      bind_res (br_u32 r) (\<lambda>(reserved2, r).
      if reserved2 \<noteq> 0 then Inl (WE_format, ''nonzero reserved WAL header field'')
      else bind_res (br_u32 r) (\<lambda>(stored_checksum, r).
      bind_res (br_u32 r) (\<lambda>(tag, r).
      if tag \<noteq> kFileHeaderTag then Inl (WE_format, ''invalid WAL file header trailer'')
      else if stored_checksum \<noteq> crc32c (take 40 bs)
      then Inl (WE_checksum, ''WAL file header checksum mismatch'')
      else if \<lparr>wi_cluster_id_high = high, wi_cluster_id_low = low, wi_node_id = node\<rparr> \<noteq> expected
      then Inl (WE_identity_mismatch, ''WAL cluster or node identity mismatch'')
      else Inr ())))))))))))"

section \<open>Frames\<close>

definition make_frame :: "u64 \<Rightarrow> PersistBatch \<Rightarrow> WalOptions \<Rightarrow> bytes WalResult" where
  "make_frame sequence b opts =
     bind_res (encode_batch_payload b opts) (\<lambda>payload.
     let total_size = kFrameHeaderBytes + length payload + kFrameTrailerBytes in
     if total_size > wo_max_frame_bytes opts
     then Inl (WE_bounds_exceeded, ''WAL frame exceeds configured size bound'')
     else bind_res (bw_literal kFrameMagic (new_byte_writer total_size)) (\<lambda>w.
     bind_res (bw_u16 kFormatVersion w) (\<lambda>w.
     bind_res (bw_u16 (of_nat kFrameHeaderBytes) w) (\<lambda>w.
     bind_res (bw_u32 0 w) (\<lambda>w.
     bind_res (bw_u64 (of_nat total_size) w) (\<lambda>w.
     bind_res (bw_u64 (of_nat (length payload)) w) (\<lambda>w.
     bind_res (bw_u64 sequence w) (\<lambda>w.
     bind_res (bw_u32 (crc32c (bw_bytes w)) w) (\<lambda>w.
     bind_res (bw_u32 kFrameHeaderTag w) (\<lambda>w.
     bind_res (bw_raw payload w) (\<lambda>w.
     bind_res (bw_u32 (crc32c (bw_bytes w)) w) (\<lambda>w.
     bind_res (bw_u32 kFrameTrailerTag w) (\<lambda>w.
     bind_res (bw_u64 (of_nat total_size) w) (\<lambda>w.
     bind_res (bw_literal kTrailerMagic w) (\<lambda>w.
     Inr (bw_bytes w))))))))))))))))"

record ParsedFrameHeader =
  fh_frame_size :: u64
  fh_payload_size :: u64
  fh_sequence :: u64

definition parse_frame_header :: "bytes \<Rightarrow> WalOptions \<Rightarrow> ParsedFrameHeader WalResult" where
  "parse_frame_header bs opts =
     bind_res (br_expect_literal kFrameMagic ''WAL frame magic'' bs) (\<lambda>r.
     bind_res (br_u16 r) (\<lambda>(version, r).
     if version \<noteq> kFormatVersion then Inl (WE_format, ''unsupported WAL frame version'')
     else bind_res (br_u16 r) (\<lambda>(header_size, r).
     if header_size \<noteq> of_nat kFrameHeaderBytes then Inl (WE_format, ''invalid WAL frame header fields'')
     else bind_res (br_u32 r) (\<lambda>(reserved, r).
     if reserved \<noteq> 0 then Inl (WE_format, ''invalid WAL frame header fields'')
     else bind_res (br_u64 r) (\<lambda>(frame_size, r).
     bind_res (br_u64 r) (\<lambda>(payload_size, r).
     bind_res (br_u64 r) (\<lambda>(sequence, r).
     bind_res (br_u32 r) (\<lambda>(stored_checksum, r).
     bind_res (br_u32 r) (\<lambda>(tag, r).
     if tag \<noteq> kFrameHeaderTag then Inl (WE_format, ''invalid WAL frame header trailer'')
     else if stored_checksum \<noteq> crc32c (take 40 bs)
     then Inl (WE_checksum, ''WAL frame header checksum mismatch'')
     else if unat frame_size < kMinimumFrameBytes \<or> unat frame_size > wo_max_frame_bytes opts
     then Inl (WE_bounds_exceeded, ''WAL frame length is outside the configured bound'')
     else if unat payload_size > wo_max_frame_bytes opts \<or>
             payload_size + of_nat kFrameHeaderBytes + of_nat kFrameTrailerBytes \<noteq> frame_size
     then Inl (WE_format, ''inconsistent WAL frame and payload lengths'')
     else Inr \<lparr>fh_frame_size = frame_size, fh_payload_size = payload_size, fh_sequence = sequence\<rparr>)))))))))"

definition validate_complete_frame :: "bytes \<Rightarrow> ParsedFrameHeader \<Rightarrow> WalOptions \<Rightarrow> PersistBatch WalResult" where
  "validate_complete_frame bs header opts =
     (let trailer_offset = kFrameHeaderBytes + unat (fh_payload_size header) in
      bind_res (br_u32 (take kFrameTrailerBytes (drop trailer_offset bs))) (\<lambda>(stored_checksum, r).
      bind_res (br_u32 r) (\<lambda>(tag, r).
      if tag \<noteq> kFrameTrailerTag then Inl (WE_format, ''invalid WAL frame trailer fields'')
      else bind_res (br_u64 r) (\<lambda>(total_size, r).
      if total_size \<noteq> fh_frame_size header then Inl (WE_format, ''invalid WAL frame trailer fields'')
      else bind_res (br_expect_literal kTrailerMagic ''WAL frame trailer magic'' r) (\<lambda>r.
      if stored_checksum \<noteq> crc32c (take trailer_offset bs) then Inl (WE_checksum, ''WAL frame checksum mismatch'')
      else decode_batch_payload (take (unat (fh_payload_size header)) (drop kFrameHeaderBytes bs)) opts)))))"

section \<open>Recovery\<close>

text \<open>
  The loop of \<^verbatim>\<open>scan_source\<close>. \<open>read_exact offset n\<close> stands for the byte source, the memory image of
  \<^verbatim>\<open>scan_wal_bytes\<close> or the file of \<^verbatim>\<open>Wal\<close>.
\<close>

type_synonym ReadExact = "u64 \<Rightarrow> nat \<Rightarrow> bytes WalResult"

lemma parse_frame_header_sizes:
  assumes "parse_frame_header bs opts = Inr header"
  shows "kMinimumFrameBytes \<le> unat (fh_frame_size header)" "unat (fh_frame_size header) \<le> wo_max_frame_bytes opts"
  using assms by (auto simp: parse_frame_header_def bind_res_eq_Inr split: if_splits prod.splits)

lemma scan_progress:
  assumes "offset < byte_count" "80 \<le> unat k" "k \<le> byte_count - offset"
  shows "unat byte_count - unat (offset + k) < unat byte_count - unat (offset :: u64)"
    "unat (offset + k) = unat offset + unat k" "offset + k \<le> byte_count"
proof -
  have "unat k \<le> unat byte_count - unat offset"
    using assms(3) unat_sub [OF less_imp_le [OF assms(1)]] by (simp add: word_le_nat_alt)
  moreover have "unat offset < unat byte_count" using assms(1) by (simp add: word_less_nat_alt)
  ultimately have le: "unat offset + unat k \<le> unat byte_count" by simp
  have sum: "unat (offset + k) = unat offset + unat k"
    by (rule unat_add_lem [THEN iffD1]) (use le_less_trans [OF le unat_less_64] in simp)
  then show "unat (offset + k) = unat offset + unat k" .
  show "offset + k \<le> byte_count" using sum le by (simp add: word_le_nat_alt)
  show "unat byte_count - unat (offset + k) < unat byte_count - unat offset"
    using sum le assms(2) by simp
qed

lemma rethrow_at_Inr [simp]: "rethrow_at offset m = Inr x \<longleftrightarrow> m = Inr x"
  by (auto simp: rethrow_at_def split: sum.splits)

function scan_frames :: "ReadExact \<Rightarrow> u64 \<Rightarrow> WalOptions \<Rightarrow> WalScanResult \<Rightarrow> u64 \<Rightarrow> WalScanResult WalResult" where
  "scan_frames read_exact byte_count opts result offset =
     (if offset < byte_count then
        (let remaining = byte_count - offset; state = wc_state result in
         if unat remaining < kFrameHeaderBytes then Inr (result\<lparr>wc_has_incomplete_tail := True\<rparr>)
         else bind_res (read_exact offset kFrameHeaderBytes) (\<lambda>header_bytes.
         case rethrow_at offset (parse_frame_header header_bytes opts) of
           Inl e \<Rightarrow> Inl e
         | Inr header \<Rightarrow>
             if fh_sequence header \<noteq> ws_last_frame_sequence state + 1
             then Inl (WE_invariant_violation, with_offset ''WAL frame sequence is not consecutive'' offset)
             else if fh_frame_size header > remaining then Inr (result\<lparr>wc_has_incomplete_tail := True\<rparr>)
             else bind_res (read_exact offset (unat (fh_frame_size header))) (\<lambda>bs.
             bind_res (rethrow_at offset
               (bind_res (validate_complete_frame bs header opts) (\<lambda>b.
                bind_res (stage opts b (new_view state)) (\<lambda>view.
                Inr (materialize view state))))) (\<lambda>state.
             let offset = offset + fh_frame_size header in
             scan_frames read_exact byte_count opts
               (result\<lparr>wc_state := state\<lparr>ws_last_frame_sequence := fh_sequence header, ws_file_bytes := offset\<rparr>,
                       wc_valid_bytes := offset\<rparr>) offset))))
      else Inr result)"
  by pat_completeness auto

termination
proof (relation "measure (\<lambda>(read_exact, byte_count, opts, result, offset). unat byte_count - unat offset)", goal_cases)
  case (2 read_exact byte_count opts result offset remaining state header_bytes header bs state' offset')
  then have "80 \<le> unat (fh_frame_size header)"
    using parse_frame_header_sizes(1) [of header_bytes opts header] by (simp add: wal_sizes)
  with 2 show ?case by (simp add: scan_progress(1) not_less)
qed simp

declare scan_frames.simps [simp del]

definition scan_source :: "u64 \<Rightarrow> ReadExact \<Rightarrow> WalIdentity \<Rightarrow> WalOptions \<Rightarrow> WalScanResult WalResult" where
  "scan_source byte_count read_exact expected opts =
     bind_res (validate_options opts) (\<lambda>_.
     if unat byte_count < kFileHeaderBytes then Inl (WE_format, ''WAL is missing a complete file header'')
     else bind_res (read_exact 0 kFileHeaderBytes) (\<lambda>file_header.
     bind_res (validate_file_header file_header expected) (\<lambda>_.
     let start = of_nat kFileHeaderBytes;
         initial = \<lparr>wc_state = initial_wal_state\<lparr>ws_file_bytes := start\<rparr>, wc_valid_bytes = start,
                    wc_has_incomplete_tail = False\<rparr> in
     bind_res (scan_frames read_exact byte_count opts initial start) (\<lambda>result.
     Inr (result\<lparr>wc_state := (wc_state result)\<lparr>
            ws_durable_frame_sequence := ws_last_frame_sequence (wc_state result),
            ws_repaired_incomplete_tail := wc_has_incomplete_tail result\<rparr>\<rparr>)))))"

definition read_memory :: "bytes \<Rightarrow> ReadExact" where
  "read_memory bs offset n =
     (if unat offset > length bs \<or> n > length bs - unat offset
      then Inl (WE_format, ''WAL byte source ended unexpectedly'')
      else Inr (take n (drop (unat offset) bs)))"

definition scan_wal_bytes :: "bytes \<Rightarrow> WalIdentity \<Rightarrow> WalOptions \<Rightarrow> WalScanResult WalResult" where
  "scan_wal_bytes bs expected opts = scan_source (of_nat (length bs)) (read_memory bs) expected opts"

section \<open>Encoding a frame against a state\<close>

definition encode_wal_file_header :: "WalIdentity \<Rightarrow> bytes WalResult" where
  "encode_wal_file_header i = make_file_header i"

definition encode_wal_frame :: "WalState \<Rightarrow> PersistBatch \<Rightarrow> WalOptions \<Rightarrow> WalEncodedFrame WalResult" where
  "encode_wal_frame state_before b opts =
     bind_res (validate_options opts) (\<lambda>_.
     bind_res (validate_state_summary state_before opts) (\<lambda>_.
     if ws_last_frame_sequence state_before = -1
     then Inl (WE_bounds_exceeded, ''WAL frame sequence is exhausted'')
     else bind_res (stage opts b (new_view state_before)) (\<lambda>view.
     bind_res (make_frame (ws_last_frame_sequence state_before + 1) b opts) (\<lambda>bs.
     if length bs > unat (-1 - ws_file_bytes state_before)
     then Inl (WE_bounds_exceeded, ''WAL file length would overflow'')
     else Inr \<lparr>wf_bytes = bs,
                wf_state_after = (materialize view state_before)\<lparr>
                  ws_last_frame_sequence := ws_last_frame_sequence state_before + 1,
                  ws_file_bytes := ws_file_bytes state_before + of_nat (length bs)\<rparr>\<rparr>))))"

end
