(* ===== verification/WalLaws.thy ===== *)
theory WalLaws
  imports Wal ByteHash
begin

text \<open>
  The byte format of the write-ahead log. The writers append images; the readers accept exactly
  the images of legal values, stated once as a locale and instantiated from single integers up to
  log entries. On top of them: a batch payload, a frame and a file header are accepted exactly
  when they are what the encoders produce. The CRC-32C is a byte hash, so that an object sealed
  with it can not be turned into another one by changing one byte.
\<close>

section \<open>Writers append\<close>

lemma bw_raw_eq:
  "bw_raw bs w =
     (if bs = [] \<or> length (bw_bytes w) + length bs \<le> bw_limit w then Inr (w\<lparr>bw_bytes := bw_bytes w @ bs\<rparr>)
      else Inl (WE_bounds_exceeded, ''encoded WAL object exceeds configured size bound''))"
proof (cases "bs = []")
  case False
  then have "0 < length bs" by simp
  then have "length bs > bw_limit w - min (bw_limit w) (length (bw_bytes w)) \<longleftrightarrow>
      \<not> length (bw_bytes w) + length bs \<le> bw_limit w" by arith
  with False show ?thesis by (simp add: bw_raw_def bw_ensure_def guard_res_def)
qed (simp add: bw_raw_def bw_ensure_def)

lemma bw_raw_Nil [simp]: "bw_raw [] = Inr"
  by (simp add: bw_raw_eq fun_eq_iff)

lemma bw_raw_append [simp]: "bind_res (bw_raw a w) (bw_raw b) = bw_raw (a @ b) w"
  by (cases "a = []"; cases "b = []") (auto simp: bw_raw_eq bind_res_def)

lemma bw_raw_bytes: "bw_raw bs (new_byte_writer n) = Inr w \<Longrightarrow> bw_bytes w = bs"
  by (auto simp: bw_raw_eq new_byte_writer_def split: if_splits)

lemma low_byte: "ucast (drop_bit n v AND 0xff) = (ucast (drop_bit n (v :: 'a::len word)) :: u8)"
proof (rule bit_word_eqI)
  fix k assume k: "k < LENGTH(8)"
  have "(255 :: 'a word) = mask 8" by (simp add: mask_eq_exp_minus_1)
  then have "bit (255 :: 'a word) k \<longleftrightarrow> k < LENGTH('a)"
    using k by (simp only: bit_mask_iff possible_bit_word) simp
  with k show "bit (ucast (drop_bit n v AND 0xff) :: u8) k \<longleftrightarrow> bit (ucast (drop_bit n v) :: u8) k"
    by (auto simp: bit_simps dest: bit_imp_le_length)
qed

lemma le_enc_shifts: "map (\<lambda>shift. ucast (drop_bit shift v)) (map (\<lambda>i. 8 * i) [0..<n]) = le_enc n v"
proof (induction n arbitrary: v)
  case (Suc n)
  have "map (\<lambda>i. 8 * i) [0..<Suc n] = 0 # map (\<lambda>i. 8 + i) (map (\<lambda>i. 8 * i) [0..<n])"
    by (simp add: upt_rec [of 0 "Suc n"] map_Suc_upt [symmetric] del: upt_Suc)
  then show ?case using Suc [of "drop_bit 8 v"] by (simp add: drop_bit_drop_bit comp_def add.commute del: upt_Suc)
qed simp

lemma shifts:
  "[0, 8] = map (\<lambda>i. 8 * i) [0..<2]" "[0, 8, 16, 24] = map (\<lambda>i. 8 * i) [0..<4]"
  "[0, 8, 16, 24, 32, 40, 48, 56] = map (\<lambda>i. 8 * i) [0..<8]"
  by (simp_all add: upt_rec)

lemma bw_ints:
  "bw_u8 b = bw_raw [b]" "bw_u16 v2 = bw_raw (le_enc 2 v2)" "bw_u32 v4 = bw_raw (le_enc 4 v4)"
  "bw_u64 v8 = bw_raw (le_enc 8 v8)" "bw_literal = bw_raw" "bw_string = bw_raw"
  unfolding bw_u8_def bw_u16_def bw_u32_def bw_u64_def bw_literal_def bw_string_def low_byte shifts le_enc_shifts
  by simp_all

definition opt_image :: "('a \<Rightarrow> bytes) \<Rightarrow> 'a option \<Rightarrow> bytes" where
  "opt_image enc x = (case x of None \<Rightarrow> [] | Some y \<Rightarrow> enc y)"

definition flag_image :: "'a option \<Rightarrow> bytes" where
  "flag_image x = [if x \<noteq> None then 1 else 0]"

lemma write_optional_raw: "(\<And>x. wr x = bw_raw (enc x)) \<Longrightarrow> write_optional wr x = bw_raw (opt_image enc x)"
  by (auto simp: write_optional_def opt_image_def fun_eq_iff split: option.split)

definition hard_state_image :: "HardState \<Rightarrow> bytes" where
  "hard_state_image hs = le_enc 8 (hs_current_term hs) @ flag_image (hs_voted_for hs) @ opt_image (le_enc 4) (hs_voted_for hs)"

definition command_image :: "ClientCommand \<Rightarrow> bytes" where
  "command_image c = le_enc 8 (sid_high (cmd_session c)) @ le_enc 8 (sid_low (cmd_session c)) @
     le_enc 8 (cmd_sequence c) @ [command_kind_byte (cmd_kind c)] @
     le_enc 4 (of_nat (length (cmd_key c)) :: u32) @ le_enc 4 (of_nat (length (cmd_value c)) :: u32) @
     cmd_key c @ cmd_value c"

definition entry_image :: "LogEntry \<Rightarrow> bytes" where
  "entry_image e = le_enc 8 (ent_index e) @ le_enc 8 (ent_term e) @ flag_image (ent_command e) @
     opt_image command_image (ent_command e)"

definition payload_image :: "PersistBatch \<Rightarrow> bytes" where
  "payload_image b = le_enc 4 (batch_flags b) @ le_enc 4 (of_nat (length (pb_entries b)) :: u32) @
     opt_image hard_state_image (pb_hard_state b) @ opt_image (le_enc 8) (pb_truncate_from b) @
     concat (map entry_image (pb_entries b)) @ opt_image (le_enc 8) (pb_commit_index b)"

lemma write_hard_state_raw: "write_hard_state hs = bw_raw (hard_state_image hs)"
  unfolding write_hard_state_def write_optional_raw [where wr = bw_u32, OF bw_ints(3)]
  unfolding bw_ints
  by (simp add: hard_state_image_def flag_image_def fun_eq_iff)

lemma write_command_raw: "write_command c = bw_raw (command_image c)"
  by (simp add: fun_eq_iff write_command_def bw_ints command_image_def)

lemma write_entry_raw: "write_entry e = bw_raw (entry_image e)"
  unfolding write_entry_def write_optional_raw [where wr = write_command, OF write_command_raw]
  unfolding bw_ints
  by (simp add: entry_image_def flag_image_def fun_eq_iff)

lemma write_batch_entries_raw: "write_batch_entries es = bw_raw (concat (map entry_image es))"
proof (induction es)
  case (Cons e es)
  show ?case unfolding fun_eq_iff write_batch_entries.simps Cons write_entry_raw by simp
qed (simp add: fun_eq_iff)

lemma payload_image_nonempty: "8 \<le> length (payload_image b)"
  by (simp add: payload_image_def)

lemma encode_batch_payload_eq:
  "encode_batch_payload b opts =
     (if length (payload_image b) \<le> wo_max_frame_bytes opts - kFrameHeaderBytes - kFrameTrailerBytes
      then Inr (payload_image b)
      else Inl (WE_bounds_exceeded, ''encoded WAL object exceeds configured size bound''))"
proof -
  have "encode_batch_payload b opts =
      bind_res (bw_raw (payload_image b) (new_byte_writer (wo_max_frame_bytes opts - kFrameHeaderBytes - kFrameTrailerBytes)))
        (\<lambda>w. Inr (bw_bytes w))"
    unfolding encode_batch_payload_def Let_def payload_image_def bw_raw_append [symmetric]
      write_optional_raw [where wr = write_hard_state, OF write_hard_state_raw]
      write_optional_raw [where wr = bw_u64, OF bw_ints(4)]
    unfolding write_batch_entries_raw bw_ints
    by (simp add: bind_res_def split: sum.split)
  with payload_image_nonempty [of b] show ?thesis
    by (auto simp: bw_raw_eq new_byte_writer_def)
qed

section \<open>Readers accept images\<close>

locale byte_format =
  fixes get :: "ByteReader \<Rightarrow> ('a \<times> ByteReader) WalResult"
    and enc :: "'a \<Rightarrow> bytes"
    and legal :: "'a \<Rightarrow> bool"
  assumes get_iff: "get r = Inr (x, r') \<longleftrightarrow> legal x \<and> r = enc x @ r'"
begin

lemma get_enc: "legal x \<Longrightarrow> get (enc x @ r) = Inr (x, r)"
  by (simp add: get_iff)

lemma images_differ: "legal x \<Longrightarrow> legal y \<Longrightarrow> enc x @ a = enc y @ b \<Longrightarrow> x = y"
  by (metis get_enc Pair_inject sum.inject(2))

lemma bind_get: "bind_res (get r) f = Inr y \<longleftrightarrow> (\<exists>x r'. legal x \<and> r = enc x @ r' \<and> f (x, r') = Inr y)"
  by (force simp: bind_res_eq_Inr get_iff)

end

lemma br_u8_eq:
  "br_u8 r = (case r of [] \<Rightarrow> Inl (WE_format, ''declared WAL object is internally truncated'') | b # bs \<Rightarrow> Inr (b, bs))"
  by (auto simp: br_u8_def br_require_def bind_res_def guard_res_def split: list.split)

lemma br_loop_eq:
  "br_loop (map (\<lambda>i. 8 * i) [m..<m + n]) v r =
     (if n \<le> length r then Inr (v OR push_bit (8 * m) (le_dec (take n r)), drop n r)
      else Inl (WE_format, ''declared WAL object is internally truncated''))"
proof (induction n arbitrary: m v r)
  case (Suc n)
  show ?case
  proof (cases r)
    case (Cons b bs)
    have "[m..<m + Suc n] = m # [Suc m..<Suc m + n]" by (simp add: upt_conv_Cons)
    with Suc.IH [of "Suc m" "v OR push_bit (8 * m) (ucast b)" bs] Cons show ?thesis
      by (simp add: br_u8_eq push_bit_or push_bit_push_bit or.assoc add.commute del: upt_Suc)
  next
    case Nil
    then show ?thesis by (simp add: br_u8_eq upt_conv_Cons del: upt_Suc)
  qed
qed simp

lemma int_format:
  assumes "LENGTH('a) = 8 * n" and "\<And>r. get r = br_loop (map (\<lambda>i. 8 * i) [0..<n]) 0 r"
  shows "byte_format get (le_enc n :: 'a::len word \<Rightarrow> bytes) (\<lambda>_. True)"
proof
  show "get r = Inr (x, r') \<longleftrightarrow> True \<and> r = le_enc n x @ r'" for r x r'
  proof
    assume "get r = Inr (x, r')"
    then show "True \<and> r = le_enc n x @ r'"
      using assms(1) br_loop_eq [of 0 n "0 :: 'a word" r]
      by (auto simp: assms(2) le_enc_dec split: if_splits)
  next
    assume "True \<and> r = le_enc n x @ r'"
    then show "get r = Inr (x, r')"
      using assms(1) br_loop_eq [of 0 n "0 :: 'a word" r] by (simp add: assms(2) le_dec_enc)
  qed
qed

interpretation r_u8: byte_format br_u8 "\<lambda>b. [b]" "\<lambda>_. True"
  by unfold_locales (auto simp: br_u8_eq split: list.splits)

interpretation r_u32: byte_format br_u32 "le_enc 4" "\<lambda>_. True"
  by (rule int_format) (simp_all only: br_u32_def shifts, simp)

interpretation r_u64: byte_format br_u64 "le_enc 8" "\<lambda>_. True"
  by (rule int_format) (simp_all only: br_u64_def shifts, simp)

interpretation r_u16: byte_format br_u16 "le_enc 2" "\<lambda>_. True"
proof (rule int_format)
  fix r
  have cast: "ucast (le_dec bs :: u32) = (le_dec bs :: u16)" if "length bs = 2" for bs
  proof -
    from that obtain a b where "bs = [a, b]" by (auto simp: numeral_2_eq_2 length_Suc_conv)
    then show ?thesis by (auto intro!: bit_word_eqI simp: bit_simps)
  qed
  note eq = br_loop_eq [of 0 2 _ r, unfolded add_0]
  show "br_u16 r = br_loop (map (\<lambda>i. 8 * i) [0..<2]) 0 r"
    unfolding br_u16_def shifts eq by (simp add: cast)
qed simp

lemma br_string_iff: "br_string n r = Inr (s, r') \<longleftrightarrow> length s = n \<and> r = s @ r'"
  by (auto simp: br_string_def br_require_def bind_res_eq_Inr min_def)

lemma br_string_append: "length s = n \<Longrightarrow> br_string n (s @ r) = Inr (s, r)"
  by (simp add: br_string_iff)

lemma br_match_iff: "br_match cs name r = Inr r' \<longleftrightarrow> r = cs @ r'"
proof (induction cs arbitrary: r)
  case (Cons c cs)
  then show ?case by (cases r) (auto simp: br_u8_eq)
qed auto

lemma br_expect_literal_iff: "br_expect_literal cs name r = Inr r' \<longleftrightarrow> r = cs @ r'"
  by (auto simp: br_expect_literal_def br_require_def bind_res_eq_Inr br_match_iff)

lemma br_expect_literal_append: "br_expect_literal cs name (cs @ r) = Inr r"
  by (simp add: br_expect_literal_iff)

lemma read_optional_iff:
  assumes "byte_format rd enc legal"
  shows "read_optional present rd r = Inr (x, r') \<longleftrightarrow>
    (x \<noteq> None \<longleftrightarrow> present) \<and> (\<forall>y. x = Some y \<longrightarrow> legal y) \<and> r = opt_image enc x @ r'"
  using byte_format.get_iff [OF assms]
  by (cases present; cases x) (force simp: read_optional_def opt_image_def bind_res_eq_Inr)+

lemma marker: "(m :: u8) \<le> 1 \<Longrightarrow> [m] = flag_image x \<longleftrightarrow> (x \<noteq> None \<longleftrightarrow> m \<noteq> 0)"
proof -
  assume "m \<le> 1"
  then have "unat m = 0 \<or> unat m = 1" by (simp add: word_le_nat_alt) arith
  then have "m = 0 \<or> m = 1" by (auto simp: word_unat_eq_iff)
  then show ?thesis by (auto simp: flag_image_def)
qed

interpretation r_hard: byte_format read_hard_state hard_state_image "\<lambda>_. True"
proof
  show "read_hard_state r = Inr (hs, r') \<longleftrightarrow> True \<and> r = hard_state_image hs @ r'" for r hs r'
  proof
    assume "read_hard_state r = Inr (hs, r')"
    then show "True \<and> r = hard_state_image hs @ r'"
      by (auto simp: read_hard_state_def r_u64.get_iff r_u8.get_iff bind_res_eq_Inr hard_state_image_def
          read_optional_iff [OF r_u32.byte_format_axioms] not_less marker split: if_splits)
  qed (auto simp: read_hard_state_def hard_state_image_def flag_image_def r_u64.get_enc r_u8.get_enc [simplified]
      read_optional_def opt_image_def r_u32.get_enc bind_res_def split: option.split)
qed

definition command_legal :: "WalOptions \<Rightarrow> ClientCommand \<Rightarrow> bool" where
  "command_legal opts c \<longleftrightarrow> length (cmd_key c) \<le> unat (wo_max_key_bytes opts) \<and>
     length (cmd_value c) \<le> unat (wo_max_value_bytes opts)"

definition entry_legal :: "WalOptions \<Rightarrow> LogEntry \<Rightarrow> bool" where
  "entry_legal opts e \<longleftrightarrow> (\<forall>c. ent_command e = Some c \<longrightarrow> command_legal opts c)"

lemma u32_length: "length xs \<le> unat (w :: u32) \<Longrightarrow> unat (of_nat (length xs) :: u32) = length xs"
  using le_less_trans [OF _ unat_less_32, of "length xs" w] by simp

lemma u32_length_le: "length xs \<le> unat (w :: u32) \<Longrightarrow> (of_nat (length xs) :: u32) \<le> w"
  by (simp add: word_le_nat_alt u32_length)

interpretation r_command: byte_format "read_command opts" command_image "command_legal opts"
  for opts
proof
  show "read_command opts r = Inr (c, r') \<longleftrightarrow> command_legal opts c \<and> r = command_image c @ r'" for r c r'
  proof
    assume "read_command opts r = Inr (c, r')"
    then show "command_legal opts c \<and> r = command_image c @ r'"
      by (auto simp: read_command_def r_u64.get_iff r_u8.get_iff r_u32.get_iff bind_res_eq_Inr br_string_iff
          command_image_def command_legal_def not_less word_le_nat_alt
          dest!: command_kind_of_byte_Some split: if_splits option.splits)
  next
    assume c: "command_legal opts c \<and> r = command_image c @ r'"
    then have len: "length (cmd_key c) \<le> unat (wo_max_key_bytes opts)" "length (cmd_value c) \<le> unat (wo_max_value_bytes opts)"
      by (simp_all add: command_legal_def)
    have "\<lparr>cmd_session = SessionId (sid_high (cmd_session c)) (sid_low (cmd_session c)), cmd_sequence = cmd_sequence c,
        cmd_kind = cmd_kind c, cmd_key = cmd_key c, cmd_value = cmd_value c\<rparr> = c"
      by (cases c; cases "cmd_session c") simp
    with c show "read_command opts r = Inr (c, r')"
      by (simp add: read_command_def command_image_def r_u64.get_enc r_u32.get_enc br_u8_eq
          u32_length [OF len(1)] u32_length [OF len(2)] leD [OF u32_length_le [OF len(1)]]
          leD [OF u32_length_le [OF len(2)]] br_string_append)
  qed
qed

interpretation r_entry: byte_format "read_entry opts" entry_image "entry_legal opts"
  for opts
proof
  show "read_entry opts r = Inr (e, r') \<longleftrightarrow> entry_legal opts e \<and> r = entry_image e @ r'" for r e r'
  proof
    assume "read_entry opts r = Inr (e, r')"
    then show "entry_legal opts e \<and> r = entry_image e @ r'"
      by (auto simp: read_entry_def r_u64.get_iff r_u8.get_iff bind_res_eq_Inr entry_image_def entry_legal_def
          read_optional_iff [OF r_command.byte_format_axioms] not_less marker split: if_splits)
  qed (auto simp: read_entry_def entry_image_def flag_image_def r_u64.get_enc br_u8_eq entry_legal_def
      read_optional_def opt_image_def r_command.get_enc bind_res_def split: option.split)
qed

lemma read_batch_entries_iff:
  "read_batch_entries opts n r = Inr (es, r') \<longleftrightarrow>
     length es = n \<and> (\<forall>e \<in> set es. entry_legal opts e) \<and> r = concat (map entry_image es) @ r'"
proof (induction n arbitrary: r es)
  case (Suc n)
  show ?case
    by (cases es) (force simp: bind_res_eq_Inr r_entry.get_iff Suc.IH)+
qed auto

lemma entry_image_length: "kMinimumWalEntryBytes \<le> length (entry_image e)"
  by (simp add: entry_image_def flag_image_def kMinimumWalEntryBytes_def)

lemma entries_image_length: "kMinimumWalEntryBytes * length es \<le> length (concat (map entry_image es))"
proof (induction es)
  case (Cons e es)
  then show ?case using entry_image_length [of e] by simp
qed simp

section \<open>Batch payloads\<close>

definition batch_legal :: "WalOptions \<Rightarrow> PersistBatch \<Rightarrow> bool" where
  "batch_legal opts b \<longleftrightarrow> length (pb_entries b) \<le> unat (wo_max_entries_per_frame opts) \<and>
     (\<forall>e \<in> set (pb_entries b). entry_legal opts e)"

lemmas batch_flag_defs = kHardStateFlag_def kTruncateFlag_def kCommitFlag_def kKnownBatchFlags_def

lemma flags_of_batch [simp]:
  "batch_flags b AND NOT kKnownBatchFlags = 0"
  "batch_flags b AND kHardStateFlag \<noteq> 0 \<longleftrightarrow> pb_hard_state b \<noteq> None"
  "batch_flags b AND kTruncateFlag \<noteq> 0 \<longleftrightarrow> pb_truncate_from b \<noteq> None"
  "batch_flags b AND kCommitFlag \<noteq> 0 \<longleftrightarrow> pb_commit_index b \<noteq> None"
  by (simp_all add: batch_flags_def batch_flag_defs)

lemma and_single_bit: "(w :: 'a::len word) AND push_bit n 1 = (if w AND push_bit n 1 \<noteq> 0 then push_bit n 1 else 0)"
proof -
  have "w AND push_bit n 1 = (if bit w n then push_bit n 1 else 0)"
    by (rule bit_word_eqI) (auto simp: bit_simps)
  then show ?thesis by auto
qed

lemma known_flags:
  assumes "flags AND NOT kKnownBatchFlags = 0"
  shows "flags = (if flags AND kHardStateFlag \<noteq> 0 then kHardStateFlag else 0) OR
    (if flags AND kTruncateFlag \<noteq> 0 then kTruncateFlag else 0) OR
    (if flags AND kCommitFlag \<noteq> 0 then kCommitFlag else 0)"
proof -
  have "bit (flags AND kKnownBatchFlags) n \<longleftrightarrow> bit flags n" for n
    using arg_cong [OF assms, of "\<lambda>w. bit w n"] by (auto simp: bit_simps dest: bit_imp_le_length)
  then have "flags = flags AND kHardStateFlag OR flags AND kTruncateFlag OR flags AND kCommitFlag"
    unfolding kKnownBatchFlags_def by (intro bit_word_eqI) (auto simp: bit_simps)
  moreover have "flags AND f = (if flags AND f \<noteq> 0 then f else 0)"
    if "f = kHardStateFlag \<or> f = kTruncateFlag \<or> f = kCommitFlag" for f
    using that and_single_bit unfolding batch_flag_defs by blast
  ultimately show ?thesis by simp
qed

lemma decode_batch_payload_iff:
  "decode_batch_payload p opts = Inr b \<longleftrightarrow> batch_legal opts b \<and> p = payload_image b"
proof
  assume "decode_batch_payload p opts = Inr b"
  then obtain flags count r1 r2 r3 hard trunc entries commit where d:
    "p = le_enc 4 flags @ le_enc 4 count @ r1" "flags AND NOT kKnownBatchFlags = 0"
    "count \<le> wo_max_entries_per_frame opts"
    "read_optional (flags AND kHardStateFlag \<noteq> 0) read_hard_state r1 = Inr (hard, r2)"
    "read_optional (flags AND kTruncateFlag \<noteq> 0) br_u64 r2 = Inr (trunc, r3)"
    "\<exists>r4. read_batch_entries opts (unat count) r3 = Inr (entries, r4) \<and>
      read_optional (flags AND kCommitFlag \<noteq> 0) br_u64 r4 = Inr (commit, [])"
    "b = \<lparr>pb_hard_state = hard, pb_truncate_from = trunc, pb_entries = entries, pb_commit_index = commit\<rparr>"
    by (auto simp: decode_batch_payload_def bind_res_eq_Inr r_u32.get_iff not_less split: if_splits)
  from d(4-6) have parts: "hard \<noteq> None \<longleftrightarrow> flags AND kHardStateFlag \<noteq> 0" "trunc \<noteq> None \<longleftrightarrow> flags AND kTruncateFlag \<noteq> 0"
    "commit \<noteq> None \<longleftrightarrow> flags AND kCommitFlag \<noteq> 0"
    "r1 = opt_image hard_state_image hard @ opt_image (le_enc 8) trunc @ concat (map entry_image entries) @
      opt_image (le_enc 8) commit"
    "length entries = unat count" "\<forall>e \<in> set entries. entry_legal opts e"
    by (auto simp: read_optional_iff [OF r_hard.byte_format_axioms] read_optional_iff [OF r_u64.byte_format_axioms]
        read_batch_entries_iff)
  have "batch_flags b = flags"
    using known_flags [OF d(2)] unfolding batch_flags_def d(7) by (simp only: PersistBatch.select_convs parts(1-3))
  with d(1,3,7) parts show "batch_legal opts b \<and> p = payload_image b"
    by (simp add: batch_legal_def payload_image_def word_le_nat_alt)
next
  assume b: "batch_legal opts b \<and> p = payload_image b"
  then have len: "length (pb_entries b) \<le> unat (wo_max_entries_per_frame opts)" by (simp add: batch_legal_def)
  have entries: "\<not> (length (concat (map entry_image (pb_entries b)) @ r) < trailing_bytes (batch_flags b)) \<and>
      \<not> unat (of_nat (length (pb_entries b)) :: u32) >
        (length (concat (map entry_image (pb_entries b)) @ r) - trailing_bytes (batch_flags b)) div kMinimumWalEntryBytes"
    if "r = opt_image (le_enc 8) (pb_commit_index b)" for r
    using entries_image_length [of "pb_entries b"] that
    by (auto simp: u32_length [OF len] trailing_bytes_def opt_image_def not_less kMinimumWalEntryBytes_def
        less_eq_div_iff_mult_less_eq mult.commute split: option.split)
  have o64: "read_optional (x \<noteq> None) br_u64 (opt_image (le_enc 8) x @ r) = Inr (x, r)" for x r
    by (simp add: read_optional_iff [OF r_u64.byte_format_axioms])
  have ohs: "read_optional (x \<noteq> None) read_hard_state (opt_image hard_state_image x @ r) = Inr (x, r)" for x r
    by (simp add: read_optional_iff [OF r_hard.byte_format_axioms])
  have es: "read_batch_entries opts (unat (of_nat (length (pb_entries b)) :: u32)) (concat (map entry_image (pb_entries b)) @ r)
      = Inr (pb_entries b, r)" for r
    using b by (simp add: read_batch_entries_iff u32_length [OF len] batch_legal_def)
  show "decode_batch_payload p opts = Inr b"
    using b entries [OF refl] leD [OF u32_length_le [OF len]]
    by (simp add: decode_batch_payload_def payload_image_def r_u32.get_enc o64 ohs es
        o64 [of "pb_commit_index b" "[]", simplified append_Nil2] del: not_None_eq)
qed

section \<open>Checksums\<close>

lemma crc_bit_eq: "crc_bit c = drop_bit 1 c XOR (if bit c 0 then 0x82f63b78 else 0)"
  by (auto simp: crc_bit_def Let_def and_one_eq bit_0 odd_iff_mod_2_eq_one even_iff_mod_2_eq_zero)

lemma crc_bit_top: "bit (crc_bit c) 31 \<longleftrightarrow> bit c 0"
proof -
  have "bit (0x82f63b78 :: u32) 31" by simp
  moreover have "\<not> bit (drop_bit 1 c) 31" by (auto simp: bit_drop_bit_eq dest: bit_imp_le_length)
  ultimately show ?thesis by (simp add: crc_bit_eq bit_xor_iff)
qed

lemma crc_bit_inj: "inj crc_bit"
proof (rule injI)
  fix c d assume eq: "crc_bit c = crc_bit d"
  then have low: "bit c 0 \<longleftrightarrow> bit d 0" by (metis crc_bit_top)
  with eq have "drop_bit 1 c = drop_bit 1 d" by (simp add: crc_bit_eq split: if_splits) (metis xor_cancel_right)+
  then have "bit c (Suc n) \<longleftrightarrow> bit d (Suc n)" for n
    using bit_drop_bit_eq [of 1 c] bit_drop_bit_eq [of 1 d] by (metis comp_apply plus_1_eq_Suc)
  with low show "c = d" by (intro bit_eqI) (metis not0_implies_Suc)
qed

interpretation crc: byte_hash crc_byte
proof
  show "crc_byte s b = crc_byte t b \<Longrightarrow> s = t" for s t b
    by (metis crc_byte_def crc_bit_inj inj_fn injD xor_cancel_right)
  show "crc_byte s a = crc_byte s b \<Longrightarrow> a = b" for s a b
    by (metis crc_byte_def crc_bit_inj inj_fn injD xor_cancel_left ucast_u8_u32)
qed

lemma le_enc_inj: "LENGTH('a) = 8 * n \<Longrightarrow> le_enc n v = le_enc n w \<longleftrightarrow> v = (w :: 'a::len word)"
  by (metis le_dec_enc order_refl)

text \<open>An object followed by its checksum and a fixed tail.\<close>

definition seal :: "bytes \<Rightarrow> bytes \<Rightarrow> bytes" where
  "seal tail bs = bs @ le_enc 4 (crc32c bs) @ tail"

definition is_sealed :: "nat \<Rightarrow> bytes \<Rightarrow> bytes \<Rightarrow> bool" where
  "is_sealed n tail bs \<longleftrightarrow> length bs = n + 4 + length tail \<and> bs = seal tail (take n bs)"

lemma is_sealed_seal: "length bs = n \<Longrightarrow> is_sealed n tail (seal tail bs)"
  by (simp add: is_sealed_def seal_def)

lemma sealed_one_byte:
  assumes "is_sealed n tail bs" and "i < length bs" and "b \<noteq> bs ! i"
  shows "\<not> is_sealed n tail (bs[i := b])"
proof
  assume s: "is_sealed n tail (bs[i := b])"
  have d: "drop n bs = le_enc 4 (crc32c (take n bs)) @ tail" "n \<le> length bs"
    using assms(1) by (metis is_sealed_def seal_def append_eq_conv_conj length_take min.absorb2 le_add1 add.assoc)+
  have d': "drop n (bs[i := b]) = le_enc 4 (crc32c (take n (bs[i := b]))) @ tail"
    using s d(2) by (metis is_sealed_def seal_def append_eq_conv_conj length_take length_list_update min.absorb2)
  show False
  proof (cases "i < n")
    case True
    then have "le_enc 4 (crc32c (take n bs)) = le_enc 4 (crc32c ((take n bs)[i := b]))"
      using d d' by (simp add: take_update_swap drop_update_cancel)
    then have "foldl crc_byte 0xffffffff (take n bs) = foldl crc_byte 0xffffffff ((take n bs)[i := b])"
      by (simp add: le_enc_inj crc32c_def)
    with crc.one_update_changes [of i "take n bs" b] True assms d(2) show False by (metis nth_take length_take min.absorb2)
  next
    case False
    then have "drop n (bs[i := b]) = drop n bs" using d d' by simp
    with False have "bs[i := b] = bs" by (metis append_take_drop_id not_less take_update_cancel)
    with assms show False by (metis nth_list_update_eq)
  qed
qed

section \<open>Frames\<close>

definition frame_prefix :: "ParsedFrameHeader \<Rightarrow> bytes" where
  "frame_prefix h = kFrameMagic @ le_enc 2 kFormatVersion @ le_enc 2 (of_nat kFrameHeaderBytes :: u16) @
     le_enc 4 (0 :: u32) @ le_enc 8 (fh_frame_size h) @ le_enc 8 (fh_payload_size h) @ le_enc 8 (fh_sequence h)"

definition frame_header_image :: "ParsedFrameHeader \<Rightarrow> bytes" where
  "frame_header_image h = seal (le_enc 4 kFrameHeaderTag) (frame_prefix h)"

definition frame_tail :: "ParsedFrameHeader \<Rightarrow> bytes" where
  "frame_tail h = le_enc 4 kFrameTrailerTag @ le_enc 8 (fh_frame_size h) @ kTrailerMagic"

definition frame_image :: "ParsedFrameHeader \<Rightarrow> bytes \<Rightarrow> bytes" where
  "frame_image h payload = seal (frame_tail h) (frame_header_image h @ payload)"

definition frame_header_of :: "u64 \<Rightarrow> bytes \<Rightarrow> ParsedFrameHeader" where
  "frame_header_of sequence payload = \<lparr>fh_frame_size = of_nat (72 + length payload),
     fh_payload_size = of_nat (length payload), fh_sequence = sequence\<rparr>"

lemma magic_lengths [simp]: "length kFileMagic = 8" "length kFrameMagic = 8" "length kTrailerMagic = 8"
  by (simp_all add: kFileMagic_def kFrameMagic_def kTrailerMagic_def)

lemma frame_lengths [simp]:
  "length (frame_prefix h) = 40" "length (frame_header_image h) = 48" "length (frame_tail h) = 20"
  "length (frame_image h p) = 72 + length p"
  by (simp_all add: frame_prefix_def frame_header_image_def frame_tail_def frame_image_def seal_def)

lemma make_frame_iff:
  "make_frame sequence b opts = Inr bs \<longleftrightarrow>
     72 + length (payload_image b) \<le> wo_max_frame_bytes opts \<and>
     bs = frame_image (frame_header_of sequence (payload_image b)) (payload_image b)"
proof (cases "72 + length (payload_image b) \<le> wo_max_frame_bytes opts")
  case True
  then have "make_frame sequence b opts = Inr (frame_image (frame_header_of sequence (payload_image b)) (payload_image b))"
    by (simp add: make_frame_def encode_batch_payload_eq Let_def wal_sizes bw_ints bw_raw_eq new_byte_writer_def
        frame_image_def frame_header_image_def frame_prefix_def frame_tail_def seal_def frame_header_of_def)
  with True show ?thesis by auto
next
  case False
  then show ?thesis
    by (auto simp: make_frame_def encode_batch_payload_eq Let_def wal_sizes bind_res_eq_Inr split: if_splits)
qed

definition header_ok :: "WalOptions \<Rightarrow> ParsedFrameHeader \<Rightarrow> bool" where
  "header_ok opts h \<longleftrightarrow> kMinimumFrameBytes \<le> unat (fh_frame_size h) \<and> unat (fh_frame_size h) \<le> wo_max_frame_bytes opts \<and>
     unat (fh_payload_size h) \<le> wo_max_frame_bytes opts \<and>
     fh_payload_size h + of_nat kFrameHeaderBytes + of_nat kFrameTrailerBytes = fh_frame_size h"

lemma take_prefix_image: "length a = n \<Longrightarrow> take n (a @ b) = a"
  by simp

lemma parse_frame_header_iff:
  assumes "length bs = kFrameHeaderBytes"
  shows "parse_frame_header bs opts = Inr h \<longleftrightarrow> bs = frame_header_image h \<and> header_ok opts h"
proof
  assume "parse_frame_header bs opts = Inr h"
  then obtain sum r where p: "bs = frame_prefix h @ le_enc 4 sum @ le_enc 4 kFrameHeaderTag @ r"
      "sum = crc32c (take 40 bs)" "header_ok opts h"
    by (auto simp: parse_frame_header_def bind_res_eq_Inr br_expect_literal_iff r_u16.get_iff r_u32.get_iff
        r_u64.get_iff frame_prefix_def header_ok_def not_less split: if_splits)
  have "take 40 bs = frame_prefix h" by (subst p(1)) simp
  then have "sum = crc32c (frame_prefix h)" using p(2) by simp
  moreover have "r = []" using arg_cong [OF p(1), of length] assms by (simp add: wal_sizes)
  ultimately show "bs = frame_header_image h \<and> header_ok opts h"
    using p(1,3) by (simp add: frame_header_image_def seal_def)
next
  assume h: "bs = frame_header_image h \<and> header_ok opts h"
  have "take 40 (frame_header_image h) = frame_prefix h" by (simp add: frame_header_image_def seal_def)
  moreover have "bs = kFrameMagic @ le_enc 2 kFormatVersion @ le_enc 2 (of_nat kFrameHeaderBytes :: u16) @
     le_enc 4 (0 :: u32) @ le_enc 8 (fh_frame_size h) @ le_enc 8 (fh_payload_size h) @ le_enc 8 (fh_sequence h) @
     le_enc 4 (crc32c (frame_prefix h)) @ le_enc 4 kFrameHeaderTag @ []"
    using h by (simp add: frame_header_image_def seal_def frame_prefix_def)
  ultimately show "parse_frame_header bs opts = Inr h"
    using h
    by (simp add: parse_frame_header_def br_expect_literal_append r_u16.get_enc r_u32.get_enc
        r_u64.get_enc header_ok_def not_less [symmetric] del: append_Nil2)
qed

lemma options_frame_bound: "validate_options opts = Inr u \<Longrightarrow> wo_max_frame_bytes opts \<le> 268435456"
  by (auto simp: validate_options_def wal_sizes split: if_splits)

lemma header_ok_sizes:
  assumes "header_ok opts h" and "validate_options opts = Inr u"
  shows "unat (fh_frame_size h) = 72 + unat (fh_payload_size h)"
proof -
  have le: "unat (fh_payload_size h) \<le> 268435456"
    using assms options_frame_bound [OF assms(2)] by (simp add: header_ok_def)
  have "fh_frame_size h = fh_payload_size h + 72" using assms(1) by (simp add: header_ok_def wal_sizes add.assoc)
  moreover have "unat (fh_payload_size h + 72) = unat (fh_payload_size h) + unat (72 :: u64)"
    by (rule unat_add_lem [THEN iffD1]) (use le in simp)
  ultimately show ?thesis by simp
qed

lemma header_of_ok:
  assumes "72 + length (payload_image b) \<le> wo_max_frame_bytes opts" and "validate_options opts = Inr u"
  shows "header_ok opts (frame_header_of sequence (payload_image b))"
    "unat (fh_frame_size (frame_header_of sequence (payload_image b))) = 72 + length (payload_image b)"
    "unat (fh_payload_size (frame_header_of sequence (payload_image b))) = length (payload_image b)"
proof -
  have le: "72 + length (payload_image b) < 2 ^ 64" using assms options_frame_bound [OF assms(2)] by simp
  then show size: "unat (fh_frame_size (frame_header_of sequence (payload_image b))) = 72 + length (payload_image b)"
    "unat (fh_payload_size (frame_header_of sequence (payload_image b))) = length (payload_image b)"
    by (simp_all add: frame_header_of_def del: of_nat_add)
  show "header_ok opts (frame_header_of sequence (payload_image b))"
    unfolding header_ok_def size using assms(1) payload_image_nonempty [of b]
    by (simp add: frame_header_of_def wal_sizes add.commute)
qed

lemma header_eqI:
  assumes "header_ok opts h" and "validate_options opts = Inr u" and "length p = unat (fh_payload_size h)"
  shows "h = frame_header_of (fh_sequence h) p"
proof -
  have "72 + length p = unat (fh_frame_size h)" using header_ok_sizes [OF assms(1,2)] assms(3) by simp
  then have "of_nat (72 + length p) = fh_frame_size h" by (simp only:) simp
  moreover have "of_nat (length p) = fh_payload_size h" using assms(3) by simp
  ultimately show ?thesis by (cases h) (simp add: frame_header_of_def del: of_nat_add)
qed

lemma validate_complete_frame_iff:
  assumes "header_ok opts h" and "validate_options opts = Inr u"
    and "take kFrameHeaderBytes bs = frame_header_image h" and "length bs = unat (fh_frame_size h)"
  shows "validate_complete_frame bs h opts = Inr b \<longleftrightarrow>
    batch_legal opts b \<and> length (payload_image b) = unat (fh_payload_size h) \<and> bs = frame_image h (payload_image b)"
proof -
  define p t where "p = take (unat (fh_payload_size h)) (drop 48 bs)" and "t = drop (48 + unat (fh_payload_size h)) bs"
  have len: "length bs = 72 + unat (fh_payload_size h)" using header_ok_sizes [OF assms(1,2)] assms(4) by simp
  have bs: "bs = frame_header_image h @ p @ t"
    using assms(3) append_take_drop_id [of 48 bs] append_take_drop_id [of "unat (fh_payload_size h)" "drop 48 bs"]
    by (simp add: p_def t_def wal_sizes add.commute)
  have lp: "length p = unat (fh_payload_size h)" "length t = 24" using len by (simp_all add: p_def t_def)
  have parts: "take 24 (drop (48 + unat (fh_payload_size h)) bs) = t"
    "take (48 + unat (fh_payload_size h)) bs = frame_header_image h @ p"
    using lp by (simp_all add: bs)
  have trailer: "t = le_enc 4 (crc32c (frame_header_image h @ p)) @ frame_tail h \<longleftrightarrow> bs = frame_image h p"
    by (simp add: bs frame_image_def seal_def)
  have "validate_complete_frame bs h opts = Inr b \<longleftrightarrow>
      t = le_enc 4 (crc32c (frame_header_image h @ p)) @ frame_tail h \<and> decode_batch_payload p opts = Inr b"
    using lp(2)
    by (auto simp: validate_complete_frame_def Let_def wal_sizes parts bind_res_eq_Inr r_u32.get_iff r_u64.get_iff
        br_expect_literal_iff frame_tail_def p_def [symmetric] split: if_splits)
  also have "\<dots> \<longleftrightarrow> batch_legal opts b \<and> length (payload_image b) = unat (fh_payload_size h) \<and> bs = frame_image h (payload_image b)"
    unfolding trailer decode_batch_payload_iff using lp(1)
    by (auto simp: bs frame_image_def seal_def)
  finally show ?thesis .
qed

section \<open>File header\<close>

definition header_prefix :: "WalIdentity \<Rightarrow> bytes" where
  "header_prefix i = kFileMagic @ le_enc 2 kFormatVersion @ le_enc 2 (of_nat kFileHeaderBytes :: u16) @
     le_enc 4 (0 :: u32) @ le_enc 8 (wi_cluster_id_high i) @ le_enc 8 (wi_cluster_id_low i) @
     le_enc 4 (wi_node_id i) @ le_enc 4 (0 :: u32)"

definition file_header_image :: "WalIdentity \<Rightarrow> bytes" where
  "file_header_image i = seal (le_enc 4 kFileHeaderTag) (header_prefix i)"

lemma file_lengths [simp]: "length (header_prefix i) = 40" "length (file_header_image i) = 48"
  by (simp_all add: header_prefix_def file_header_image_def seal_def)

lemma make_file_header_eq: "make_file_header i = Inr (file_header_image i)"
  by (simp add: make_file_header_def wal_sizes bw_ints bw_raw_eq new_byte_writer_def
      file_header_image_def header_prefix_def seal_def)

lemma validate_file_header_iff: "validate_file_header bs i = Inr () \<longleftrightarrow> bs = file_header_image i"
proof
  assume "validate_file_header bs i = Inr ()"
  then obtain sum r where p: "bs = header_prefix i @ le_enc 4 sum @ le_enc 4 kFileHeaderTag @ r"
      "sum = crc32c (take 40 bs)" "length bs = 48"
    by (auto simp: validate_file_header_def bind_res_eq_Inr br_expect_literal_iff r_u16.get_iff r_u32.get_iff
        r_u64.get_iff header_prefix_def wal_sizes not_less split: if_splits)
  have "take 40 bs = header_prefix i" by (subst p(1)) simp
  then have "sum = crc32c (header_prefix i)" using p(2) by simp
  moreover have "r = []" using arg_cong [OF p(1), of length] p(3) by simp
  ultimately show "bs = file_header_image i" using p(1) by (simp add: file_header_image_def seal_def)
next
  assume h: "bs = file_header_image i"
  have "take 40 bs = header_prefix i" by (simp add: h file_header_image_def seal_def)
  moreover have "bs = kFileMagic @ le_enc 2 kFormatVersion @ le_enc 2 (of_nat kFileHeaderBytes :: u16) @
     le_enc 4 (0 :: u32) @ le_enc 8 (wi_cluster_id_high i) @ le_enc 8 (wi_cluster_id_low i) @
     le_enc 4 (wi_node_id i) @ le_enc 4 (0 :: u32) @ le_enc 4 (crc32c (header_prefix i)) @ le_enc 4 kFileHeaderTag @ []"
    by (simp add: h file_header_image_def seal_def header_prefix_def)
  moreover have "length bs = kFileHeaderBytes" by (simp add: h wal_sizes)
  ultimately show "validate_file_header bs i = Inr ()"
    by (simp add: validate_file_header_def br_expect_literal_append r_u16.get_enc r_u32.get_enc
        r_u64.get_enc del: append_Nil2)
qed

end
