(* ===== verification/WalView.thy ===== *)
theory WalView
  imports WalLaws
begin

text \<open>
  What \<^verbatim>\<open>ValidationView\<close> promises. The view keeps a prefix of the base log and a new suffix; seen
  from outside it is a hard state, a log and a commit index, and \<^verbatim>\<open>stage\<close> accepts a batch exactly
  when it is admissible for them and then has its plain effect. Admissible batches keep the log
  well formed.
\<close>

section \<open>The logical log\<close>

record WalLog =
  wl_hard_state :: HardState
  wl_entries :: "LogEntry list"
  wl_commit_index :: LogIndex

definition wal_log :: "WalState \<Rightarrow> WalLog" where
  "wal_log s = \<lparr>wl_hard_state = ws_hard_state s, wl_entries = ws_entries s, wl_commit_index = ws_commit_index s\<rparr>"

definition view_log :: "ValidationView \<Rightarrow> WalLog" where
  "view_log v = \<lparr>wl_hard_state = vv_hard_state v,
     wl_entries = take (vv_base_keep v) (vv_base_entries v) @ vv_suffix v, wl_commit_index = vv_commit_index v\<rparr>"

definition view_wf :: "ValidationView \<Rightarrow> bool" where
  "view_wf v \<longleftrightarrow> vv_base_keep v \<le> length (vv_base_entries v) \<and> length (wl_entries (view_log v)) < 2 ^ 64 - 1"

abbreviation batch_term :: "PersistBatch \<Rightarrow> WalLog \<Rightarrow> Term" where
  "batch_term b l \<equiv> hs_current_term (case pb_hard_state b of None \<Rightarrow> wl_hard_state l | Some hs \<Rightarrow> hs)"

definition kept_entries :: "PersistBatch \<Rightarrow> WalLog \<Rightarrow> LogEntry list" where
  "kept_entries b l = (case pb_truncate_from b of None \<Rightarrow> wl_entries l | Some t \<Rightarrow> take (unat t - 1) (wl_entries l))"

definition batch_effect :: "PersistBatch \<Rightarrow> WalLog \<Rightarrow> WalLog" where
  "batch_effect b l = \<lparr>
     wl_hard_state = (case pb_hard_state b of None \<Rightarrow> wl_hard_state l | Some hs \<Rightarrow> hs),
     wl_entries = kept_entries b l @ pb_entries b,
     wl_commit_index = (case pb_commit_index b of None \<Rightarrow> wl_commit_index l | Some c \<Rightarrow> c)\<rparr>"

text \<open>What an entry must satisfy at its place in a log.\<close>

definition entry_ok_at :: "WalOptions \<Rightarrow> Term \<Rightarrow> LogEntry list \<Rightarrow> nat \<Rightarrow> bool" where
  "entry_ok_at opts t es i \<longleftrightarrow>
     i < unat (wo_max_log_entries opts) \<and> ent_index (es ! i) = of_nat (Suc i) \<and>
     ent_term (es ! i) \<noteq> 0 \<and> ent_term (es ! i) \<le> t \<and>
     (0 < i \<longrightarrow> ent_term (es ! (i - 1)) \<le> ent_term (es ! i)) \<and> entry_legal opts (es ! i)"

definition entries_ok_from :: "WalOptions \<Rightarrow> Term \<Rightarrow> LogEntry list \<Rightarrow> nat \<Rightarrow> bool" where
  "entries_ok_from opts t es n \<longleftrightarrow> (\<forall>i. n \<le> i \<and> i < length es \<longrightarrow> entry_ok_at opts t es i)"

definition hard_state_follows :: "HardState \<Rightarrow> HardState \<Rightarrow> bool" where
  "hard_state_follows old new \<longleftrightarrow> (hs_current_term new = 0 \<longrightarrow> hs_voted_for new = None) \<and>
     hs_current_term old \<le> hs_current_term new \<and>
     (hs_current_term new = hs_current_term old \<and> hs_voted_for old \<noteq> None \<longrightarrow> hs_voted_for new = hs_voted_for old)"

definition batch_admissible :: "WalOptions \<Rightarrow> PersistBatch \<Rightarrow> WalLog \<Rightarrow> bool" where
  "batch_admissible opts b l \<longleftrightarrow>
     \<not> batch_empty b \<and> length (pb_entries b) \<le> unat (wo_max_entries_per_frame opts) \<and>
     (\<forall>hs. pb_hard_state b = Some hs \<longrightarrow> hard_state_follows (wl_hard_state l) hs) \<and>
     (\<forall>t. pb_truncate_from b = Some t \<longrightarrow> wl_commit_index l < t \<and> unat t \<le> Suc (length (wl_entries l))) \<and>
     entries_ok_from opts (batch_term b l) (kept_entries b l @ pb_entries b) (length (kept_entries b l)) \<and>
     (\<forall>c. pb_commit_index b = Some c \<longrightarrow>
        wl_commit_index l \<le> c \<and> unat c \<le> length (kept_entries b l @ pb_entries b))"

definition wal_log_wf :: "WalOptions \<Rightarrow> WalLog \<Rightarrow> bool" where
  "wal_log_wf opts l \<longleftrightarrow> entries_ok_from opts (hs_current_term (wl_hard_state l)) (wl_entries l) 0 \<and>
     unat (wl_commit_index l) \<le> length (wl_entries l) \<and>
     (hs_current_term (wl_hard_state l) = 0 \<longrightarrow> hs_voted_for (wl_hard_state l) = None)"

section \<open>Staging\<close>

lemma vv_last_index_eq: "view_wf v \<Longrightarrow> vv_last_index v = of_nat (length (wl_entries (view_log v)))"
  by (simp add: vv_last_index_def view_log_def view_wf_def)

lemma unat_last_index: "view_wf v \<Longrightarrow> unat (vv_last_index v) = length (wl_entries (view_log v))"
  by (simp add: vv_last_index_eq view_wf_def)

lemma vv_last_term_eq:
  "view_wf v \<Longrightarrow> vv_last_term v = (if wl_entries (view_log v) = [] then 0 else ent_term (last (wl_entries (view_log v))))"
proof (cases "vv_suffix v = []")
  case True
  then show "view_wf v \<Longrightarrow> ?thesis" by (auto simp: vv_last_term_def view_wf_def view_log_def last_conv_nth)
qed (simp add: vv_last_term_def view_log_def)

lemma stage_entry_iff:
  assumes "view_wf v"
  shows "stage_entry opts e v = Inr v' \<longleftrightarrow> v' = v\<lparr>vv_suffix := vv_suffix v @ [e]\<rparr> \<and>
    entry_ok_at opts (hs_current_term (vv_hard_state v)) (wl_entries (view_log v) @ [e]) (length (wl_entries (view_log v)))"
proof -
  let ?n = "length (wl_entries (view_log v))"
  have len: "?n < 2 ^ 64 - 1" using assms by (simp add: view_wf_def)
  have index: "vv_last_index v + 1 = of_nat (Suc ?n)" by (simp add: vv_last_index_eq assms add.commute)
  have full: "vv_last_index v \<ge> wo_max_log_entries opts \<longleftrightarrow> \<not> ?n < unat (wo_max_log_entries opts)"
    by (simp add: word_le_nat_alt unat_last_index [OF assms] not_less)
  have first: "(1 :: u64) < of_nat (Suc ?n) \<longleftrightarrow> 0 < ?n"
    using len by (simp add: word_less_nat_alt del: of_nat_Suc)
  have prev: "0 < ?n \<Longrightarrow> vv_last_term v = ent_term ((wl_entries (view_log v) @ [e]) ! (?n - 1))"
    by (simp add: vv_last_term_eq [OF assms] nth_append last_conv_nth)
  show ?thesis
    unfolding stage_entry_def entry_ok_at_def index full
    using first prev
    by (auto simp: entry_legal_def command_legal_def not_less not_le split: option.splits if_splits simp del: of_nat_Suc)
qed

lemma entry_ok_at_append: "i < length xs \<Longrightarrow> entry_ok_at opts t (xs @ ys) i \<longleftrightarrow> entry_ok_at opts t xs i"
  by (cases i) (auto simp: entry_ok_at_def nth_append)

lemma entries_ok_from_Cons:
  "entries_ok_from opts t (xs @ e # es) (length xs) \<longleftrightarrow>
     entry_ok_at opts t (xs @ [e]) (length xs) \<and> entries_ok_from opts t ((xs @ [e]) @ es) (length (xs @ [e]))"
proof -
  have "entry_ok_at opts t (xs @ e # es) (length xs) \<longleftrightarrow> entry_ok_at opts t (xs @ [e]) (length xs)"
    using entry_ok_at_append [of "length xs" "xs @ [e]" opts t es] by simp
  then show ?thesis
    by (auto simp: entries_ok_from_def Suc_le_eq le_neq_implies_less) (metis le_neq_implies_less)
qed

lemma view_log_suffix [simp]:
  "wl_entries (view_log (v\<lparr>vv_suffix := vv_suffix v @ es\<rparr>)) = wl_entries (view_log v) @ es"
  by (simp add: view_log_def)

lemma log_bound: "unat (wo_max_log_entries opts) < 2 ^ 64"
  using unat_less_64 by simp

lemma stage_entries_iff:
  assumes "view_wf v" and "validate_options opts = Inr u"
  shows "stage_entries opts es v = Inr v' \<longleftrightarrow> v' = v\<lparr>vv_suffix := vv_suffix v @ es\<rparr> \<and>
    entries_ok_from opts (hs_current_term (vv_hard_state v)) (wl_entries (view_log v) @ es) (length (wl_entries (view_log v)))"
  using assms(1)
proof (induction es arbitrary: v)
  case Nil
  then show ?case by (auto simp: entries_ok_from_def)
next
  case (Cons e es)
  let ?v = "v\<lparr>vv_suffix := vv_suffix v @ [e]\<rparr>"
  have wf: "entry_ok_at opts t xs (length (wl_entries (view_log v))) \<Longrightarrow> view_wf ?v" for t xs
  proof -
    assume "entry_ok_at opts t xs (length (wl_entries (view_log v)))"
    then have "length (wl_entries (view_log v)) < unat (wo_max_log_entries opts)" by (simp add: entry_ok_at_def)
    moreover have "unat (wo_max_log_entries opts) \<le> 100000000"
      using assms(2) by (auto simp: validate_options_def kAbsoluteMaxLogEntries_def word_le_nat_alt not_less split: if_splits)
    ultimately show "view_wf ?v" using Cons.prems by (simp add: view_wf_def view_log_def)
  qed
  show ?case
    using Cons.IH [of ?v] wf
    by (auto simp: bind_res_eq_Inr stage_entry_iff [OF Cons.prems] entries_ok_from_Cons)
qed

lemma stage_hard_state_iff:
  "stage_hard_state hard v = Inr v' \<longleftrightarrow>
     (\<forall>hs. hard = Some hs \<longrightarrow> hard_state_follows (vv_hard_state v) hs) \<and>
     v' = v\<lparr>vv_hard_state := (case hard of None \<Rightarrow> vv_hard_state v | Some hs \<Rightarrow> hs)\<rparr>"
  by (auto simp: stage_hard_state_def hard_state_follows_def not_less split: option.splits if_splits)

lemma stage_truncate_view:
  assumes "view_wf v"
  shows "stage_truncate trunc v = Inr v' \<Longrightarrow>
     (\<forall>t. trunc = Some t \<longrightarrow> vv_commit_index v < t \<and> unat t \<le> Suc (length (wl_entries (view_log v)))) \<and>
     view_wf v' \<and> vv_base_entries v' = vv_base_entries v \<and>
     view_log v' = (view_log v)\<lparr>wl_entries := (case trunc of None \<Rightarrow> wl_entries (view_log v)
       | Some t \<Rightarrow> take (unat t - 1) (wl_entries (view_log v)))\<rparr>"
    and "(\<And>t. trunc = Some t \<Longrightarrow> vv_commit_index v < t \<and> unat t \<le> Suc (length (wl_entries (view_log v)))) \<Longrightarrow>
     \<exists>v'. stage_truncate trunc v = Inr v'"
proof -
  have sub: "unat (t - 1) = unat t - 1" if "t \<noteq> 0" for t :: u64 using that by (rule unat_minus_one)
  have len: "length (wl_entries (view_log v)) < 2 ^ 64 - 1" using assms by (simp add: view_wf_def)
  have beyond: "t > vv_last_index v + 1 \<longleftrightarrow> \<not> unat t \<le> Suc (length (wl_entries (view_log v)))" for t
  proof -
    have "vv_last_index v + 1 = of_nat (Suc (length (wl_entries (view_log v))))"
      by (simp add: vv_last_index_eq assms add.commute)
    then show ?thesis using len by (simp add: word_less_nat_alt not_le del: of_nat_Suc)
  qed
  show "stage_truncate trunc v = Inr v' \<Longrightarrow>
     (\<forall>t. trunc = Some t \<longrightarrow> vv_commit_index v < t \<and> unat t \<le> Suc (length (wl_entries (view_log v)))) \<and>
     view_wf v' \<and> vv_base_entries v' = vv_base_entries v \<and>
     view_log v' = (view_log v)\<lparr>wl_entries := (case trunc of None \<Rightarrow> wl_entries (view_log v)
       | Some t \<Rightarrow> take (unat t - 1) (wl_entries (view_log v)))\<rparr>"
    using assms
    by (auto simp: stage_truncate_def Let_def sub beyond view_wf_def view_log_def not_le min_def
        split: option.splits if_splits)
  show "(\<And>t. trunc = Some t \<Longrightarrow> vv_commit_index v < t \<and> unat t \<le> Suc (length (wl_entries (view_log v)))) \<Longrightarrow>
     \<exists>v'. stage_truncate trunc v = Inr v'"
    by (cases trunc) (auto simp: stage_truncate_def Let_def beyond not_le split: if_splits)
qed

lemma options_log_bound: "validate_options opts = Inr u \<Longrightarrow> unat (wo_max_log_entries opts) \<le> 100000000"
  by (auto simp: validate_options_def kAbsoluteMaxLogEntries_def word_le_nat_alt not_less split: if_splits)

lemma entries_ok_length:
  assumes "entries_ok_from opts t (xs @ es) (length xs)" and "validate_options opts = Inr u" and "length xs < 2 ^ 64 - 1"
  shows "length (xs @ es) < 2 ^ 64 - 1"
proof (cases "es = []")
  case False
  then have "entry_ok_at opts t (xs @ es) (length (xs @ es) - 1)"
    using assms(1) by (auto simp: entries_ok_from_def neq_Nil_conv)
  then have "length (xs @ es) - 1 < 100000000"
    using options_log_bound [OF assms(2)] by (simp add: entry_ok_at_def)
  then show ?thesis by simp
qed (use assms in simp)

lemma stage_iff:
  assumes wf: "view_wf v" and opts: "validate_options opts = Inr u"
  shows "stage opts b v = Inr v' \<Longrightarrow> batch_admissible opts b (view_log v) \<and> view_wf v' \<and>
      vv_base_entries v' = vv_base_entries v \<and> view_log v' = batch_effect b (view_log v)"
    and "batch_admissible opts b (view_log v) \<Longrightarrow> \<exists>v'. stage opts b v = Inr v'"
proof -
  let ?v1 = "v\<lparr>vv_hard_state := (case pb_hard_state b of None \<Rightarrow> vv_hard_state v | Some hs \<Rightarrow> hs)\<rparr>"
  let ?K = "kept_entries b (view_log v)" and ?T = "batch_term b (view_log v)"
  have wf1: "view_wf ?v1" using wf by (auto simp: view_wf_def view_log_def)
  have log1: "wl_entries (view_log ?v1) = wl_entries (view_log v)" "vv_commit_index ?v1 = wl_commit_index (view_log v)"
      "hs_current_term (vv_hard_state ?v1) = ?T"
    by (simp_all add: view_log_def split: option.split)
  have v2: "wl_entries (view_log v2) = ?K" "view_wf v2" "hs_current_term (vv_hard_state v2) = ?T"
      "vv_base_entries v2 = vv_base_entries v" "view_log v2 = (view_log ?v1)\<lparr>wl_entries := ?K\<rparr>"
      "vv_commit_index v2 = wl_commit_index (view_log v)"
    if "stage_truncate (pb_truncate_from b) ?v1 = Inr v2" for v2
  proof -
    note t = stage_truncate_view(1) [OF wf1 that]
    then show eq: "view_log v2 = (view_log ?v1)\<lparr>wl_entries := ?K\<rparr>"
      unfolding log1(1) kept_entries_def by blast
    from t show "view_wf v2" "vv_base_entries v2 = vv_base_entries v" by simp_all
    from eq show "wl_entries (view_log v2) = ?K" by simp
    from arg_cong [OF eq, of wl_hard_state] arg_cong [OF eq, of wl_commit_index]
    show "hs_current_term (vv_hard_state v2) = ?T" "vv_commit_index v2 = wl_commit_index (view_log v)"
      by (simp_all add: view_log_def split: option.split)
  qed
  have entries: "stage_entries opts (pb_entries b) v2 = Inr v3 \<longleftrightarrow> v3 = v2\<lparr>vv_suffix := vv_suffix v2 @ pb_entries b\<rparr> \<and>
      entries_ok_from opts ?T (?K @ pb_entries b) (length ?K)"
    if "stage_truncate (pb_truncate_from b) ?v1 = Inr v2" for v2 v3
    using stage_entries_iff [OF v2(2) [OF that] opts] v2(1,3) [OF that] by simp
  have wf3: "view_wf (v2\<lparr>vv_suffix := vv_suffix v2 @ pb_entries b\<rparr>)"
    if "stage_truncate (pb_truncate_from b) ?v1 = Inr v2" "entries_ok_from opts ?T (?K @ pb_entries b) (length ?K)" for v2
    using entries_ok_length [OF that(2) opts] v2(1,2) [OF that(1)] by (simp add: view_wf_def)
  have commit: "stage_commit c v3 = Inr v' \<longleftrightarrow>
      (\<forall>i. c = Some i \<longrightarrow> vv_commit_index v3 \<le> i \<and> unat i \<le> length (wl_entries (view_log v3))) \<and>
      v' = v3\<lparr>vv_commit_index := (case c of None \<Rightarrow> vv_commit_index v3 | Some i \<Rightarrow> i)\<rparr>" if "view_wf v3" for c v3 v'
    using unat_last_index [OF that]
    by (auto simp: stage_commit_def not_less word_le_nat_alt word_less_nat_alt split: option.splits if_splits)
  show "stage opts b v = Inr v' \<Longrightarrow> batch_admissible opts b (view_log v) \<and> view_wf v' \<and>
      vv_base_entries v' = vv_base_entries v \<and> view_log v' = batch_effect b (view_log v)"
  proof -
    assume "stage opts b v = Inr v'"
    then obtain v2 where s: "\<not> batch_empty b" "length (pb_entries b) \<le> unat (wo_max_entries_per_frame opts)"
        "\<forall>hs. pb_hard_state b = Some hs \<longrightarrow> hard_state_follows (vv_hard_state v) hs"
        "stage_truncate (pb_truncate_from b) ?v1 = Inr v2"
        "entries_ok_from opts ?T (?K @ pb_entries b) (length ?K)"
        "stage_commit (pb_commit_index b) (v2\<lparr>vv_suffix := vv_suffix v2 @ pb_entries b\<rparr>) = Inr v'"
      by (auto simp: stage_def bind_res_eq_Inr stage_hard_state_iff entries not_less split: if_splits)
    note c = s(6) [unfolded commit [OF wf3 [OF s(4,5)]]]
    have "view_wf v' \<and> vv_base_entries v' = vv_base_entries v \<and> view_log v' = batch_effect b (view_log v)"
      using c wf3 [OF s(4,5)] v2(4,5,6) [OF s(4)] v2(1) [OF s(4)]
      by (auto simp: view_wf_def view_log_def batch_effect_def split: option.splits)
    moreover have "\<forall>t. pb_truncate_from b = Some t \<longrightarrow>
        wl_commit_index (view_log v) < t \<and> unat t \<le> Suc (length (wl_entries (view_log v)))"
      using stage_truncate_view(1) [OF wf1 s(4)] unfolding log1 by blast
    moreover have "\<forall>i. pb_commit_index b = Some i \<longrightarrow>
        wl_commit_index (view_log v) \<le> i \<and> unat i \<le> length (?K @ pb_entries b)"
      using c v2(1,6) [OF s(4)] by simp
    moreover have "wl_hard_state (view_log v) = vv_hard_state v" by (simp add: view_log_def)
    ultimately have "batch_admissible opts b (view_log v)"
      using s(1-3,5) unfolding batch_admissible_def by metis
    moreover note \<open>view_wf v' \<and> _\<close>
    ultimately show ?thesis by simp
  qed
  show "batch_admissible opts b (view_log v) \<Longrightarrow> \<exists>v'. stage opts b v = Inr v'"
  proof -
    assume a: "batch_admissible opts b (view_log v)"
    then obtain v2 where t: "stage_truncate (pb_truncate_from b) ?v1 = Inr v2"
      using stage_truncate_view(2) [OF wf1, of "pb_truncate_from b"] by (auto simp: batch_admissible_def log1)
    have e: "entries_ok_from opts ?T (?K @ pb_entries b) (length ?K)" using a by (simp add: batch_admissible_def)
    have "\<exists>v'. stage_commit (pb_commit_index b) (v2\<lparr>vv_suffix := vv_suffix v2 @ pb_entries b\<rparr>) = Inr v'"
      using a v2(1,6) [OF t] unfolding commit [OF wf3 [OF t e]] by (auto simp: batch_admissible_def)
    then show "\<exists>v'. stage opts b v = Inr v'"
      using a t e
      by (auto simp: stage_def bind_res_eq_Inr stage_hard_state_iff entries [OF t] batch_admissible_def view_log_def)
  qed
qed

lemma entries_ok_mono: "entries_ok_from opts t es n \<Longrightarrow> t \<le> t' \<Longrightarrow> entries_ok_from opts t' es n"
  by (fastforce simp: entries_ok_from_def entry_ok_at_def)

lemma entries_ok_join:
  assumes "entries_ok_from opts t xs 0" and "entries_ok_from opts t (xs @ ys) (length xs)"
  shows "entries_ok_from opts t (xs @ ys) 0"
  unfolding entries_ok_from_def
proof (intro allI impI)
  fix i assume "0 \<le> i \<and> i < length (xs @ ys)"
  then show "entry_ok_at opts t (xs @ ys) i"
    using assms entry_ok_at_append [of i xs opts t ys] by (cases "i < length xs") (simp_all add: entries_ok_from_def)
qed

lemma entries_ok_take: "entries_ok_from opts t xs 0 \<Longrightarrow> entries_ok_from opts t (take n xs) 0"
  using entry_ok_at_append [of _ "take n xs" opts t "drop n xs"] by (auto simp: entries_ok_from_def)

lemma batch_effect_wf:
  assumes "wal_log_wf opts l" and "batch_admissible opts b l"
  shows "wal_log_wf opts (batch_effect b l)"
proof -
  have t: "hs_current_term (wl_hard_state l) \<le> batch_term b l"
    using assms(2) by (auto simp: batch_admissible_def hard_state_follows_def split: option.split)
  have "entries_ok_from opts (batch_term b l) (kept_entries b l) 0"
    using entries_ok_mono [OF _ t, of opts _ 0] assms(1)
    by (auto simp: wal_log_wf_def kept_entries_def intro: entries_ok_take split: option.split)
  with assms(2) have "entries_ok_from opts (batch_term b l) (kept_entries b l @ pb_entries b) 0"
    by (auto simp: batch_admissible_def intro: entries_ok_join)
  moreover have "unat (wl_commit_index l) \<le> length (kept_entries b l)"
    using assms by (auto simp: wal_log_wf_def batch_admissible_def kept_entries_def word_less_nat_alt split: option.split)
  ultimately show ?thesis
    using assms by (auto simp: wal_log_wf_def batch_effect_def batch_admissible_def hard_state_follows_def split: option.splits)
qed

lemma admissible_legal:
  assumes "batch_admissible opts b l"
  shows "batch_legal opts b"
proof -
  have "entry_legal opts e" if "e \<in> set (pb_entries b)" for e
  proof -
    obtain i where i: "i < length (pb_entries b)" "e = pb_entries b ! i" using \<open>e \<in> set _\<close> by (auto simp: in_set_conv_nth)
    with assms have "entry_ok_at opts (batch_term b l) (kept_entries b l @ pb_entries b) (length (kept_entries b l) + i)"
      by (auto simp: batch_admissible_def entries_ok_from_def)
    with i show ?thesis by (simp add: entry_ok_at_def nth_append)
  qed
  with assms show ?thesis by (simp add: batch_legal_def batch_admissible_def)
qed

section \<open>Applying a batch to a state\<close>

lemma new_view_wf: "length (ws_entries s) < 2 ^ 64 - 1 \<Longrightarrow> view_wf (new_view s)"
  by (simp add: view_wf_def view_log_def new_view_def)

lemma view_log_new [simp]: "view_log (new_view s) = wal_log s"
  by (simp add: view_log_def new_view_def wal_log_def)

lemma wal_log_materialize: "vv_base_entries v = ws_entries s \<Longrightarrow> wal_log (materialize v s) = view_log v"
  by (simp add: wal_log_def materialize_def view_log_def)

lemma wal_log_frames [simp]:
  "wal_log (s\<lparr>ws_last_frame_sequence := q\<rparr>) = wal_log s" "wal_log (s\<lparr>ws_file_bytes := n\<rparr>) = wal_log s"
  "wal_log (s\<lparr>ws_durable_frame_sequence := q\<rparr>) = wal_log s" "wal_log (s\<lparr>ws_repaired_incomplete_tail := t\<rparr>) = wal_log s"
  by (simp_all add: wal_log_def)

lemma wal_log_wf_length:
  assumes "wal_log_wf opts (wal_log s)" and "validate_options opts = Inr u"
  shows "length (ws_entries s) < 2 ^ 64 - 1"
  using entries_ok_length [of opts _ "[]" "ws_entries s", OF _ assms(2)] assms(1)
  by (auto simp: wal_log_wf_def wal_log_def)

end
