(* ===== verification/WalScan.thy ===== *)
theory WalScan
  imports WalView
begin

text \<open>
  Recovery. One round of the scan over a memory image, its inversion, and what follows by
  induction over the image: the scan continues over appended frames, reports a torn frame as an
  incomplete tail, rejects an image with one changed byte, and keeps the logical log well formed.
\<close>

section \<open>One round of the scan\<close>

abbreviation scan_mem :: "bytes \<Rightarrow> WalOptions \<Rightarrow> WalScanResult \<Rightarrow> u64 \<Rightarrow> WalScanResult WalResult" where
  "scan_mem bs opts \<equiv> scan_frames (read_memory bs) (of_nat (length bs)) opts"

definition scan_advance :: "ParsedFrameHeader \<Rightarrow> WalState \<Rightarrow> u64 \<Rightarrow> WalScanResult \<Rightarrow> WalScanResult" where
  "scan_advance h s offset r = r\<lparr>wc_state := s\<lparr>ws_last_frame_sequence := fh_sequence h, ws_file_bytes := offset + fh_frame_size h\<rparr>,
     wc_valid_bytes := offset + fh_frame_size h\<rparr>"

definition torn :: "WalScanResult \<Rightarrow> WalScanResult" where
  "torn r = r\<lparr>wc_has_incomplete_tail := True\<rparr>"

definition replay_frame :: "WalOptions \<Rightarrow> bytes \<Rightarrow> ParsedFrameHeader \<Rightarrow> WalState \<Rightarrow> WalState WalResult" where
  "replay_frame opts bs h s =
     bind_res (validate_complete_frame bs h opts) (\<lambda>b.
     bind_res (stage opts b (new_view s)) (\<lambda>v. Inr (materialize v s)))"

lemma read_memory_eq: "unat offset + n \<le> length bs \<Longrightarrow> read_memory bs offset n = Inr (take n (drop (unat offset) bs))"
  by (simp add: read_memory_def)

lemma offset_less:
  assumes "length bs < 2 ^ 64" and "unat (offset :: u64) \<le> length bs"
  shows "offset < of_nat (length bs) \<longleftrightarrow> drop (unat offset) bs \<noteq> []"
    "unat (of_nat (length bs) - offset) = length (drop (unat offset) bs)"
proof -
  have len: "unat (of_nat (length bs) :: u64) = length bs" using assms(1) by simp
  show "offset < of_nat (length bs) \<longleftrightarrow> drop (unat offset) bs \<noteq> []" by (simp add: word_less_nat_alt len not_le)
  have "offset \<le> of_nat (length bs)" using assms(2) by (simp add: word_le_nat_alt len)
  then show "unat (of_nat (length bs) - offset) = length (drop (unat offset) bs)" by (simp add: unat_sub len)
qed

lemma scan_mem_unfold:
  assumes "length bs < 2 ^ 64" and "unat offset \<le> length bs" and rest: "drop (unat offset) bs = rest"
  shows "scan_mem bs opts r offset =
    (if rest = [] then Inr r
     else if length rest < kFrameHeaderBytes then Inr (torn r)
     else bind_res (rethrow_at offset (parse_frame_header (take kFrameHeaderBytes rest) opts)) (\<lambda>h.
       if fh_sequence h \<noteq> ws_last_frame_sequence (wc_state r) + 1
       then Inl (WE_invariant_violation, with_offset ''WAL frame sequence is not consecutive'' offset)
       else if unat (fh_frame_size h) > length rest then Inr (torn r)
       else bind_res (rethrow_at offset (replay_frame opts (take (unat (fh_frame_size h)) rest) h (wc_state r)))
         (\<lambda>s. scan_mem bs opts (scan_advance h s offset r) (offset + fh_frame_size h))))"
proof -
  note o = offset_less [OF assms(1,2), unfolded rest]
  have len: "length rest = length bs - unat offset" using rest by auto
  have read: "n \<le> length rest \<Longrightarrow> read_memory bs offset n = Inr (take n rest)" for n
    using read_memory_eq [of offset n bs] assms(2) len rest by simp
  have big: "fh_frame_size h > of_nat (length bs) - offset \<longleftrightarrow> unat (fh_frame_size h) > length rest" for h
    by (simp add: word_less_nat_alt o(2))
  have bind: "(case m of Inl e \<Rightarrow> Inl e | Inr x \<Rightarrow> f x) = bind_res m f"
    for m :: "ParsedFrameHeader WalResult" and f :: "ParsedFrameHeader \<Rightarrow> WalScanResult WalResult"
    by (simp add: bind_res_def)
  show ?thesis
    by (subst scan_frames.simps)
       (simp add: o Let_def read big torn_def scan_advance_def replay_frame_def bind not_less cong: if_cong)
qed

section \<open>Frames of an image\<close>

definition next_frame :: "WalOptions \<Rightarrow> WalState \<Rightarrow> ParsedFrameHeader \<Rightarrow> PersistBatch \<Rightarrow> bool" where
  "next_frame opts s h b \<longleftrightarrow> header_ok opts h \<and> fh_sequence h = ws_last_frame_sequence s + 1 \<and>
     length (payload_image b) = unat (fh_payload_size h) \<and> batch_admissible opts b (wal_log s)"

definition applied :: "PersistBatch \<Rightarrow> WalState \<Rightarrow> WalState" where
  "applied b s = s\<lparr>ws_hard_state := wl_hard_state (batch_effect b (wal_log s)),
     ws_entries := wl_entries (batch_effect b (wal_log s)),
     ws_commit_index := wl_commit_index (batch_effect b (wal_log s))\<rparr>"

lemma wal_log_applied [simp]: "wal_log (applied b s) = batch_effect b (wal_log s)"
  by (simp add: applied_def wal_log_def)

lemma stage_new_iff:
  assumes "validate_options opts = Inr u" and "wal_log_wf opts (wal_log s)"
  shows "(\<exists>v. stage opts b (new_view s) = Inr v \<and> materialize v s = s') \<longleftrightarrow>
    batch_admissible opts b (wal_log s) \<and> s' = applied b s"
proof -
  note wf = new_view_wf [OF wal_log_wf_length [OF assms(2,1)]]
  have eq: "materialize v s = applied b s" if "stage opts b (new_view s) = Inr v" for v
  proof -
    note st = stage_iff(1) [OF wf assms(1) that]
    moreover have "vv_base_entries (new_view s) = ws_entries s" by (simp add: new_view_def)
    ultimately have log: "wal_log (materialize v s) = batch_effect b (wal_log s)"
      by (simp add: wal_log_materialize)
    show ?thesis unfolding applied_def log [symmetric] by (simp add: materialize_def wal_log_def)
  qed
  show ?thesis
    using stage_iff [OF wf assms(1), of b] eq by (auto simp: view_log_new)
qed

lemma replay_frame_iff:
  assumes "validate_options opts = Inr u" and "wal_log_wf opts (wal_log s)" and "header_ok opts h"
    and "take kFrameHeaderBytes bs = frame_header_image h" and "length bs = unat (fh_frame_size h)"
  shows "replay_frame opts bs h s = Inr s' \<longleftrightarrow>
    (\<exists>b. length (payload_image b) = unat (fh_payload_size h) \<and> bs = frame_image h (payload_image b) \<and>
       batch_admissible opts b (wal_log s) \<and> s' = applied b s)"
proof -
  have "replay_frame opts bs h s = Inr s' \<longleftrightarrow>
      (\<exists>b. (batch_legal opts b \<and> length (payload_image b) = unat (fh_payload_size h) \<and> bs = frame_image h (payload_image b)) \<and>
        (\<exists>v. stage opts b (new_view s) = Inr v \<and> materialize v s = s'))"
    unfolding replay_frame_def bind_res_eq_Inr validate_complete_frame_iff [OF assms(3,1,4,5)] by simp
  then show ?thesis unfolding stage_new_iff [OF assms(1,2)] using admissible_legal by blast
qed

lemma frame_image_take [simp]:
  "take kFrameHeaderBytes (frame_image h p @ ys) = frame_header_image h"
  "take kFrameHeaderBytes (frame_image h p) = frame_header_image h"
  by (simp_all add: frame_image_def seal_def wal_sizes)

lemma header_parses:
  "header_ok opts h \<Longrightarrow> parse_frame_header (frame_header_image h) opts = Inr h"
  by (simp add: parse_frame_header_iff wal_sizes)

lemma scan_next_frame:
  assumes "validate_options opts = Inr u" and "length bs < 2 ^ 64" and "unat offset \<le> length bs"
    and "wal_log_wf opts (wal_log (wc_state r))" and "next_frame opts (wc_state r) h b"
    and "drop (unat offset) bs = frame_image h (payload_image b) @ ys"
  shows "scan_mem bs opts r offset =
    scan_mem bs opts (scan_advance h (applied b (wc_state r)) offset r) (offset + fh_frame_size h)"
proof -
  have h: "header_ok opts h" "length (payload_image b) = unat (fh_payload_size h)"
      "batch_admissible opts b (wal_log (wc_state r))" "fh_sequence h = ws_last_frame_sequence (wc_state r) + 1"
    using assms(5) by (simp_all add: next_frame_def)
  have len: "length (frame_image h (payload_image b)) = unat (fh_frame_size h)"
    using header_ok_sizes [OF h(1) assms(1)] h(2) by simp
  have "replay_frame opts (frame_image h (payload_image b)) h (wc_state r) = Inr (applied b (wc_state r))"
    using replay_frame_iff [OF assms(1,4) h(1) frame_image_take(2) len] h by auto
  moreover have "take (unat (fh_frame_size h)) (frame_image h (payload_image b) @ ys) = frame_image h (payload_image b)"
    using len by simp
  moreover have "\<not> length (frame_image h (payload_image b) @ ys) < kFrameHeaderBytes"
      "frame_image h (payload_image b) \<noteq> []" "\<not> length (frame_image h (payload_image b) @ ys) < unat (fh_frame_size h)"
    using len by (auto simp: wal_sizes dest: arg_cong [of _ _ length])
  ultimately show ?thesis
    unfolding scan_mem_unfold [OF assms(2,3,6)] frame_image_take header_parses [OF h(1)]
    by (simp add: rethrow_at_def h(4))
qed

lemma scan_cases:
  assumes "validate_options opts = Inr u" and "length bs < 2 ^ 64" and "unat offset \<le> length bs"
    and "wal_log_wf opts (wal_log (wc_state r))" and "scan_mem bs opts r offset = Inr r'"
  obtains (finished) "drop (unat offset) bs = []" "r' = r"
  | (torn) "r' = torn r"
  | (frame) h b ys where "next_frame opts (wc_state r) h b"
      "drop (unat offset) bs = frame_image h (payload_image b) @ ys"
      "scan_mem bs opts (scan_advance h (applied b (wc_state r)) offset r) (offset + fh_frame_size h) = Inr r'"
proof -
  define rest where "rest = drop (unat offset) bs"
  note s = assms(5) [unfolded scan_mem_unfold [OF assms(2,3) rest_def [symmetric]]]
  show ?thesis
  proof (cases "rest = [] \<or> length rest < kFrameHeaderBytes")
    case True
    with s finished torn show ?thesis by (auto simp: rest_def split: if_splits)
  next
    case False
    with s obtain h where h: "parse_frame_header (take kFrameHeaderBytes rest) opts = Inr h"
        "fh_sequence h = ws_last_frame_sequence (wc_state r) + 1"
      and cont: "if unat (fh_frame_size h) > length rest then r' = torn r
        else \<exists>s. replay_frame opts (take (unat (fh_frame_size h)) rest) h (wc_state r) = Inr s \<and>
          scan_mem bs opts (scan_advance h s offset r) (offset + fh_frame_size h) = Inr r'"
      by (auto simp: bind_res_eq_Inr split: if_splits)
    have ok: "header_ok opts h" "take kFrameHeaderBytes rest = frame_header_image h"
      using h(1) False by (simp_all add: parse_frame_header_iff)
    show ?thesis
    proof (cases "unat (fh_frame_size h) > length rest")
      case True
      with cont torn show ?thesis by simp
    next
      case False
      define fr where "fr = take (unat (fh_frame_size h)) rest"
      have size: "kFrameHeaderBytes \<le> unat (fh_frame_size h)"
        using header_ok_sizes [OF ok(1) assms(1)] by (simp add: wal_sizes)
      then have "take kFrameHeaderBytes fr = frame_header_image h" using ok(2) by (simp add: fr_def min.absorb1)
      moreover have "length fr = unat (fh_frame_size h)" using False by (simp add: fr_def)
      moreover obtain s where "replay_frame opts fr h (wc_state r) = Inr s"
          "scan_mem bs opts (scan_advance h s offset r) (offset + fh_frame_size h) = Inr r'"
        using cont False by (auto simp: fr_def)
      ultimately obtain b where b: "length (payload_image b) = unat (fh_payload_size h)"
          "fr = frame_image h (payload_image b)" "batch_admissible opts b (wal_log (wc_state r))"
          "scan_mem bs opts (scan_advance h (applied b (wc_state r)) offset r) (offset + fh_frame_size h) = Inr r'"
        using replay_frame_iff [OF assms(1,4) ok(1)] by auto
      then have "next_frame opts (wc_state r) h b" using ok(1) h(2) by (simp add: next_frame_def)
      moreover have "drop (unat offset) bs = frame_image h (payload_image b) @ drop (unat (fh_frame_size h)) rest"
        using b(2) append_take_drop_id [of "unat (fh_frame_size h)" rest] by (simp add: fr_def rest_def)
      ultimately show ?thesis using frame b(4) by blast
    qed
  qed
qed

section \<open>Induction over an image\<close>

definition scan_inv :: "WalOptions \<Rightarrow> WalScanResult \<Rightarrow> u64 \<Rightarrow> bool" where
  "scan_inv opts r offset \<longleftrightarrow> wal_log_wf opts (wal_log (wc_state r)) \<and> wc_valid_bytes r = offset \<and>
     ws_file_bytes (wc_state r) = offset \<and> \<not> wc_has_incomplete_tail r \<and>
     ws_durable_frame_sequence (wc_state r) = 0 \<and> \<not> ws_repaired_incomplete_tail (wc_state r) \<and>
     80 * unat (ws_last_frame_sequence (wc_state r)) \<le> unat offset"

lemma scan_inv_wf: "scan_inv opts r offset \<Longrightarrow> wal_log_wf opts (wal_log (wc_state r))"
  by (simp add: scan_inv_def)

lemma frame_size_eq:
  assumes "validate_options opts = Inr u" and "next_frame opts s h b"
  shows "unat (fh_frame_size h) = length (frame_image h (payload_image b))" "80 \<le> unat (fh_frame_size h)"
  using header_ok_sizes [of opts h] payload_image_nonempty [of b] assms by (simp_all add: next_frame_def)

lemma next_offset:
  assumes "validate_options opts = Inr u" and "length bs < 2 ^ 64" and "unat offset \<le> length bs"
    and "next_frame opts s h b" and "drop (unat offset) bs = frame_image h (payload_image b) @ ys"
  shows "unat (offset + fh_frame_size h) = unat offset + unat (fh_frame_size h)"
    "unat (offset + fh_frame_size h) \<le> length bs" "drop (unat (offset + fh_frame_size h)) bs = ys"
    "length bs - unat (offset + fh_frame_size h) < length bs - unat offset"
proof -
  note size = frame_size_eq [OF assms(1,4)]
  have le: "unat offset + unat (fh_frame_size h) \<le> length bs"
    using arg_cong [OF assms(5), of length] size assms(3) by simp
  then show sum: "unat (offset + fh_frame_size h) = unat offset + unat (fh_frame_size h)"
    using assms(2) by (intro unat_add_lem [THEN iffD1]) simp
  show "unat (offset + fh_frame_size h) \<le> length bs" using le sum by simp
  show "drop (unat (offset + fh_frame_size h)) bs = ys"
    using size(1) arg_cong [OF assms(5), of "drop (unat (fh_frame_size h))"] by (simp add: sum add.commute)
  show "length bs - unat (offset + fh_frame_size h) < length bs - unat offset" using size(2) le sum by simp
qed

lemma scan_inv_next:
  assumes "validate_options opts = Inr u" and "scan_inv opts r offset" and "next_frame opts (wc_state r) h b"
    and "unat (offset + fh_frame_size h) = unat offset + unat (fh_frame_size h)"
  shows "scan_inv opts (scan_advance h (applied b (wc_state r)) offset r) (offset + fh_frame_size h)"
proof -
  let ?q = "ws_last_frame_sequence (wc_state r)"
  have "80 * unat ?q \<le> unat offset" using assms(2) by (simp add: scan_inv_def)
  moreover have "unat offset < 18446744073709551616" by (rule unat_less_64)
  ultimately have "unat ?q < 18446744073709551615" by linarith
  then have "unat (?q + 1) = Suc (unat ?q)" by (intro unat_succ64) (auto simp: unsigned_minus_1_eq_mask mask_eq_exp_minus_1)
  moreover have "fh_sequence h = ?q + 1" "batch_admissible opts b (wal_log (wc_state r))"
    using assms(3) by (simp_all add: next_frame_def)
  ultimately show ?thesis
    using assms(2,4) frame_size_eq(2) [OF assms(1,3)] batch_effect_wf [OF scan_inv_wf [OF assms(2)]]
    by (simp add: scan_inv_def scan_advance_def) (simp add: applied_def)
qed

lemma scan_extend:
  assumes opts: "validate_options opts = Inr u" and len: "length (bs @ ys) < 2 ^ 64"
  shows "unat offset \<le> length bs \<Longrightarrow> scan_inv opts r offset \<Longrightarrow> scan_mem bs opts r offset = Inr r' \<Longrightarrow>
    \<not> wc_has_incomplete_tail r' \<Longrightarrow>
    scan_mem (bs @ ys) opts r offset = scan_mem (bs @ ys) opts r' (of_nat (length bs)) \<and> scan_inv opts r' (of_nat (length bs))"
proof (induction "length bs - unat offset" arbitrary: r offset rule: less_induct)
  case less
  have bs: "length bs < 2 ^ 64" using len by simp
  show ?case
  proof (rule scan_cases [OF opts bs less.prems(1) scan_inv_wf [OF less.prems(2)] less.prems(3)])
    assume "drop (unat offset) bs = []" "r' = r"
    moreover from this less.prems(1) have "unat offset = length bs" by simp
    then have "of_nat (unat offset) = (of_nat (length bs) :: u64)" by simp
    then have "offset = of_nat (length bs)" by simp
    ultimately show ?thesis using less.prems(2) by simp
  next
    assume "r' = torn r"
    with less.prems(4) show ?thesis by (simp add: torn_def)
  next
    fix h b zs
    assume n: "next_frame opts (wc_state r) h b" and d: "drop (unat offset) bs = frame_image h (payload_image b) @ zs"
      and c: "scan_mem bs opts (scan_advance h (applied b (wc_state r)) offset r) (offset + fh_frame_size h) = Inr r'"
    note o = next_offset [OF opts bs less.prems(1) n d]
    have "drop (unat offset) (bs @ ys) = frame_image h (payload_image b) @ zs @ ys" using d less.prems(1) by simp
    note step = scan_next_frame [OF opts len _ scan_inv_wf [OF less.prems(2)] n this]
    from less.hyps [OF o(4,2) scan_inv_next [OF opts less.prems(2) n o(1)] c less.prems(4)] step less.prems(1)
    show ?thesis by simp
  qed
qed

lemma scan_keeps_wf:
  assumes opts: "validate_options opts = Inr u" and len: "length bs < 2 ^ 64"
  shows "unat offset \<le> length bs \<Longrightarrow> scan_inv opts r offset \<Longrightarrow> scan_mem bs opts r offset = Inr r' \<Longrightarrow>
    wal_log_wf opts (wal_log (wc_state r'))"
proof (induction "length bs - unat offset" arbitrary: r offset rule: less_induct)
  case less
  show ?case
  proof (rule scan_cases [OF opts len less.prems(1) scan_inv_wf [OF less.prems(2)] less.prems(3)])
    fix h b zs
    assume n: "next_frame opts (wc_state r) h b" and d: "drop (unat offset) bs = frame_image h (payload_image b) @ zs"
      and c: "scan_mem bs opts (scan_advance h (applied b (wc_state r)) offset r) (offset + fh_frame_size h) = Inr r'"
    note o = next_offset [OF opts len less.prems(1) n d]
    from less.hyps [OF o(4,2) scan_inv_next [OF opts less.prems(2) n o(1)] c] show ?thesis .
  qed (use scan_inv_wf [OF less.prems(2)] in \<open>simp_all add: torn_def\<close>)
qed

text \<open>A frame that is only partly there.\<close>

lemma scan_torn:
  assumes "validate_options opts = Inr u" and "length bs < 2 ^ 64" and "unat offset \<le> length bs"
    and "next_frame opts (wc_state r) h b" and "drop (unat offset) bs = take n (frame_image h (payload_image b))"
    and "0 < n" and "n < length (frame_image h (payload_image b))"
  shows "scan_mem bs opts r offset = Inr (torn r)"
proof -
  let ?f = "frame_image h (payload_image b)"
  have h: "header_ok opts h" "fh_sequence h = ws_last_frame_sequence (wc_state r) + 1"
    using assms(4) by (simp_all add: next_frame_def)
  have rest: "take n ?f \<noteq> []" "length (take n ?f) = n" using assms(6,7) by (auto dest: arg_cong [of _ _ length])
  show ?thesis
  proof (cases "n < kFrameHeaderBytes")
    case True
    then show ?thesis unfolding scan_mem_unfold [OF assms(2,3,5)] using rest by simp
  next
    case False
    then have "take kFrameHeaderBytes (take n ?f) = frame_header_image h" by (simp add: min.absorb1)
    moreover have "length (take n ?f) < unat (fh_frame_size h)" using frame_size_eq(1) [OF assms(1,4)] assms(7) rest by simp
    ultimately show ?thesis
      unfolding scan_mem_unfold [OF assms(2,3,5)] using False rest h
      by (simp add: header_parses rethrow_at_def del: length_take)
  qed
qed

text \<open>A frame with one changed byte is rejected, whether in its header or after it.\<close>

lemma frame_sealed:
  "is_sealed 40 (le_enc 4 kFrameHeaderTag) (frame_header_image h)"
  "length p = n \<Longrightarrow> is_sealed (48 + n) (frame_tail h) (frame_image h p)"
  by (simp add: frame_header_image_def is_sealed_seal) (simp add: frame_image_def is_sealed_seal)

lemma scan_changed_frame:
  assumes opts: "validate_options opts = Inr u" and len: "length bs < 2 ^ 64" and off: "unat offset \<le> length bs"
    and inv: "scan_inv opts r offset" and n: "next_frame opts (wc_state r) h b"
    and rest: "drop (unat offset) bs = (frame_image h (payload_image b))[j := x] @ zs"
    and j: "j < length (frame_image h (payload_image b))" and x: "x \<noteq> frame_image h (payload_image b) ! j"
  shows "\<exists>e. scan_mem bs opts r offset = Inl e"
proof -
  let ?f = "frame_image h (payload_image b)"
  have h: "header_ok opts h" "fh_sequence h = ws_last_frame_sequence (wc_state r) + 1"
      "length (payload_image b) = unat (fh_payload_size h)"
    using n by (simp_all add: next_frame_def)
  note size = frame_size_eq [OF opts n]
  have long: "?f[j := x] @ zs \<noteq> []" "\<not> length (?f[j := x] @ zs) < kFrameHeaderBytes"
    using j by (auto simp: wal_sizes dest: arg_cong [of _ _ length])
  have head: "take kFrameHeaderBytes (?f[j := x] @ zs) = (frame_header_image h)[j := x]"
    using frame_image_take(2) [of h "payload_image b"] by (simp add: take_update_swap wal_sizes)
  show ?thesis
  proof (cases "j < kFrameHeaderBytes")
    case True
    then have "x \<noteq> frame_header_image h ! j" using x frame_image_take(2) [of h "payload_image b"] by (metis nth_take)
    then have "\<not> is_sealed 40 (le_enc 4 kFrameHeaderTag) ((frame_header_image h)[j := x])"
      using sealed_one_byte [OF frame_sealed(1)] True by (simp add: wal_sizes)
    then have "\<nexists>h'. parse_frame_header ((frame_header_image h)[j := x]) opts = Inr h'"
      using frame_sealed(1) by (auto simp: parse_frame_header_iff wal_sizes)
    then have "\<exists>e. rethrow_at offset (parse_frame_header ((frame_header_image h)[j := x]) opts) = Inl e"
      by (cases "parse_frame_header ((frame_header_image h)[j := x]) opts") (auto simp: rethrow_at_def)
    then show ?thesis unfolding scan_mem_unfold [OF len off rest] head using long by auto
  next
    case False
    then have same: "(frame_header_image h)[j := x] = frame_header_image h"
      by (simp add: wal_sizes list_update_beyond)
    have fr: "take (unat (fh_frame_size h)) (?f[j := x] @ zs) = ?f[j := x]" using size(1) by simp
    have "\<not> is_sealed (48 + unat (fh_payload_size h)) (frame_tail h) (?f[j := x])"
      using sealed_one_byte [OF frame_sealed(2) [OF h(3)] j x] .
    then have no: "\<nexists>s. replay_frame opts (?f[j := x]) h (wc_state r) = Inr s"
      using replay_frame_iff [OF opts scan_inv_wf [OF inv] h(1), of "?f[j := x]"] head same size(1) frame_sealed(2)
      by (auto simp: wal_sizes take_update_swap)
    then have "\<exists>e. rethrow_at offset (replay_frame opts (?f[j := x]) h (wc_state r)) = Inl e"
      by (cases "replay_frame opts (?f[j := x]) h (wc_state r)") (auto simp: rethrow_at_def)
    then show ?thesis
      unfolding scan_mem_unfold [OF len off rest] head same header_parses [OF h(1)] fr using long h(2) size(1)
      by (auto simp: rethrow_at_def)
  qed
qed

lemma scan_changed:
  assumes opts: "validate_options opts = Inr u" and len: "length bs < 2 ^ 64" and i: "i < length bs" "x \<noteq> bs ! i"
  shows "unat offset \<le> i \<Longrightarrow> scan_inv opts r offset \<Longrightarrow> scan_mem bs opts r offset = Inr r' \<Longrightarrow>
    \<not> wc_has_incomplete_tail r' \<Longrightarrow> \<exists>e. scan_mem (bs[i := x]) opts r offset = Inl e"
proof (induction "length bs - unat offset" arbitrary: r offset rule: less_induct)
  case less
  have off: "unat offset \<le> length bs" using less.prems(1) i by simp
  have len': "length (bs[i := x]) < 2 ^ 64" "unat offset \<le> length (bs[i := x])" using len off by simp_all
  show ?case
  proof (rule scan_cases [OF opts len off scan_inv_wf [OF less.prems(2)] less.prems(3)])
    assume "drop (unat offset) bs = []" then show ?thesis using less.prems(1) i by simp
  next
    assume "r' = torn r" then show ?thesis using less.prems(4) by (simp add: torn_def)
  next
    fix h b zs
    assume n: "next_frame opts (wc_state r) h b" and d: "drop (unat offset) bs = frame_image h (payload_image b) @ zs"
      and c: "scan_mem bs opts (scan_advance h (applied b (wc_state r)) offset r) (offset + fh_frame_size h) = Inr r'"
    let ?f = "frame_image h (payload_image b)" and ?j = "i - unat offset"
    note o = next_offset [OF opts len off n d] and size = frame_size_eq(1) [OF opts n]
    have d': "drop (unat offset) (bs[i := x]) = (?f @ zs)[?j := x]"
      using d less.prems(1) by (simp add: drop_update_swap)
    have at: "bs ! i = (?f @ zs) ! ?j" using d less.prems(1) i by (metis le_add_diff_inverse nth_drop off)
    show ?thesis
    proof (cases "?j < length ?f")
      case True
      then have "drop (unat offset) (bs[i := x]) = ?f[?j := x] @ zs" using d' by (simp add: list_update_append1)
      moreover have "x \<noteq> ?f ! ?j" using True at i(2) by (simp add: nth_append)
      ultimately show ?thesis using scan_changed_frame [OF opts len' less.prems(2) n _ True] by blast
    next
      case False
      then have "drop (unat offset) (bs[i := x]) = ?f @ zs[?j - length ?f := x]"
        using d' by (simp add: list_update_append)
      note step = scan_next_frame [OF opts len' scan_inv_wf [OF less.prems(2)] n this]
      have "unat (offset + fh_frame_size h) \<le> i" using False o(1) size less.prems(1) by simp
      from less.hyps [OF o(4) this scan_inv_next [OF opts less.prems(2) n o(1)] c less.prems(4)] step
      show ?thesis by simp
    qed
  qed
qed

section \<open>Whole images\<close>

definition scan_start :: WalScanResult where
  "scan_start = \<lparr>wc_state = initial_wal_state\<lparr>ws_file_bytes := 48\<rparr>, wc_valid_bytes = 48, wc_has_incomplete_tail = False\<rparr>"

definition recovered :: "WalScanResult \<Rightarrow> WalScanResult" where
  "recovered r = r\<lparr>wc_state := (wc_state r)\<lparr>ws_durable_frame_sequence := ws_last_frame_sequence (wc_state r),
     ws_repaired_incomplete_tail := wc_has_incomplete_tail r\<rparr>\<rparr>"

lemma scan_start_inv: "scan_inv opts scan_start 48"
  by (simp add: scan_inv_def scan_start_def initial_wal_state_def wal_log_def wal_log_wf_def entries_ok_from_def
      initial_hard_state_def)

lemma scan_wal_bytes_iff:
  assumes "length bs < 2 ^ 64"
  shows "scan_wal_bytes bs i opts = Inr r \<longleftrightarrow> validate_options opts = Inr () \<and> 48 \<le> length bs \<and>
    take 48 bs = file_header_image i \<and> (\<exists>r0. scan_mem bs opts scan_start 48 = Inr r0 \<and> r = recovered r0)"
proof (cases "48 \<le> length bs")
  case True
  then have "read_memory bs 0 kFileHeaderBytes = Inr (take 48 bs)" by (simp add: read_memory_def wal_sizes)
  with True assms show ?thesis
    by (auto simp: scan_wal_bytes_def scan_source_def bind_res_eq_Inr wal_sizes validate_file_header_iff Let_def
        scan_start_def recovered_def)
next
  case False
  with assms show ?thesis by (auto simp: scan_wal_bytes_def scan_source_def bind_res_eq_Inr wal_sizes)
qed

lemma scan_wal_bytes_errors: "(\<nexists>r. scan_wal_bytes bs i opts = Inr r) \<Longrightarrow> \<exists>e. scan_wal_bytes bs i opts = Inl e"
  by (cases "scan_wal_bytes bs i opts") auto

end
