(* ===== verification/WalImage.thy ===== *)
theory WalImage
  imports WalScan "HOL-Library.Code_Target_Nat"
begin

text \<open>
  Images of the write-ahead log: what a sequence of \<^verbatim>\<open>encode_wal_frame\<close> calls writes after the file
  header, and how the recovery scan runs over such an image, over a cut of it, and back to the batches.
  The section on a small image fixes the two-frame file the witnesses use.
\<close>

section \<open>Writing an image\<close>

text \<open>A file header and then one frame per batch, each encoded against the state before it.\<close>

definition empty_wal_state :: WalState where
  "empty_wal_state = initial_wal_state\<lparr>ws_file_bytes := of_nat kFileHeaderBytes\<rparr>"

fun write_frames :: "WalOptions \<Rightarrow> PersistBatch list \<Rightarrow> bytes \<times> WalState \<Rightarrow> (bytes \<times> WalState) WalResult" where
  "write_frames opts [] x = Inr x"
| "write_frames opts (b # bs) x =
     bind_res (encode_wal_frame (snd x) b opts) (\<lambda>f. write_frames opts bs (fst x @ wf_bytes f, wf_state_after f))"

definition write_image :: "WalIdentity \<Rightarrow> WalOptions \<Rightarrow> PersistBatch list \<Rightarrow> (bytes \<times> WalState) WalResult" where
  "write_image i opts batches =
     bind_res (validate_options opts) (\<lambda>_.
     bind_res (encode_wal_file_header i) (\<lambda>header. write_frames opts batches (header, empty_wal_state)))"

text \<open>The scan result of an image whose frames lead to the state \<open>s\<close>.\<close>

definition scanned :: "WalState \<Rightarrow> bool \<Rightarrow> WalScanResult" where
  "scanned s incomplete = \<lparr>wc_state = s\<lparr>ws_durable_frame_sequence := ws_last_frame_sequence s, ws_repaired_incomplete_tail := incomplete\<rparr>,
     wc_valid_bytes = ws_file_bytes s, wc_has_incomplete_tail = incomplete\<rparr>"

lemma write_frames_append:
  "write_frames opts (as @ bs) x = bind_res (write_frames opts as x) (write_frames opts bs)"
  by (induction as arbitrary: x) (auto simp: bind_res_def split: sum.split)

section \<open>One frame\<close>

lemma summary_ok:
  assumes "wal_log_wf opts (wal_log s)" and "validate_options opts = Inr u"
    and "ws_durable_frame_sequence s \<le> ws_last_frame_sequence s"
  shows "validate_state_summary s opts = Inr ()"
proof -
  let ?n = "length (ws_entries s)"
  have len: "?n < 2 ^ 64 - 1" by (rule wal_log_wf_length [OF assms(1,2)])
  have ok: "entry_ok_at opts (hs_current_term (ws_hard_state s)) (ws_entries s) i" if "i < ?n" for i
    using assms(1) that by (simp add: wal_log_wf_def wal_log_def entries_ok_from_def)
  have "?n \<le> unat (wo_max_log_entries opts)"
    using ok [of "?n - 1"] by (cases "ws_entries s = []") (auto simp: entry_ok_at_def)
  then have "\<not> of_nat ?n > wo_max_log_entries opts" using len by (simp add: word_less_nat_alt not_less)
  moreover have "ws_entries s \<noteq> [] \<Longrightarrow> ent_index (hd (ws_entries s)) = 1 \<and> ent_index (last (ws_entries s)) = of_nat ?n \<and>
      ent_term (last (ws_entries s)) \<le> hs_current_term (ws_hard_state s)"
  proof -
    assume ne: "ws_entries s \<noteq> []"
    then have "ent_index (ws_entries s ! 0) = 1" using ok [of 0] by (simp add: entry_ok_at_def)
    moreover have "ent_index (ws_entries s ! (?n - 1)) = of_nat ?n" "ent_term (ws_entries s ! (?n - 1)) \<le> hs_current_term (ws_hard_state s)"
      using ok [of "?n - 1"] ne by (simp_all add: entry_ok_at_def del: of_nat_Suc)
    ultimately show ?thesis using ne by (simp add: hd_conv_nth last_conv_nth)
  qed
  moreover have "\<not> ws_commit_index s > of_nat ?n"
    using assms(1) len by (simp add: wal_log_wf_def wal_log_def word_less_nat_alt)
  moreover have "hs_current_term (ws_hard_state s) = 0 \<longrightarrow> hs_voted_for (ws_hard_state s) = None"
    using assms(1) by (simp add: wal_log_wf_def wal_log_def)
  ultimately show ?thesis using assms(3) by (auto simp: validate_state_summary_def not_less)
qed

definition written_state :: "PersistBatch \<Rightarrow> bytes \<Rightarrow> WalState \<Rightarrow> WalState" where
  "written_state b bs s = (applied b s)\<lparr>ws_last_frame_sequence := ws_last_frame_sequence s + 1,
     ws_file_bytes := ws_file_bytes s + of_nat (length bs)\<rparr>"

abbreviation frame_for :: "WalState \<Rightarrow> PersistBatch \<Rightarrow> ParsedFrameHeader" where
  "frame_for s b \<equiv> frame_header_of (ws_last_frame_sequence s + 1) (payload_image b)"

lemma next_frame_for:
  assumes "validate_options opts = Inr ()"
  shows "next_frame opts s (frame_for s b) b \<longleftrightarrow>
    batch_admissible opts b (wal_log s) \<and> 72 + length (payload_image b) \<le> wo_max_frame_bytes opts" (is "?L \<longleftrightarrow> ?R")
proof
  assume n: ?L
  then have "header_ok opts (frame_for s b)" by (simp add: next_frame_def)
  with frame_size_eq(1) [OF assms n] have "72 + length (payload_image b) \<le> wo_max_frame_bytes opts" by (simp add: header_ok_def)
  with n show ?R by (simp add: next_frame_def)
next
  assume ?R
  then show ?L using header_of_ok [OF _ assms, of b] by (auto simp: next_frame_def frame_header_of_def)
qed

lemma encode_wal_frame_iff:
  assumes "wal_log_wf opts (wal_log s)" and "validate_options opts = Inr ()"
    and "ws_durable_frame_sequence s \<le> ws_last_frame_sequence s" and "ws_last_frame_sequence s \<noteq> -1"
  shows "encode_wal_frame s b opts = Inr f \<longleftrightarrow>
    next_frame opts s (frame_for s b) b \<and>
    length (frame_image (frame_for s b) (payload_image b)) \<le> unat (-1 - ws_file_bytes s) \<and>
    f = \<lparr>wf_bytes = frame_image (frame_for s b) (payload_image b),
         wf_state_after = written_state b (frame_image (frame_for s b) (payload_image b)) s\<rparr>"
proof -
  let ?h = "frame_for s b" and ?p = "payload_image b"
  have "encode_wal_frame s b opts = Inr f \<longleftrightarrow>
      (\<exists>v. stage opts b (new_view s) = Inr v \<and> materialize v s = applied b s) \<and> 72 + length ?p \<le> wo_max_frame_bytes opts \<and>
      length (frame_image ?h ?p) \<le> unat (-1 - ws_file_bytes s) \<and>
      f = \<lparr>wf_bytes = frame_image ?h ?p, wf_state_after = written_state b (frame_image ?h ?p) s\<rparr>"
    (is "_ \<longleftrightarrow> ?R")
  proof
    assume "encode_wal_frame s b opts = Inr f"
    then obtain v where v: "stage opts b (new_view s) = Inr v" "72 + length ?p \<le> wo_max_frame_bytes opts"
        "length (frame_image ?h ?p) \<le> unat (-1 - ws_file_bytes s)"
        "f = \<lparr>wf_bytes = frame_image ?h ?p, wf_state_after = (materialize v s)\<lparr>ws_last_frame_sequence := ws_last_frame_sequence s + 1,
          ws_file_bytes := ws_file_bytes s + of_nat (length (frame_image ?h ?p))\<rparr>\<rparr>"
      by (auto simp: encode_wal_frame_def bind_res_eq_Inr make_frame_iff not_less split: if_splits)
    moreover have "materialize v s = applied b s" using stage_new_iff [OF assms(2,1), of b "materialize v s"] v(1) by blast
    ultimately show ?R by (auto simp: written_state_def)
  next
    assume R: ?R
    then obtain v where "stage opts b (new_view s) = Inr v" "materialize v s = applied b s" by blast
    with R assms(2,4) summary_ok [OF assms(1-3)] show "encode_wal_frame s b opts = Inr f"
      by (auto simp: encode_wal_frame_def bind_res_eq_Inr make_frame_iff written_state_def not_less
          simp del: frame_lengths)
  qed
  then show ?thesis unfolding next_frame_for [OF assms(2)] stage_new_iff [OF assms(2,1)] by blast
qed

section \<open>Images\<close>

definition scan_of :: "WalState \<Rightarrow> WalScanResult" where
  "scan_of s = \<lparr>wc_state = s, wc_valid_bytes = ws_file_bytes s, wc_has_incomplete_tail = False\<rparr>"

lemma scan_of_simps [simp]:
  "wc_state (scan_of s) = s" "\<not> wc_has_incomplete_tail (scan_of s)"
  "recovered (scan_of s) = scanned s False" "recovered (torn (scan_of s)) = scanned s True"
  by (simp_all add: scan_of_def recovered_def torn_def scanned_def)

lemma scan_start_of: "scan_start = scan_of empty_wal_state"
  by (simp add: scan_start_def scan_of_def empty_wal_state_def wal_sizes)

lemma scan_inv_of: "scan_inv opts r offset \<Longrightarrow> r = scan_of (wc_state r)"
  by (simp add: scan_inv_def scan_of_def)

lemma scan_inv_encode:
  assumes "scan_inv opts (scan_of s) offset" and "validate_options opts = Inr ()"
  shows "encode_wal_frame s b opts = Inr f \<longleftrightarrow>
    next_frame opts s (frame_for s b) b \<and>
    unat offset + length (frame_image (frame_for s b) (payload_image b)) < 2 ^ 64 \<and>
    f = \<lparr>wf_bytes = frame_image (frame_for s b) (payload_image b),
         wf_state_after = written_state b (frame_image (frame_for s b) (payload_image b)) s\<rparr>"
proof -
  have "80 * unat (ws_last_frame_sequence s) \<le> unat offset" using assms(1) by (simp add: scan_inv_def)
  moreover have "unat offset < 18446744073709551616" by (rule unat_less_64)
  ultimately have "unat (ws_last_frame_sequence s) < 18446744073709551615" by linarith
  then have q: "ws_last_frame_sequence s \<noteq> -1" by (auto simp: unsigned_minus_1_eq_mask mask_eq_exp_minus_1)
  have "unat (-1 - offset) = 18446744073709551615 - unat offset"
    by (simp add: unat_sub unsigned_minus_1_eq_mask mask_eq_exp_minus_1)
  then have "k \<le> unat (-1 - offset) \<longleftrightarrow> unat offset + k < 18446744073709551616" for k
    using \<open>unat offset < 18446744073709551616\<close> by (simp only:) arith
  moreover have "offset = ws_file_bytes s" using assms(1) by (simp add: scan_inv_def)
  moreover have "ws_durable_frame_sequence s \<le> ws_last_frame_sequence s" using assms(1) by (simp add: scan_inv_def)
  ultimately show ?thesis
    using encode_wal_frame_iff [OF _ assms(2) _ q, of b f] scan_inv_wf [OF assms(1)]
    by (simp del: frame_lengths)
qed

lemma scan_advance_of:
  assumes "scan_inv opts (scan_of s) offset" and "fh_sequence h = ws_last_frame_sequence s + 1"
    and "unat (fh_frame_size h) = length bs"
  shows "scan_advance h (applied b s) offset (scan_of s) = scan_of (written_state b bs s)"
proof -
  have "fh_frame_size h = of_nat (length bs)" using assms(3) by (metis of_nat_unat ucast_id)
  with assms(1,2) show ?thesis by (simp add: scan_advance_def scan_of_def written_state_def scan_inv_def)
qed

definition image_of :: "WalIdentity \<Rightarrow> WalOptions \<Rightarrow> bytes \<Rightarrow> WalState \<Rightarrow> bool" where
  "image_of i opts bs s \<longleftrightarrow> validate_options opts = Inr () \<and> length bs < 2 ^ 64 \<and> 48 \<le> length bs \<and>
     take 48 bs = file_header_image i \<and> scan_mem bs opts scan_start 48 = Inr (scan_of s) \<and>
     scan_inv opts (scan_of s) (of_nat (length bs))"

lemma scan_mem_end: "length bs < 2 ^ 64 \<Longrightarrow> scan_mem bs opts r (of_nat (length bs)) = Inr r"
  by (simp add: scan_mem_unfold [where rest = "[]"])

lemma image_frame:
  assumes im: "image_of i opts bs s" and f: "encode_wal_frame s b opts = Inr f"
  shows "image_of i opts (bs @ wf_bytes f) (wf_state_after f)"
    "n < length (wf_bytes f) \<Longrightarrow> 0 < n \<Longrightarrow> scan_mem (bs @ take n (wf_bytes f)) opts scan_start 48 = Inr (torn (scan_of s))"
proof -
  have a: "validate_options opts = Inr ()" "length bs < 2 ^ 64" "48 \<le> length bs" "take 48 bs = file_header_image i"
      "scan_mem bs opts scan_start 48 = Inr (scan_of s)" "scan_inv opts (scan_of s) (of_nat (length bs))"
    using im by (simp_all add: image_of_def)
  have e: "next_frame opts s (frame_for s b) b" "length (bs @ wf_bytes f) < 2 ^ 64"
      "wf_bytes f = frame_image (frame_for s b) (payload_image b)" "wf_state_after f = written_state b (wf_bytes f) s"
    using f scan_inv_encode [OF a(6,1)] a(2) by auto
  have ext: "scan_mem (bs @ ys) opts scan_start 48 = scan_mem (bs @ ys) opts (scan_of s) (of_nat (length bs))"
    if "length (bs @ ys) < 2 ^ 64" for ys
    using scan_extend [OF a(1) that _ scan_start_inv a(5)] a(3) by simp
  note size = frame_size_eq(1) [OF a(1) e(1)]
  let ?h = "frame_for s b"
  have d: "drop (unat (of_nat (length bs) :: u64)) (bs @ wf_bytes f) = frame_image ?h (payload_image b) @ []"
    using a(2) e(3) by simp
  have off: "unat (of_nat (length bs) :: u64) \<le> length (bs @ wf_bytes f)" using a(2) by simp
  note o = next_offset [OF a(1) e(2) off e(1) d]
  have adv: "scan_advance ?h (applied b s) (of_nat (length bs)) (scan_of s) = scan_of (wf_state_after f)"
    using scan_advance_of [OF a(6) _ size] e(1,3,4) by (simp add: next_frame_def)
  have "of_nat (length bs) + fh_frame_size ?h = of_nat (length (bs @ wf_bytes f))"
    using size e(3) by (metis length_append of_nat_add of_nat_unat ucast_id)
  moreover have "scan_inv opts (scan_of (wf_state_after f)) (of_nat (length bs) + fh_frame_size ?h)"
    using scan_inv_next [OF a(1,6) _ o(1), of b] e(1) adv by simp
  ultimately show "image_of i opts (bs @ wf_bytes f) (wf_state_after f)"
    using a ext [OF e(2)] scan_next_frame [OF a(1) e(2) off _ _ d] scan_mem_end [OF e(2)] scan_inv_wf [OF a(6)] e(1,2) adv
    by (simp add: image_of_def)
  assume n: "n < length (wf_bytes f)" "0 < n"
  have len: "length (bs @ take n (wf_bytes f)) < 2 ^ 64" using e(2) n by simp
  have "drop (unat (of_nat (length bs) :: u64)) (bs @ take n (wf_bytes f)) = take n (frame_image ?h (payload_image b))"
    using a(2) e(3) by simp
  with scan_torn [OF a(1) len _ _ this n(2)] n(1) e(1,3) a(2) ext [OF len]
  show "scan_mem (bs @ take n (wf_bytes f)) opts scan_start 48 = Inr (torn (scan_of s))" by simp
qed

lemma image_start: "validate_options opts = Inr () \<Longrightarrow> image_of i opts (file_header_image i) empty_wal_state"
  using scan_mem_end [of "file_header_image i" opts scan_start] scan_start_inv [of opts]
  by (simp add: image_of_def scan_start_of [symmetric])

lemma write_image_image: "write_image i opts batches = Inr (bs, s) \<Longrightarrow> image_of i opts bs s"
proof (induction batches arbitrary: bs s rule: rev_induct)
  case Nil
  then show ?case by (auto simp: write_image_def bind_res_eq_Inr encode_wal_file_header_def make_file_header_eq image_start)
next
  case (snoc b batches)
  then obtain bs0 s0 f where "write_image i opts batches = Inr (bs0, s0)" "encode_wal_frame s0 b opts = Inr f"
      "bs = bs0 @ wf_bytes f" "s = wf_state_after f"
    by (auto simp: write_image_def write_frames_append bind_res_eq_Inr)
  with snoc.IH image_frame(1) show ?case by blast
qed

lemma scan_written:
  assumes opts: "validate_options opts = Inr ()" and len: "length bs < 2 ^ 64"
  shows "unat offset \<le> length bs \<Longrightarrow> scan_inv opts (scan_of s) offset \<Longrightarrow> scan_mem bs opts (scan_of s) offset = Inr r \<Longrightarrow>
    \<not> wc_has_incomplete_tail r \<Longrightarrow>
    \<exists>batches s'. write_frames opts batches (take (unat offset) bs, s) = Inr (bs, s') \<and> r = scan_of s'"
proof (induction "length bs - unat offset" arbitrary: s offset rule: less_induct)
  case less
  show ?case
  proof (rule scan_cases [OF opts len less.prems(1) scan_inv_wf [OF less.prems(2)] less.prems(3)])
    assume "drop (unat offset) bs = []" "r = scan_of s"
    then show ?thesis by (intro exI [of _ "[]"] exI [of _ s]) simp
  next
    assume "r = torn (scan_of s)"
    with less.prems(4) show ?thesis by (simp add: torn_def)
  next
    fix h b zs
    assume n: "next_frame opts (wc_state (scan_of s)) h b" and d: "drop (unat offset) bs = frame_image h (payload_image b) @ zs"
      and c: "scan_mem bs opts (scan_advance h (applied b (wc_state (scan_of s))) offset (scan_of s)) (offset + fh_frame_size h) = Inr r"
    note n = n [unfolded scan_of_simps] and c = c [unfolded scan_of_simps]
    let ?f = "frame_image h (payload_image b)"
    note o = next_offset [OF opts len less.prems(1) n d] and size = frame_size_eq(1) [OF opts n]
    have h: "h = frame_for s b" using header_eqI [OF _ opts, of h "payload_image b"] n by (simp add: next_frame_def)
    have adv: "scan_advance h (applied b s) offset (scan_of s) = scan_of (written_state b ?f s)"
      using scan_advance_of [OF less.prems(2) _ size] n by (simp add: next_frame_def)
    have "take (unat (offset + fh_frame_size h)) bs = take (unat offset) bs @ ?f"
      using d size o(1) take_add [of "unat offset" "unat (fh_frame_size h)" bs] by simp
    moreover obtain batches s' where "write_frames opts batches (take (unat (offset + fh_frame_size h)) bs, written_state b ?f s) = Inr (bs, s')"
        "r = scan_of s'"
      using less.hyps [OF o(4,2) _ c [unfolded adv] less.prems(4)] scan_inv_next [OF opts less.prems(2) _ o(1), of b] n adv
      by (auto simp: scan_of_simps)
    moreover have "unat offset + length ?f < 2 ^ 64" using o(1,2) size len by simp
    then have "encode_wal_frame s b opts = Inr \<lparr>wf_bytes = ?f, wf_state_after = written_state b ?f s\<rparr>"
      using scan_inv_encode [OF less.prems(2) opts, of b] n h by (simp del: frame_lengths)
    ultimately show ?thesis by (intro exI [of _ "b # batches"] exI [of _ s']) simp
  qed
qed

lemma image_scan: "image_of i opts bs s \<Longrightarrow> scan_wal_bytes bs i opts = Inr (scanned s False)"
  by (auto simp: scan_wal_bytes_iff image_of_def)

lemma image_scan_torn:
  assumes im: "image_of i opts bs s" and f: "encode_wal_frame s b opts = Inr f" and n: "n < length (wf_bytes f)" "0 < n"
  shows "scan_wal_bytes (bs @ take n (wf_bytes f)) i opts = Inr (scanned s True)"
proof -
  have "length (bs @ wf_bytes f) < 2 ^ 64" using image_frame(1) [OF im f] by (simp add: image_of_def)
  then have "length (bs @ take n (wf_bytes f)) < 2 ^ 64" using n by simp
  moreover have "validate_options opts = Inr ()" "48 \<le> length bs" "take 48 bs = file_header_image i"
    using im by (simp_all add: image_of_def)
  ultimately show ?thesis using image_frame(2) [OF im f n] by (simp add: scan_wal_bytes_iff)
qed

section \<open>A small image\<close>

definition demo_identity :: WalIdentity where
  "demo_identity = \<lparr>wi_cluster_id_high = 1, wi_cluster_id_low = 2, wi_node_id = 3\<rparr>"

definition demo_vote :: PersistBatch where
  "demo_vote = empty_batch\<lparr>pb_hard_state := Some \<lparr>hs_current_term = 1, hs_voted_for = Some 3\<rparr>\<rparr>"

definition demo_append :: PersistBatch where
  "demo_append = empty_batch\<lparr>pb_entries := [\<lparr>ent_index = 1, ent_term = 1, ent_command = None\<rparr>], pb_commit_index := Some 1\<rparr>"

definition demo_batches :: "PersistBatch list" where
  "demo_batches = [demo_vote, demo_append]"

definition demo_image :: bytes where
  "demo_image = fst (projr (write_image demo_identity default_wal_options demo_batches))"

lemma demo_options: "validate_options default_wal_options = Inr ()"
  by code_simp

lemma encode_succeeds:
  assumes "image_of i opts bs s" and "\<not> isl (stage opts b (new_view s))"
    and "72 + length (payload_image b) \<le> wo_max_frame_bytes opts" and "length bs + 72 + length (payload_image b) < 2 ^ 64"
  shows "\<exists>f. encode_wal_frame s b opts = Inr f \<and> length (wf_bytes f) = 72 + length (payload_image b) \<and>
    wf_state_after f = written_state b (wf_bytes f) s"
proof -
  have a: "validate_options opts = Inr ()" "scan_inv opts (scan_of s) (of_nat (length bs))" "length bs < 2 ^ 64"
    using assms(1) by (simp_all add: image_of_def)
  obtain v where "stage opts b (new_view s) = Inr v" using assms(2) by (cases "stage opts b (new_view s)") auto
  then have "batch_admissible opts b (wal_log s)" using stage_new_iff [OF a(1), of s b "materialize v s"] scan_inv_wf [OF a(2)] by auto
  with scan_inv_encode [OF a(2,1), of b] assms(3,4) a(1,3) show ?thesis by (simp add: next_frame_for)
qed

lemma new_view_written: "new_view (written_state b bs s) = new_view (applied b s)"
  by (simp add: new_view_def written_state_def)

lemma demo_written:
  "\<exists>s. write_image demo_identity default_wal_options demo_batches = Inr (demo_image, s)"
  "length demo_image = 246"
proof -
  let ?b0 = demo_vote and ?b1 = demo_append and ?o = default_wal_options
  note start = image_start [OF demo_options, of demo_identity]
  have ev: "\<not> isl (stage ?o ?b0 (new_view empty_wal_state))" "\<not> isl (stage ?o ?b1 (new_view (applied ?b0 empty_wal_state)))"
      "length (payload_image ?b0) = 21" "length (payload_image ?b1) = 33" "wo_max_frame_bytes ?o = 16777216"
    by code_simp+
  obtain f0 where f0: "encode_wal_frame empty_wal_state ?b0 ?o = Inr f0" "length (wf_bytes f0) = 93"
      "wf_state_after f0 = written_state ?b0 (wf_bytes f0) empty_wal_state"
    using encode_succeeds [OF start ev(1)] ev by auto
  note im1 = image_frame(1) [OF start f0(1)]
  obtain f1 where f1: "encode_wal_frame (wf_state_after f0) ?b1 ?o = Inr f1" "length (wf_bytes f1) = 105"
    using encode_succeeds [OF im1, of ?b1] ev f0 by (auto simp: new_view_written)
  have w: "write_image demo_identity ?o demo_batches =
      Inr ((file_header_image demo_identity @ wf_bytes f0) @ wf_bytes f1, wf_state_after f1)"
    using f0(1) f1(1) demo_options
    by (simp add: write_image_def encode_wal_file_header_def make_file_header_eq demo_batches_def del: append_assoc)
  then show "\<exists>s. write_image demo_identity ?o demo_batches = Inr (demo_image, s)" by (simp add: demo_image_def)
  from w f0(2) f1(2) show "length demo_image = 246" by (simp add: demo_image_def)
qed

lemma demo_scanned: "\<exists>r. scan_wal_bytes demo_image demo_identity default_wal_options = Inr r \<and> \<not> wc_has_incomplete_tail r"
proof -
  obtain s where "image_of demo_identity default_wal_options demo_image s"
    using demo_written(1) write_image_image by blast
  then show ?thesis by (auto simp: scan_wal_bytes_iff image_of_def scanned_def)
qed

end
