(* ===== verification/WalProperties.thy ===== *)
theory WalProperties
  imports WalImage
begin

text \<open>
  The properties of the write-ahead log format: the recovery scan accepts exactly the images the
  encoder writes, recovers from every cut of such an image the frames that are whole in it, and
  rejects every image with one changed byte; staging a batch refines its plain effect on the
  logical log.
\<close>

section \<open>Properties\<close>

text \<open>C26. \<^verbatim>\<open>scan_wal_bytes\<close> accepts, without an incomplete tail, exactly the images that consist of a file
  header and frames written by \<^verbatim>\<open>encode_wal_frame\<close>, and recovers the state after the last frame.\<close>

theorem wal_scan_exact:
  assumes "length bs < 2 ^ 64"
  shows "scan_wal_bytes bs i opts = Inr r \<and> \<not> wc_has_incomplete_tail r \<longleftrightarrow>
    (\<exists>batches s. write_image i opts batches = Inr (bs, s) \<and> r = scanned s False)"
proof
  assume "scan_wal_bytes bs i opts = Inr r \<and> \<not> wc_has_incomplete_tail r"
  then obtain r0 where s: "validate_options opts = Inr ()" "48 \<le> length bs" "take 48 bs = file_header_image i"
      "scan_mem bs opts (scan_of empty_wal_state) 48 = Inr r0" "r = recovered r0" "\<not> wc_has_incomplete_tail r0"
    using assms by (auto simp: scan_wal_bytes_iff scan_start_of [symmetric] recovered_def)
  obtain batches s' where "write_frames opts batches (take 48 bs, empty_wal_state) = Inr (bs, s')" "r0 = scan_of s'"
    using scan_written [OF s(1) assms _ _ s(4,6)] s(2) scan_start_inv by (auto simp: scan_start_of)
  then have "write_image i opts batches = Inr (bs, s')" "r = scanned s' False"
    using s by (simp_all add: write_image_def encode_wal_file_header_def make_file_header_eq)
  then show "\<exists>batches s. write_image i opts batches = Inr (bs, s) \<and> r = scanned s False" by blast
next
  assume "\<exists>batches s. write_image i opts batches = Inr (bs, s) \<and> r = scanned s False"
  then obtain s where "image_of i opts bs s" "r = scanned s False" using write_image_image by blast
  then show "scan_wal_bytes bs i opts = Inr r \<and> \<not> wc_has_incomplete_tail r"
    by (auto simp: scan_wal_bytes_iff image_of_def scanned_def recovered_def scan_of_def)
qed

theorem wal_scan_exact_witness:
  "\<exists>s. scan_wal_bytes demo_image demo_identity default_wal_options = Inr (scanned s False)"
  using wal_scan_exact [of demo_image demo_identity default_wal_options] demo_written by fastforce

text \<open>C27. Whatever prefix of a written file survives a crash, provided the file header does, recovery
  succeeds and gives exactly the state after the frames that are whole in it; the rest is reported as an
  incomplete tail.\<close>

theorem wal_crash_recovery:
  assumes "write_image i opts batches = Inr (bs, s)" and "kFileHeaderBytes \<le> k"
  shows "\<exists>n bs' s'. n \<le> length batches \<and> write_image i opts (take n batches) = Inr (bs', s') \<and>
    take (length bs') bs = bs' \<and> length bs' \<le> k \<and>
    (\<forall>m bm sm. m \<le> length batches \<and> write_image i opts (take m batches) = Inr (bm, sm) \<and> length bm \<le> k \<longrightarrow> m \<le> n) \<and>
    scan_wal_bytes (take k bs) i opts = Inr (scanned s' (length bs' < length (take k bs)))"
  using assms(1)
proof (induction batches arbitrary: bs s rule: rev_induct)
  case Nil
  then have "bs = file_header_image i"
    by (auto simp: write_image_def bind_res_eq_Inr encode_wal_file_header_def make_file_header_eq)
  then have k: "length bs \<le> k" using assms(2) by (simp add: wal_sizes)
  with image_scan [OF write_image_image [OF Nil]] Nil show ?case
    by (intro exI [of _ 0] exI [of _ bs] exI [of _ s]) simp
next
  case (snoc b batches)
  then obtain bs0 s0 f where w: "write_image i opts batches = Inr (bs0, s0)" "encode_wal_frame s0 b opts = Inr f"
      "bs = bs0 @ wf_bytes f" "s = wf_state_after f"
    by (auto simp: write_image_def write_frames_append bind_res_eq_Inr)
  have whole: "m \<le> length batches \<and> take m (batches @ [b]) = take m batches"
    if "m \<le> length (batches @ [b])" "write_image i opts (take m (batches @ [b])) = Inr (bm, sm)" "length bm \<le> k" "k < length bs" for m bm sm
    using that snoc.prems by (cases "m = Suc (length batches)") simp_all
  consider "length bs \<le> k" | "length bs0 < k" "k < length bs" | "k \<le> length bs0" "k < length bs"
    by linarith
  then show ?case
  proof cases
    case 1
    with image_scan [OF write_image_image [OF snoc.prems]] snoc.prems show ?thesis
      by (intro exI [of _ "Suc (length batches)"] exI [of _ bs] exI [of _ s]) simp
  next
    case 2
    then have cut: "take k bs = bs0 @ take (k - length bs0) (wf_bytes f)" "length (take k bs) = k" using w(3) by simp_all
    have "scan_wal_bytes (take k bs) i opts = Inr (scanned s0 True)"
      using image_scan_torn [OF write_image_image [OF w(1)] w(2), of "k - length bs0"] 2 w(3) cut(1) by simp
    moreover have "length bs0 < length (take k bs)" "take (length bs0) bs = bs0" using 2 cut(2) w(3) by simp_all
    ultimately have "take (length bs0) bs = bs0 \<and> scan_wal_bytes (take k bs) i opts = Inr (scanned s0 (length bs0 < length (take k bs)))"
      by simp
    moreover have "length batches \<le> length (batches @ [b]) \<and> write_image i opts (take (length batches) (batches @ [b])) = Inr (bs0, s0) \<and>
        length bs0 \<le> k" using w(1) 2(1) by simp
    ultimately show ?thesis using whole 2(2) by blast
  next
    case 3
    then have cut: "take k bs = take k bs0" using w(3) by simp
    obtain n bs' s' where IH: "n \<le> length batches" "write_image i opts (take n batches) = Inr (bs', s')"
        "take (length bs') bs0 = bs'" "length bs' \<le> k"
        "\<forall>m bm sm. m \<le> length batches \<and> write_image i opts (take m batches) = Inr (bm, sm) \<and> length bm \<le> k \<longrightarrow> m \<le> n"
        "scan_wal_bytes (take k bs0) i opts = Inr (scanned s' (length bs' < length (take k bs0)))"
      using snoc.IH [OF w(1)] by blast
    have "\<forall>m bm sm. m \<le> length (batches @ [b]) \<and> write_image i opts (take m (batches @ [b])) = Inr (bm, sm) \<and>
        length bm \<le> k \<longrightarrow> m \<le> n"
    proof (intro allI impI, elim conjE)
      fix m bm sm assume "m \<le> length (batches @ [b])" and w': "write_image i opts (take m (batches @ [b])) = Inr (bm, sm)"
        and "length bm \<le> k"
      with whole [OF this 3(2)] IH(5) show "m \<le> n" by auto
    qed
    moreover have "take (length bs') bs = bs'" using IH(3,4) 3(1) w(3) by simp
    ultimately show ?thesis using IH(1,2,4,6) cut
      by (intro exI [of _ n] exI [of _ bs'] exI [of _ s']) simp
  qed
qed

theorem wal_crash_recovery_witness:
  "\<exists>n (bs' :: bytes) s'. n \<le> length demo_batches \<and> length bs' \<le> 150 \<and>
     scan_wal_bytes (take 150 demo_image) demo_identity default_wal_options =
       Inr (scanned s' (length bs' < length (take 150 demo_image)))"
proof -
  obtain s where w: "write_image demo_identity default_wal_options demo_batches = Inr (demo_image, s)"
    using demo_written(1) by blast
  have k: "kFileHeaderBytes \<le> 150" by (simp add: wal_sizes)
  from wal_crash_recovery [OF w k] show ?thesis
    by (elim exE conjE) (intro exI conjI, assumption+)
qed

text \<open>C28. A complete file in which one byte, at any place, is replaced by a different one is rejected with
  an error: it is neither accepted nor taken for a torn file.\<close>

theorem wal_corruption_detected:
  assumes "length bs < 2 ^ 64" and "scan_wal_bytes bs i opts = Inr r" and "\<not> wc_has_incomplete_tail r"
    and "j < length bs" and "x \<noteq> bs ! j"
  shows "\<exists>e. scan_wal_bytes (bs[j := x]) i opts = Inl e"
proof (rule scan_wal_bytes_errors, rule notI)
  assume "\<exists>r'. scan_wal_bytes (bs[j := x]) i opts = Inr r'"
  then obtain r1 where c: "take 48 (bs[j := x]) = file_header_image i" "scan_mem (bs[j := x]) opts scan_start 48 = Inr r1"
    using scan_wal_bytes_iff [of "bs[j := x]" i opts] assms(1) by auto
  obtain r0 where s: "validate_options opts = Inr ()" "48 \<le> length bs" "take 48 bs = file_header_image i"
      "scan_mem bs opts scan_start 48 = Inr r0" "\<not> wc_has_incomplete_tail r0"
    using assms(2,3) scan_wal_bytes_iff [OF assms(1)] by (auto simp: recovered_def)
  show False
  proof (cases "j < 48")
    case True
    then have "(take 48 bs)[j := x] = take 48 bs" using c(1) s(3) by (simp add: take_update_swap)
    with True s(2) assms(5) show False by (metis length_take min.absorb2 nth_list_update_eq nth_take)
  next
    case False
    then show False using scan_changed [OF s(1) assms(1,4,5) _ scan_start_inv s(4,5)] c(2) by simp
  qed
qed

theorem wal_corruption_detected_witness:
  "\<exists>e. scan_wal_bytes (demo_image[200 := NOT (demo_image ! 200)]) demo_identity default_wal_options = Inl e"
proof -
  have "bit (NOT (demo_image ! 200)) 0 \<noteq> bit (demo_image ! 200) 0" by (simp add: bit_not_iff)
  then have "NOT (demo_image ! 200) \<noteq> demo_image ! 200" by metis
  moreover obtain r where "scan_wal_bytes demo_image demo_identity default_wal_options = Inr r" "\<not> wc_has_incomplete_tail r"
    using demo_scanned by blast
  ultimately show ?thesis using wal_corruption_detected [of demo_image demo_identity default_wal_options r 200] demo_written(2) by simp
qed

text \<open>C29. Every log the scan recovers, with or without an incomplete tail, is well formed: indices consecutive
  from one, terms positive, not decreasing and at most the recovered term, command fields and log length within
  the bounds, the commit index within the log, and no vote in term zero.\<close>

theorem wal_recovered_wellformed:
  assumes "length bs < 2 ^ 64" and "scan_wal_bytes bs i opts = Inr r"
  shows "let s = wc_state r in
    (\<forall>j < length (ws_entries s). ent_index (ws_entries s ! j) = of_nat (Suc j) \<and> ent_term (ws_entries s ! j) \<noteq> 0 \<and>
       ent_term (ws_entries s ! j) \<le> hs_current_term (ws_hard_state s) \<and>
       (0 < j \<longrightarrow> ent_term (ws_entries s ! (j - 1)) \<le> ent_term (ws_entries s ! j)) \<and>
       (\<forall>c. ent_command (ws_entries s ! j) = Some c \<longrightarrow> length (cmd_key c) \<le> unat (wo_max_key_bytes opts) \<and>
          length (cmd_value c) \<le> unat (wo_max_value_bytes opts))) \<and>
    unat (ws_commit_index s) \<le> length (ws_entries s) \<and> length (ws_entries s) \<le> unat (wo_max_log_entries opts) \<and>
    (hs_current_term (ws_hard_state s) = 0 \<longrightarrow> hs_voted_for (ws_hard_state s) = None)"
proof -
  obtain r0 where "validate_options opts = Inr ()" "48 \<le> length bs" "scan_mem bs opts scan_start 48 = Inr r0" "r = recovered r0"
    using assms scan_wal_bytes_iff [OF assms(1)] by auto
  then have wf: "wal_log_wf opts (wal_log (wc_state r))"
    using scan_keeps_wf [OF _ assms(1) _ scan_start_inv] by (simp add: recovered_def)
  then have ok: "entry_ok_at opts (hs_current_term (ws_hard_state (wc_state r))) (ws_entries (wc_state r)) j"
    if "j < length (ws_entries (wc_state r))" for j
    using that by (simp add: wal_log_wf_def wal_log_def entries_ok_from_def)
  have "length (ws_entries (wc_state r)) \<le> unat (wo_max_log_entries opts)"
    using ok [of "length (ws_entries (wc_state r)) - 1"] by (cases "ws_entries (wc_state r) = []") (auto simp: entry_ok_at_def)
  with ok wf show ?thesis
    by (simp add: Let_def wal_log_wf_def wal_log_def entry_ok_at_def entry_legal_def command_legal_def)
qed

theorem wal_recovered_wellformed_witness:
  "\<exists>r. scan_wal_bytes demo_image demo_identity default_wal_options = Inr r \<and>
     unat (ws_commit_index (wc_state r)) \<le> length (ws_entries (wc_state r))"
proof -
  obtain r where "scan_wal_bytes demo_image demo_identity default_wal_options = Inr r" using demo_scanned by blast
  with wal_recovered_wellformed [OF _ this] demo_written(2) show ?thesis by (auto simp: Let_def)
qed

text \<open>C30. The validation view is a refinement of the plain log: starting from a view of a well-formed log,
  \<^verbatim>\<open>stage\<close> accepts a batch exactly when it is admissible, and the log then materialized is the one with the
  batch's hard state, truncation, entries and commit index applied in this order.\<close>

theorem wal_stage_refines:
  assumes "validate_options opts = Inr ()" and "wal_log_wf opts (wal_log s)"
  shows "case stage opts b (new_view s) of
      Inl e \<Rightarrow> \<not> batch_admissible opts b (wal_log s)
    | Inr v \<Rightarrow> batch_admissible opts b (wal_log s) \<and> wal_log (materialize v s) = batch_effect b (wal_log s) \<and>
        wal_log_wf opts (wal_log (materialize v s))"
proof (cases "stage opts b (new_view s)")
  case (Inl e)
  then show ?thesis
    using stage_iff(2) [OF new_view_wf [OF wal_log_wf_length [OF assms(2,1)]] assms(1), of b] by auto
next
  case (Inr v)
  then have "batch_admissible opts b (wal_log s) \<and> materialize v s = applied b s"
    using stage_new_iff [OF assms, of b "materialize v s"] by blast
  with Inr batch_effect_wf [OF assms(2)] show ?thesis by simp
qed

theorem wal_stage_refines_witness:
  "\<exists>v. stage default_wal_options (hd demo_batches) (new_view empty_wal_state) = Inr v \<and>
     wal_log (materialize v empty_wal_state) = batch_effect (hd demo_batches) (wal_log empty_wal_state)"
proof -
  have "\<not> isl (stage default_wal_options (hd demo_batches) (new_view empty_wal_state))" by code_simp
  moreover have "wal_log_wf default_wal_options (wal_log empty_wal_state)"
    using scan_inv_wf [OF scan_start_inv] by (simp add: scan_start_of)
  ultimately show ?thesis
    using wal_stage_refines [OF demo_options, of empty_wal_state "hd demo_batches"] by (auto split: sum.splits)
qed

end
