(* ===== verification/WalFile.thy ===== *)
theory WalFile
  imports WalImage
begin

text \<open>
  The \<^verbatim>\<open>Wal\<close> class of \<^verbatim>\<open>src/wal.cpp\<close>: opening and repairing a log file, appending groups of batches
  and flushing, with the fail-stop rule after an I/O error. The system calls are a parameter, a record of functions on
  a state of the outside world; the loops over partial reads and writes and over interrupted calls are those of
  \<^verbatim>\<open>NativeFile\<close> (its POSIX side), as partial functions that are undefined when a call is interrupted for ever.
\<close>

section \<open>System calls\<close>

text \<open>A call that fails gives its \<^verbatim>\<open>errno\<close>. \<open>px_pread\<close> gives the bytes read, \<open>px_pwrite\<close> the number of bytes written.\<close>

record 'w Posix =
  px_errno :: "'w \<Rightarrow> nat"
  px_open_excl :: "'w \<Rightarrow> (nat + unit) \<times> 'w"
  px_open :: "'w \<Rightarrow> (nat + unit) \<times> 'w"
  px_fstat :: "'w \<Rightarrow> (nat + int) \<times> 'w"
  px_pread :: "nat \<Rightarrow> nat \<Rightarrow> 'w \<Rightarrow> (nat + bytes) \<times> 'w"
  px_pwrite :: "nat \<Rightarrow> bytes \<Rightarrow> 'w \<Rightarrow> (nat + nat) \<times> 'w"
  px_fsync :: "'w \<Rightarrow> (nat + unit) \<times> 'w"
  px_ftruncate :: "nat \<Rightarrow> 'w \<Rightarrow> (nat + unit) \<times> 'w"
  px_open_directory :: "string \<Rightarrow> 'w \<Rightarrow> (nat + unit) \<times> 'w"
  px_fsync_directory :: "'w \<Rightarrow> (nat + unit) \<times> 'w"
  px_close_directory :: "'w \<Rightarrow> 'w"

definition EINTR :: nat where "EINTR = 4"
definition EEXIST :: nat where "EEXIST = 17"
definition off_t_max :: nat where "off_t_max = 2 ^ 63 - 1"
definition ssize_t_max :: nat where "ssize_t_max = 2 ^ 63 - 1"

type_synonym ('a, 'w) io = "'w \<Rightarrow> ('a WalResult \<times> 'w) option"

definition io_bind :: "('a, 'w) io \<Rightarrow> ('a \<Rightarrow> ('b, 'w) io) \<Rightarrow> ('b, 'w) io" where
  "io_bind m f w = (case m w of None \<Rightarrow> None | Some (Inl e, w') \<Rightarrow> Some (Inl e, w') | Some (Inr x, w') \<Rightarrow> f x w')"

lemma io_bind_cong [fundef_cong]:
  assumes "m = m'" and "w = w'" and "\<And>x v. m' w' = Some (Inr x, v) \<Longrightarrow> f x v = f' x v"
  shows "io_bind m f w = io_bind m' f' w'"
  using assms by (auto simp: io_bind_def split: option.split sum.split)

definition io_return :: "'a WalResult \<Rightarrow> ('a, 'w) io" where
  "io_return r w = Some (r, w)"

section \<open>Files\<close>

definition io_message :: "string \<Rightarrow> string \<Rightarrow> nat \<Rightarrow> string" where
  "io_message operation path native_error =
     operation @ '' '' @ [CHR 0x27] @ path @ [CHR 0x27] @ '' failed (error '' @ decimal native_error @ '')''"

definition io_call :: "string \<Rightarrow> string \<Rightarrow> ('w \<Rightarrow> (nat + 'a) \<times> 'w) \<Rightarrow> ('a, 'w) io" where
  "io_call operation path call w =
     (case call w of (Inl e, w') \<Rightarrow> Some (Inl (WE_io, io_message operation path e), w') | (Inr x, w') \<Rightarrow> Some (Inr x, w'))"

definition native_open :: "'w Posix \<Rightarrow> string \<Rightarrow> (bool, 'w) io" where
  "native_open os path w =
     (case px_open_excl os w of
        (Inr _, w) \<Rightarrow> Some (Inr True, w)
      | (Inl e, w) \<Rightarrow>
          if e = EEXIST then io_bind (io_call ''open'' path (px_open os)) (\<lambda>_. io_return (Inr False)) w
          else Some (Inl (WE_io, io_message ''open'' path e), w))"

definition native_size :: "'w Posix \<Rightarrow> string \<Rightarrow> (u64, 'w) io" where
  "native_size os path =
     io_bind (io_call ''size'' path (px_fstat os)) (\<lambda>n.
       if n < 0 then (\<lambda>w. Some (Inl (WE_io, io_message ''size'' path (px_errno os w)), w)) else io_return (Inr (of_int n)))"

partial_function (option) read_loop ::
    "'w Posix \<Rightarrow> string \<Rightarrow> u64 \<Rightarrow> nat \<Rightarrow> bytes \<Rightarrow> 'w \<Rightarrow> (bytes WalResult \<times> 'w) option" where
  "read_loop os path offset n read_so_far w =
     (if length read_so_far < n then
        (let position = offset + of_nat (length read_so_far) in
         if unat position > off_t_max then Some (Inl (WE_io, ''WAL read offset is too large''), w)
         else
           (case px_pread os (unat position) (min (n - length read_so_far) ssize_t_max) w of
              (Inl e, w') \<Rightarrow>
                if e = EINTR then read_loop os path offset n read_so_far w'
                else Some (Inl (WE_io, io_message ''read'' path e), w')
            | (Inr bs, w') \<Rightarrow>
                if bs = [] then Some (Inl (WE_io, ''unexpected EOF while reading WAL''), w')
                else read_loop os path offset n (read_so_far @ bs) w'))
      else Some (Inr read_so_far, w))"

definition native_read_exact :: "'w Posix \<Rightarrow> string \<Rightarrow> u64 \<Rightarrow> nat \<Rightarrow> (bytes, 'w) io" where
  "native_read_exact os path offset n = read_loop os path offset n []"

partial_function (option) write_loop ::
    "'w Posix \<Rightarrow> string \<Rightarrow> u64 \<Rightarrow> bytes \<Rightarrow> nat \<Rightarrow> 'w \<Rightarrow> (unit WalResult \<times> 'w) option" where
  "write_loop os path offset source written w =
     (if written < length source then
        (let position = offset + of_nat written in
         if unat position > off_t_max then Some (Inl (WE_io, ''WAL write offset is too large''), w)
         else
           (case px_pwrite os (unat position) (take (min (length source - written) ssize_t_max) (drop written source)) w of
              (Inl e, w') \<Rightarrow>
                if e = EINTR then write_loop os path offset source written w'
                else Some (Inl (WE_io, io_message ''write'' path e), w')
            | (Inr k, w') \<Rightarrow>
                if k = 0 then Some (Inl (WE_io, ''zero-length WAL write''), w')
                else write_loop os path offset source (written + k) w'))
      else Some (Inr (), w))"

definition native_write_exact :: "'w Posix \<Rightarrow> string \<Rightarrow> u64 \<Rightarrow> bytes \<Rightarrow> (unit, 'w) io" where
  "native_write_exact os path offset source = write_loop os path offset source 0"

definition native_flush :: "'w Posix \<Rightarrow> string \<Rightarrow> (unit, 'w) io" where
  "native_flush os path = io_call ''flush'' path (px_fsync os)"

definition native_truncate :: "'w Posix \<Rightarrow> string \<Rightarrow> u64 \<Rightarrow> (unit, 'w) io" where
  "native_truncate os path n w =
     (if unat n > off_t_max then Some (Inl (WE_io, io_message ''truncate'' path (px_errno os w)), w)
      else io_call ''truncate'' path (px_ftruncate os (unat n)) w)"

text \<open>\<^verbatim>\<open>path::parent_path\<close>: the path without its last component and the separators before it, but with a root kept.\<close>

definition parent_path :: "string \<Rightarrow> string" where
  "parent_path path =
     (let is_separator = (\<lambda>c. c = CHR 0x2F);
          directory = rev (dropWhile (\<lambda>c. \<not> is_separator c) (rev path));
          trimmed = rev (dropWhile is_separator (rev directory)) in
      if list_all is_separator path then path
      else if trimmed = [] \<and> directory \<noteq> [] then [CHR 0x2F] else trimmed)"

definition sync_parent_directory :: "'w Posix \<Rightarrow> string \<Rightarrow> (unit, 'w) io" where
  "sync_parent_directory os path =
     (let parent = (if parent_path path = [] then ''.'' else parent_path path) in
      io_bind (io_call ''open directory'' parent (px_open_directory os parent)) (\<lambda>_ w.
        case px_fsync_directory os w of
          (Inl e, w) \<Rightarrow> Some (Inl (WE_io, io_message ''flush directory'' parent e), px_close_directory os w)
        | (Inr _, w) \<Rightarrow> Some (Inr (), px_close_directory os w)))"

section \<open>Scanning a file\<close>

text \<open>The scan of \<open>Wal\<close> with a reader that is an action on the outside world.\<close>

function scan_file :: "(u64 \<Rightarrow> nat \<Rightarrow> (bytes, 'w) io) \<Rightarrow> u64 \<Rightarrow> WalOptions \<Rightarrow> WalScanResult \<Rightarrow> u64 \<Rightarrow> (WalScanResult, 'w) io" where
  "scan_file read_exact byte_count opts result offset w =
     (if offset < byte_count then
        (let remaining = byte_count - offset; state = wc_state result in
         if unat remaining < kFrameHeaderBytes then io_return (Inr (result\<lparr>wc_has_incomplete_tail := True\<rparr>)) w
         else io_bind (read_exact offset kFrameHeaderBytes) (\<lambda>header_bytes w.
         case rethrow_at offset (parse_frame_header header_bytes opts) of
           Inl e \<Rightarrow> io_return (Inl e) w
         | Inr header \<Rightarrow>
             if fh_sequence header \<noteq> ws_last_frame_sequence state + 1
             then io_return (Inl (WE_invariant_violation, with_offset ''WAL frame sequence is not consecutive'' offset)) w
             else if fh_frame_size header > remaining then io_return (Inr (result\<lparr>wc_has_incomplete_tail := True\<rparr>)) w
             else io_bind (read_exact offset (unat (fh_frame_size header))) (\<lambda>bs.
             io_bind (io_return (rethrow_at offset
               (bind_res (validate_complete_frame bs header opts) (\<lambda>b.
                bind_res (stage opts b (new_view state)) (\<lambda>view.
                Inr (materialize view state)))))) (\<lambda>state w.
             let offset = offset + fh_frame_size header in
             scan_file read_exact byte_count opts
               (result\<lparr>wc_state := state\<lparr>ws_last_frame_sequence := fh_sequence header, ws_file_bytes := offset\<rparr>,
                       wc_valid_bytes := offset\<rparr>) offset w)) w) w)
      else io_return (Inr result) w)"
  by pat_completeness auto

termination
proof (relation "measure (\<lambda>(read_exact, byte_count, opts, result, offset, w). unat byte_count - unat offset)", goal_cases)
  case (2 read_exact byte_count opts result offset w remaining state header_bytes v header)
  then have "80 \<le> unat (fh_frame_size header)"
    using parse_frame_header_sizes(1) [of header_bytes opts header] by (simp add: wal_sizes)
  with 2 show ?case by (simp add: scan_progress(1) not_less)
qed simp

declare scan_file.simps [simp del]

definition scan_file_source :: "u64 \<Rightarrow> (u64 \<Rightarrow> nat \<Rightarrow> (bytes, 'w) io) \<Rightarrow> WalIdentity \<Rightarrow> WalOptions \<Rightarrow> (WalScanResult, 'w) io" where
  "scan_file_source byte_count rd expected opts =
     io_bind (io_return (validate_options opts)) (\<lambda>_.
     if unat byte_count < kFileHeaderBytes then io_return (Inl (WE_format, ''WAL is missing a complete file header''))
     else io_bind (rd 0 kFileHeaderBytes) (\<lambda>file_header.
     io_bind (io_return (validate_file_header file_header expected)) (\<lambda>_.
     let start = of_nat kFileHeaderBytes;
         initial = \<lparr>wc_state = initial_wal_state\<lparr>ws_file_bytes := start\<rparr>, wc_valid_bytes = start, wc_has_incomplete_tail = False\<rparr> in
     io_bind (scan_file rd byte_count opts initial start) (\<lambda>result.
     io_return (Inr (result\<lparr>wc_state := (wc_state result)\<lparr>
            ws_durable_frame_sequence := ws_last_frame_sequence (wc_state result),
            ws_repaired_incomplete_tail := wc_has_incomplete_tail result\<rparr>\<rparr>))))))"

section \<open>The log\<close>

record WalImpl =
  wf_path :: string
  wf_identity :: WalIdentity
  wf_options :: WalOptions
  wf_state :: WalState
  wf_failed :: bool
  wf_failure_reason :: string

definition live_impl :: "string \<Rightarrow> WalIdentity \<Rightarrow> WalOptions \<Rightarrow> WalState \<Rightarrow> WalImpl" where
  "live_impl path i opts s =
     \<lparr>wf_path = path, wf_identity = i, wf_options = opts, wf_state = s, wf_failed = False, wf_failure_reason = []\<rparr>"

text \<open>The constructor of \<^verbatim>\<open>Wal::Impl\<close> with its two branches: a new log, and recovery from the frames of an old one.\<close>

definition create_log :: "'w Posix \<Rightarrow> string \<Rightarrow> WalIdentity \<Rightarrow> bool \<Rightarrow> (WalState, 'w) io" where
  "create_log os path i created =
     io_bind (io_return (make_file_header i)) (\<lambda>header.
     io_bind (native_write_exact os path 0 header) (\<lambda>_.
     io_bind (native_flush os path) (\<lambda>_.
     io_bind (if created then sync_parent_directory os path else io_return (Inr ())) (\<lambda>_.
     io_return (Inr (initial_wal_state\<lparr>ws_file_bytes := of_nat (length header)\<rparr>))))))"

definition recover_log :: "'w Posix \<Rightarrow> string \<Rightarrow> WalIdentity \<Rightarrow> WalOptions \<Rightarrow> u64 \<Rightarrow> (WalState, 'w) io" where
  "recover_log os path i opts byte_count =
     io_bind (scan_file_source byte_count (native_read_exact os path) i opts) (\<lambda>recovered.
     if wc_has_incomplete_tail recovered then
       io_bind (native_truncate os path (wc_valid_bytes recovered)) (\<lambda>_.
       io_bind (native_flush os path) (\<lambda>_.
       io_return (Inr ((wc_state recovered)\<lparr>ws_file_bytes := wc_valid_bytes recovered, ws_repaired_incomplete_tail := True\<rparr>))))
     else io_return (Inr (wc_state recovered)))"

definition wal_open :: "'w Posix \<Rightarrow> string \<Rightarrow> WalIdentity \<Rightarrow> WalOptions \<Rightarrow> (WalImpl, 'w) io" where
  "wal_open os path i opts =
     io_bind (native_open os path) (\<lambda>created.
     io_bind (io_return (validate_options opts)) (\<lambda>_.
     io_bind (native_size os path) (\<lambda>byte_count.
     io_bind (if byte_count = 0 then create_log os path i created else recover_log os path i opts byte_count) (\<lambda>state.
     io_return (Inr (live_impl path i opts state))))))"

definition wal_fail :: "string \<Rightarrow> WalImpl \<Rightarrow> WalImpl" where
  "wal_fail reason wal = wal\<lparr>wf_failed := True, wf_failure_reason := reason\<rparr>"

definition ensure_live :: "WalImpl \<Rightarrow> unit WalResult" where
  "ensure_live wal = guard_res (wf_failed wal) (WE_failed, ''WAL is fail-stop: '' @ wf_failure_reason wal)"

fun stage_group :: "WalOptions \<Rightarrow> PersistBatch list \<Rightarrow> ValidationView \<Rightarrow> u64 \<Rightarrow> nat \<Rightarrow> (ValidationView \<times> u64 \<times> nat \<times> bytes list) WalResult" where
  "stage_group opts [] view sequence group_bytes = Inr (view, sequence, group_bytes, [])"
| "stage_group opts (b # bs) view sequence group_bytes =
     bind_res (stage opts b view) (\<lambda>view.
     bind_res (make_frame (sequence + 1) b opts) (\<lambda>frame.
     if length frame > wo_max_group_bytes opts - min (wo_max_group_bytes opts) group_bytes
     then Inl (WE_bounds_exceeded, ''WAL group exceeds configured byte bound'')
     else bind_res (stage_group opts bs view (sequence + 1) (group_bytes + length frame)) (\<lambda>(view, sequence, group_bytes, frames).
     Inr (view, sequence, group_bytes, frame # frames))))"

fun write_group :: "'w Posix \<Rightarrow> string \<Rightarrow> u64 \<Rightarrow> bytes list \<Rightarrow> (u64, 'w) io" where
  "write_group os path offset [] = io_return (Inr offset)"
| "write_group os path offset (frame # frames) =
     io_bind (native_write_exact os path offset frame) (\<lambda>_. write_group os path (offset + of_nat (length frame)) frames)"

text \<open>An I/O error in the write or the flush stops the log for good.\<close>

definition fail_stop :: "WalImpl \<Rightarrow> ('a, 'w) io \<Rightarrow> ('a \<Rightarrow> 'b \<times> WalImpl) \<Rightarrow> 'w \<Rightarrow> ('b WalResult \<times> WalImpl \<times> 'w) option" where
  "fail_stop wal m f w =
     (case m w of
        None \<Rightarrow> None
      | Some (Inl (code, message), w) \<Rightarrow> Some (Inl (code, message), if code = WE_io then wal_fail message wal else wal, w)
      | Some (Inr x, w) \<Rightarrow> (case f x of (r, wal) \<Rightarrow> Some (Inr r, wal, w)))"

text \<open>The first half of \<^verbatim>\<open>append_group\<close>, up to the first write: the checks, the staged view and the frames.\<close>

definition admit_group :: "PersistBatch list \<Rightarrow> WalImpl \<Rightarrow> (ValidationView \<times> u64 \<times> nat \<times> bytes list) WalResult" where
  "admit_group batches wal =
     (let opts = wf_options wal; state = wf_state wal in
      bind_res (ensure_live wal) (\<lambda>_.
      if batches = [] then Inl (WE_invariant_violation, ''cannot append an empty WAL group'')
      else if length batches > unat (wo_max_group_frames opts) then Inl (WE_bounds_exceeded, ''WAL group has too many frames'')
      else if length batches > unat (-1 - ws_last_frame_sequence state)
      then Inl (WE_bounds_exceeded, ''WAL frame sequence is exhausted'')
      else bind_res (stage_group opts batches (new_view state) (ws_last_frame_sequence state) 0)
        (\<lambda>(view, sequence, group_bytes, frames).
      if group_bytes > unat (-1 - ws_file_bytes state) then Inl (WE_bounds_exceeded, ''WAL file length would overflow'')
      else Inr (view, sequence, group_bytes, frames))))"

definition wal_append_group :: "'w Posix \<Rightarrow> PersistBatch list \<Rightarrow> WalImpl \<Rightarrow> 'w \<Rightarrow> (WalAppendResult WalResult \<times> WalImpl \<times> 'w) option" where
  "wal_append_group os batches wal w =
     (let state = wf_state wal;
          should_flush = (wo_flush_policy (wf_options wal) = FlushEveryAppend) in
      case admit_group batches wal of
        Inl e \<Rightarrow> Some (Inl e, wal, w)
      | Inr (view, sequence, group_bytes, frames) \<Rightarrow>
          fail_stop wal
            (io_bind (write_group os (wf_path wal) (ws_file_bytes state) frames) (\<lambda>write_offset.
             io_bind (if should_flush then native_flush os (wf_path wal) else io_return (Inr ())) (\<lambda>_.
             io_return (Inr write_offset))))
            (\<lambda>write_offset.
              (\<lparr>wa_first_frame_sequence = ws_last_frame_sequence state + 1, wa_last_frame_sequence = sequence,
                wa_durable = should_flush, wa_bytes_written = group_bytes\<rparr>,
               wal\<lparr>wf_state := (materialize view state)\<lparr>ws_last_frame_sequence := sequence, ws_file_bytes := write_offset,
                 ws_durable_frame_sequence := (if should_flush then sequence else ws_durable_frame_sequence state)\<rparr>\<rparr>)) w)"

definition wal_append :: "'w Posix \<Rightarrow> PersistBatch \<Rightarrow> WalImpl \<Rightarrow> 'w \<Rightarrow> (WalAppendResult WalResult \<times> WalImpl \<times> 'w) option" where
  "wal_append os b = wal_append_group os [b]"

definition wal_flush :: "'w Posix \<Rightarrow> WalImpl \<Rightarrow> 'w \<Rightarrow> (unit WalResult \<times> WalImpl \<times> 'w) option" where
  "wal_flush os wal w =
     (let state = wf_state wal in
      case ensure_live wal of
        Inl e \<Rightarrow> Some (Inl e, wal, w)
      | Inr _ \<Rightarrow>
          if ws_durable_frame_sequence state = ws_last_frame_sequence state then Some (Inr (), wal, w)
          else fail_stop wal (native_flush os (wf_path wal))
            (\<lambda>_. ((), wal\<lparr>wf_state := state\<lparr>ws_durable_frame_sequence := ws_last_frame_sequence state\<rparr>\<rparr>)) w)"

end
