(* ===== verification/WalDisk.thy ===== *)
theory WalDisk
  imports WalFile
begin

text \<open>
  What the write-ahead log relies on of the system calls, as a predicate on the calls and on two readings of the
  outside world, the contents of the file and what of it is on stable storage; and what the loops and actions of
  \<open>WalFile\<close> do under it. The calls may fail, be interrupted and move only some of the bytes at any time.
\<close>

section \<open>The contract of the system calls\<close>

record 'w Disk =
  dk_contents :: "'w \<Rightarrow> bytes"
  dk_stable :: "'w \<Rightarrow> bytes"
  dk_patience :: "'w \<Rightarrow> nat"

text \<open>The first \<open>n\<close> bytes of the file are on stable storage.\<close>

definition stable_to :: "'w Disk \<Rightarrow> nat \<Rightarrow> 'w \<Rightarrow> bool" where
  "stable_to d n w \<longleftrightarrow> n \<le> length (dk_contents d w) \<and> take n (dk_stable d w) = take n (dk_contents d w)"

text \<open>A call that keeps the first \<open>m\<close> bytes: it leaves them as they are, in the file and on stable storage.\<close>

definition keeps_to :: "'w Disk \<Rightarrow> nat \<Rightarrow> 'w \<Rightarrow> 'w \<Rightarrow> bool" where
  "keeps_to d m w w' \<longleftrightarrow> take m (dk_contents d w') = take m (dk_contents d w) \<and>
     (\<forall>n. n \<le> m \<and> stable_to d n w \<longrightarrow> stable_to d n w')"

definition keeps_file :: "'w Disk \<Rightarrow> 'w \<Rightarrow> 'w \<Rightarrow> bool" where
  "keeps_file d w w' \<longleftrightarrow> dk_contents d w' = dk_contents d w \<and> (\<forall>n. stable_to d n w \<longrightarrow> stable_to d n w')"

text \<open>Reads and calls on the file as a whole. \<^verbatim>\<open>open\<close> with \<^verbatim>\<open>O_EXCL\<close> succeeds only when there is no file yet.\<close>

definition reads_ok :: "'w Posix \<Rightarrow> 'w Disk \<Rightarrow> bool" where
  "reads_ok os d \<longleftrightarrow>
     (\<forall>w r w'. px_open_excl os w = (r, w') \<longrightarrow> keeps_file d w w' \<and> (r = Inr () \<longrightarrow> dk_contents d w = [])) \<and>
     (\<forall>w r w'. px_open os w = (r, w') \<longrightarrow> keeps_file d w w') \<and>
     (\<forall>w r w'. px_fstat os w = (r, w') \<longrightarrow> keeps_file d w w' \<and>
        (\<forall>n. r = Inr n \<longrightarrow> n = int (length (dk_contents d w)) \<and> length (dk_contents d w) \<le> off_t_max)) \<and>
     (\<forall>offset n w r w'. px_pread os offset n w = (r, w') \<longrightarrow> keeps_file d w w' \<and>
        (r = Inl EINTR \<longrightarrow> dk_patience d w' < dk_patience d w) \<and>
        (\<forall>bs. r = Inr bs \<longrightarrow> length bs \<le> n \<and> bs = take (length bs) (drop offset (dk_contents d w))))"

text \<open>Writes: at an offset within the file, they change no byte before it; a failed one may leave anything after it,
  except that an interrupted one has written nothing.\<close>

definition writes_ok :: "'w Posix \<Rightarrow> 'w Disk \<Rightarrow> bool" where
  "writes_ok os d \<longleftrightarrow>
     (\<forall>offset bs w r w'. px_pwrite os offset bs w = (r, w') \<and> offset \<le> length (dk_contents d w) \<longrightarrow> keeps_to d offset w w' \<and>
        (r = Inl EINTR \<longrightarrow> keeps_file d w w' \<and> dk_patience d w' < dk_patience d w) \<and>
        (\<forall>k. r = Inr k \<longrightarrow> k \<le> length bs \<and>
           dk_contents d w' = take offset (dk_contents d w) @ take k bs @ drop (offset + k) (dk_contents d w)))"

text \<open>\<^verbatim>\<open>fsync\<close>, on the file and on its directory, and \<^verbatim>\<open>ftruncate\<close>.\<close>

definition syncs_ok :: "'w Posix \<Rightarrow> 'w Disk \<Rightarrow> bool" where
  "syncs_ok os d \<longleftrightarrow>
     (\<forall>w r w'. px_fsync os w = (r, w') \<longrightarrow> keeps_file d w w' \<and> (r = Inr () \<longrightarrow> stable_to d (length (dk_contents d w)) w')) \<and>
     (\<forall>n w r w'. px_ftruncate os n w = (r, w') \<and> n \<le> length (dk_contents d w) \<longrightarrow> keeps_to d n w w' \<and>
        (r = Inr () \<longrightarrow> dk_contents d w' = take n (dk_contents d w))) \<and>
     (\<forall>path w r w'. px_open_directory os path w = (r, w') \<longrightarrow> keeps_file d w w') \<and>
     (\<forall>w r w'. px_fsync_directory os w = (r, w') \<longrightarrow> keeps_file d w w') \<and>
     (\<forall>w. keeps_file d w (px_close_directory os w))"

definition posix_ok :: "'w Posix \<Rightarrow> 'w Disk \<Rightarrow> bool" where
  "posix_ok os d \<longleftrightarrow> reads_ok os d \<and> writes_ok os d \<and> syncs_ok os d"

lemma keeps_file_refl [simp]: "keeps_file d w w"
  by (simp add: keeps_file_def)

lemma keeps_file_trans [trans]: "keeps_file d u v \<Longrightarrow> keeps_file d v w \<Longrightarrow> keeps_file d u w"
  by (simp add: keeps_file_def)

lemma keeps_to_refl [simp]: "keeps_to d m w w"
  by (simp add: keeps_to_def)

lemma keeps_to_trans [trans]: "keeps_to d m u v \<Longrightarrow> keeps_to d m v w \<Longrightarrow> keeps_to d m u w"
  by (simp add: keeps_to_def)

lemma keeps_file_to: "keeps_file d w w' \<Longrightarrow> keeps_to d m w w'"
  by (simp add: keeps_file_def keeps_to_def)

lemma keeps_to_mono: "keeps_to d m w w' \<Longrightarrow> n \<le> m \<Longrightarrow> keeps_to d n w w'"
  unfolding keeps_to_def by (metis le_trans min.absorb1 take_take)

lemma stable_to_mono: "stable_to d m w \<Longrightarrow> n \<le> m \<Longrightarrow> stable_to d n w"
  unfolding stable_to_def by (metis le_trans min.absorb1 take_take)

lemma keeps_file_contents: "keeps_file d w w' \<Longrightarrow> dk_contents d w' = dk_contents d w"
  by (simp add: keeps_file_def)

section \<open>Reading\<close>

lemma unat_add_of_nat:
  assumes "unat offset + n < 18446744073709551616"
  shows "unat (offset + of_nat n :: u64) = unat offset + n"
proof -
  have "unat (of_nat n :: u64) = n" using assms by (intro unat_of_nat64) simp
  then show ?thesis using unat_add_lem [of offset "of_nat n"] assms by simp
qed

text \<open>An action that keeps the file returns, with the value expected of the contents or with an I/O error.\<close>

definition observes :: "'w Disk \<Rightarrow> ('a, 'w) io \<Rightarrow> 'a WalResult \<Rightarrow> 'w \<Rightarrow> bool" where
  "observes d m v w \<longleftrightarrow> (\<exists>r w'. m w = Some (r, w') \<and> keeps_file d w w' \<and> (r = v \<or> (\<exists>msg. r = Inl (WE_io, msg))))"

lemma observes_return [simp]: "observes d (io_return v) v w"
  by (simp add: observes_def io_return_def)

lemma observes_bind:
  assumes m: "observes d m v w"
    and f: "\<And>x w'. v = Inr x \<Longrightarrow> keeps_file d w w' \<Longrightarrow> observes d (f x) (g x) w'"
  shows "observes d (io_bind m f) (bind_res v g) w"
proof -
  obtain r w' where r: "m w = Some (r, w')" "keeps_file d w w'" "r = v \<or> (\<exists>msg. r = Inl (WE_io, msg))"
    using m by (auto simp: observes_def)
  show ?thesis
  proof (cases r)
    case (Inl e)
    with r show ?thesis by (auto simp: observes_def io_bind_def bind_res_def)
  next
    case (Inr x)
    then have v: "v = Inr x" using r(3) by auto
    obtain r' w'' where "f x w' = Some (r', w'')" "keeps_file d w' w''" "r' = g x \<or> (\<exists>msg. r' = Inl (WE_io, msg))"
      using f [OF v r(2)] by (auto simp: observes_def)
    with r(1,2) Inr v show ?thesis by (auto simp: observes_def io_bind_def bind_res_def intro: keeps_file_trans)
  qed
qed

lemma read_loop_observes:
  assumes os: "reads_ok os d"
  shows "unat offset + n \<le> length (dk_contents d w) \<Longrightarrow> length (dk_contents d w) \<le> off_t_max \<Longrightarrow> length bs \<le> n \<Longrightarrow>
    bs = take (length bs) (drop (unat offset) (dk_contents d w)) \<Longrightarrow>
    observes d (read_loop os path offset n bs) (Inr (take n (drop (unat offset) (dk_contents d w)))) w"
proof (induction "(n - length bs, dk_patience d w)" arbitrary: bs w rule: wf_induct_rule [OF wf_lex_prod [OF wf_less wf_less]])
  case (1 bs w)
  let ?c = "dk_contents d w" and ?o = "offset + of_nat (length bs)"
  show ?case
  proof (cases "length bs < n")
    case False
    with 1(4,5) show ?thesis by (simp add: observes_def read_loop.simps)
  next
    case True
    have pos: "unat ?o = unat offset + length bs"
      using 1(2,3) True by (intro unat_add_of_nat) (simp add: off_t_max_def)
    obtain r w' where p: "px_pread os (unat ?o) (min (n - length bs) ssize_t_max) w = (r, w')" by fastforce
    note ok = os [unfolded reads_ok_def, THEN conjunct2, THEN conjunct2, THEN conjunct2, rule_format, OF p]
    have small: "\<not> unat ?o > off_t_max" using pos 1(2,3) True by simp
    show ?thesis
    proof (cases r)
      case (Inl e)
      show ?thesis
      proof (cases "e = EINTR")
        case eintr: True
        have k: "keeps_file d w w'" "dk_patience d w' < dk_patience d w" using ok Inl eintr by simp_all
        have "observes d (read_loop os path offset n bs) (Inr (take n (drop (unat offset) ?c))) w'"
          using 1(1) [of bs w'] 1(2-5) k by (simp add: keeps_file_def)
        then show ?thesis using k(1) True p Inl eintr small
          by (auto simp: observes_def read_loop.simps [of os path offset n bs w] Let_def intro: keeps_file_trans)
      next
        case False
        with True p Inl small ok show ?thesis by (simp add: observes_def read_loop.simps Let_def)
      qed
    next
      case (Inr new)
      have k: "keeps_file d w w'" "length new \<le> n - length bs" "new = take (length new) (drop (unat ?o) ?c)"
        using ok Inr by auto
      show ?thesis
      proof (cases "new = []")
        case True
        with \<open>length bs < n\<close> p Inr small k(1) show ?thesis by (simp add: observes_def read_loop.simps Let_def)
      next
        case False
        have c: "dk_contents d w' = ?c" by (rule keeps_file_contents [OF k(1)])
        have len: "length (bs @ new) \<le> n" "n - length (bs @ new) < n - length bs" using k(2) True False by (cases new; simp)+
        have "drop (length bs) (drop (unat offset) ?c) = drop (unat ?o) ?c" by (simp add: pos add.commute)
        then have new: "bs @ new = take (length (bs @ new)) (drop (unat offset) ?c)"
          using 1(5) k(3) by (metis length_append take_add)
        have "observes d (read_loop os path offset n (bs @ new)) (Inr (take n (drop (unat offset) (dk_contents d w')))) w'"
          by (rule 1(1)) (use 1(2,3) len new in \<open>simp_all only: c in_lex_prod mem_Collect_eq case_prod_conv, simp_all\<close>)
        then have "observes d (read_loop os path offset n (bs @ new)) (Inr (take n (drop (unat offset) ?c))) w'" by (simp only: c)
        then show ?thesis using k(1) True False p Inr small
          by (auto simp: observes_def read_loop.simps [of os path offset n bs w] Let_def intro: keeps_file_trans)
      qed
    qed
  qed
qed

lemma read_exact_observes:
  assumes "reads_ok os d" and "length (dk_contents d w) \<le> off_t_max" and "unat offset + n \<le> length (dk_contents d w)"
  shows "observes d (native_read_exact os path offset n) (read_memory (dk_contents d w) offset n) w"
  using read_loop_observes [OF assms(1,3,2), of "[]" path] assms(3) by (simp add: native_read_exact_def read_memory_eq)

text \<open>The scan of a file sees what the scan of its contents sees.\<close>

abbreviation faithful :: "'w Disk \<Rightarrow> bytes \<Rightarrow> (u64 \<Rightarrow> nat \<Rightarrow> (bytes, 'w) io) \<Rightarrow> bool" where
  "faithful d c rd \<equiv> \<forall>offset n w. dk_contents d w = c \<and> unat offset + n \<le> length c \<longrightarrow> observes d (rd offset n) (read_memory c offset n) w"

lemma observes_if:
  assumes "P \<Longrightarrow> observes d m v w" and "\<not> P \<Longrightarrow> observes d m' v' w"
  shows "observes d (\<lambda>w. if P then m w else m' w) (if P then v else v') w"
  using assms by (simp add: observes_def)

lemma observes_case:
  assumes "\<And>e. x = Inl e \<Longrightarrow> observes d (f e) (f' e) w" and "\<And>y. x = Inr y \<Longrightarrow> observes d (g y) (g' y) w"
  shows "observes d (\<lambda>w. case x of Inl e \<Rightarrow> f e w | Inr y \<Rightarrow> g y w) (case x of Inl e \<Rightarrow> f' e | Inr y \<Rightarrow> g' y) w"
  using assms by (cases x) simp_all

lemma scan_file_observes:
  assumes rd: "faithful d c rd" and len: "length c < 18446744073709551616"
  shows "dk_contents d w = c \<Longrightarrow> observes d (scan_file rd (of_nat (length c)) opts result offset) (scan_mem c opts result offset) w"
proof (induction "unat (of_nat (length c) :: u64) - unat offset" arbitrary: offset result w rule: less_induct)
  case less
  let ?n = "of_nat (length c) :: u64"
  have n: "unat ?n = length c" using len by simp
  have o: "unat offset < length c \<and> unat (?n - offset) = length c - unat offset" if "offset < ?n"
    using n that by (simp add: word_less_nat_alt unat_sub less_imp_le)
  have frame: "unat offset + unat (fh_frame_size h) \<le> length c"
      "unat ?n - unat (offset + fh_frame_size h) < unat ?n - unat offset"
    if "offset < ?n" "rethrow_at offset (parse_frame_header hb opts) = Inr h" "\<not> fh_frame_size h > ?n - offset" for h hb
  proof -
    have "80 \<le> unat (fh_frame_size h)" using that(2) parse_frame_header_sizes(1) [of hb opts h] by (simp add: wal_sizes)
    moreover have "fh_frame_size h \<le> ?n - offset" using that(3) by simp
    ultimately have pr: "unat ?n - unat (offset + fh_frame_size h) < unat ?n - unat offset"
        "unat (offset + fh_frame_size h) = unat offset + unat (fh_frame_size h)" "offset + fh_frame_size h \<le> ?n"
      using scan_progress [OF that(1)] by blast+
    from pr(2,3) n show "unat offset + unat (fh_frame_size h) \<le> length c" by (simp add: word_le_nat_alt)
    from pr(1) show "unat ?n - unat (offset + fh_frame_size h) < unat ?n - unat offset" .
  qed
  have read: "observes d (rd offset k) (read_memory c offset k) v" if "keeps_file d w v" "unat offset + k \<le> length c" for k v
    using rd that less(2) keeps_file_contents by metis
  have "observes d (\<lambda>w. scan_file rd ?n opts result offset w) (scan_mem c opts result offset) w"
    by (subst scan_file.simps, subst scan_frames.simps, unfold Let_def,
        intro observes_if observes_return observes_bind observes_case less(1) read)
       (use o frame less(2) in \<open>auto simp: keeps_file_def\<close>)
  then show ?case by simp
qed

section \<open>Writing\<close>

text \<open>An action that adds \<open>bs\<close> at the end of the file returns; it keeps what was there, and it has added all of \<open>bs\<close>
  unless it fails with an I/O error.\<close>

definition extends :: "'w Disk \<Rightarrow> bytes \<Rightarrow> bytes \<Rightarrow> ('a, 'w) io \<Rightarrow> 'a \<Rightarrow> 'w \<Rightarrow> bool" where
  "extends d base bs m x w \<longleftrightarrow> (\<exists>r w'. m w = Some (r, w') \<and> keeps_to d (length base) w w' \<and>
     (r = Inr x \<and> dk_contents d w' = base @ bs \<or> (\<exists>msg. r = Inl (WE_io, msg))))"

lemma write_loop_extends:
  assumes os: "writes_ok os d" and fits: "length base + length bs < 18446744073709551616"
  shows "dk_contents d w = base @ take k bs \<Longrightarrow> k \<le> length bs \<Longrightarrow>
    extends d base bs (write_loop os path (of_nat (length base)) bs k) () w"
proof (induction "(length bs - k, dk_patience d w)" arbitrary: k w rule: wf_induct_rule [OF wf_lex_prod [OF wf_less wf_less]])
  case (1 k w)
  let ?o = "of_nat (length base) + of_nat k :: u64"
  let ?chunk = "take (min (length bs - k) ssize_t_max) (drop k bs)"
  note unfold = write_loop.simps [of os path "of_nat (length base)" bs k w]
  show ?case
  proof (cases "k < length bs \<and> \<not> unat ?o > off_t_max")
    case False
    with 1(2,3) unfold show ?thesis by (auto simp: extends_def Let_def)
  next
    case True
    have pos: "unat ?o = length base + k" using fits 1(3) by (subst unat_add_of_nat) simp_all
    have at: "unat ?o = length (dk_contents d w)" using pos 1(2,3) by simp
    obtain r w' where p: "px_pwrite os (unat ?o) ?chunk w = (r, w')" by fastforce
    have ok: "keeps_to d (unat ?o) w w'" "r = Inl EINTR \<Longrightarrow> keeps_file d w w' \<and> dk_patience d w' < dk_patience d w"
        "\<And>j. r = Inr j \<Longrightarrow> j \<le> length ?chunk \<and> dk_contents d w' = dk_contents d w @ take j ?chunk"
      using os p at unfolding writes_ok_def by (metis order_refl, metis order_refl, metis append_Nil2 drop_all le_add1 order_refl take_all)
    have keep: "keeps_to d (length base) w w'" using keeps_to_mono [OF ok(1)] pos by simp
    have cont: ?thesis if "extends d base bs (write_loop os path (of_nat (length base)) bs j) () w'"
        "write_loop os path (of_nat (length base)) bs k w = write_loop os path (of_nat (length base)) bs j w'" for j
      using that keeps_to_trans [OF keep] unfolding extends_def by auto
    show ?thesis
    proof (cases r)
      case (Inl e)
      show ?thesis
      proof (cases "e = EINTR")
        case eintr: True
        then have w': "dk_contents d w' = dk_contents d w" "dk_patience d w' < dk_patience d w" using ok(2) Inl by (auto simp: keeps_file_def)
        show ?thesis
        proof (rule cont [of k])
          show "extends d base bs (write_loop os path (of_nat (length base)) bs k) () w'" by (rule 1(1)) (use w' 1(2,3) in simp_all)
          show "write_loop os path (of_nat (length base)) bs k w = write_loop os path (of_nat (length base)) bs k w'"
            using unfold True p Inl eintr by (simp add: Let_def)
        qed
      next
        case False
        with unfold True p Inl keep show ?thesis by (simp add: extends_def Let_def)
      qed
    next
      case (Inr j)
      show ?thesis
      proof (cases "j = 0")
        case True
        with unfold \<open>k < length bs \<and> _\<close> p Inr keep show ?thesis by (simp add: extends_def Let_def)
      next
        case False
        have j: "j \<le> length bs - k" "j \<le> ssize_t_max" using ok(3) [OF Inr] by simp_all
        then have "dk_contents d w' = base @ take (k + j) bs" using ok(3) [OF Inr] 1(2) by (simp add: take_add)
        show ?thesis
        proof (rule cont [of "k + j"])
          show "extends d base bs (write_loop os path (of_nat (length base)) bs (k + j)) () w'"
            by (rule 1(1)) (use \<open>dk_contents d w' = _\<close> j True False in auto)
          show "write_loop os path (of_nat (length base)) bs k w = write_loop os path (of_nat (length base)) bs (k + j) w'"
            using unfold True False p Inr by (simp add: Let_def)
        qed
      qed
    qed
  qed
qed

lemma extends_bind:
  assumes "extends d base as m x w" and "\<And>w'. dk_contents d w' = base @ as \<Longrightarrow> extends d (base @ as) bs (f x) y w'"
  shows "extends d base (as @ bs) (io_bind m f) y w"
proof -
  obtain r w' where r: "m w = Some (r, w')" "keeps_to d (length base) w w'"
      "r = Inr x \<and> dk_contents d w' = base @ as \<or> (\<exists>msg. r = Inl (WE_io, msg))"
    using assms(1) unfolding extends_def by blast
  from r(3) show ?thesis
  proof
    assume a: "r = Inr x \<and> dk_contents d w' = base @ as"
    then obtain r' w'' where "f x w' = Some (r', w'')" "keeps_to d (length (base @ as)) w' w''"
        "r' = Inr y \<and> dk_contents d w'' = (base @ as) @ bs \<or> (\<exists>msg. r' = Inl (WE_io, msg))"
      using assms(2) unfolding extends_def by blast
    moreover have "keeps_to d (length base) w w''"
      using keeps_to_trans [OF r(2) keeps_to_mono [OF calculation(2)]] by simp
    ultimately show ?thesis using r(1) a by (simp add: extends_def io_bind_def)
  qed (use r in \<open>auto simp: extends_def io_bind_def\<close>)
qed

lemma write_group_extends:
  assumes os: "writes_ok os d"
  shows "dk_contents d w = base \<Longrightarrow> length base + length (concat frames) < 18446744073709551616 \<Longrightarrow>
    extends d base (concat frames) (write_group os path (of_nat (length base)) frames) (of_nat (length (base @ concat frames))) w"
proof (induction frames arbitrary: base w)
  case Nil
  then show ?case by (simp add: extends_def io_return_def)
next
  case (Cons f fs)
  have "extends d base f (native_write_exact os path (of_nat (length base)) f) () w"
    using write_loop_extends [OF os, of base f w 0 path] Cons.prems by (simp add: native_write_exact_def)
  moreover have "extends d (base @ f) (concat fs) (write_group os path (of_nat (length base) + of_nat (length f)) fs)
      (of_nat (length (base @ concat (f # fs)))) w'" if "dk_contents d w' = base @ f" for w'
    using Cons.IH [of w' "base @ f"] Cons.prems that by (simp add: add.assoc)
  ultimately show ?case by (simp add: extends_bind)
qed

end
