(* ===== verification/WalDurable.thy ===== *)
theory WalDurable
  imports WalDisk
begin

text \<open>
  The write-ahead log over a file: what the class \<^verbatim>\<open>Wal\<close> keeps true of the file under the contract of the system
  calls. A call always returns; the file holds exactly the frames of the state it reports; frames reported durable are
  on stable storage and stay there; after an I/O error the log refuses further work.
\<close>

section \<open>The invariant of an open log\<close>

text \<open>The state without the two fields that do not come from the frames.\<close>

definition plain :: "WalState \<Rightarrow> WalState" where
  "plain s = s\<lparr>ws_durable_frame_sequence := 0, ws_repaired_incomplete_tail := False\<rparr>"

definition wal_bytes :: "WalImpl \<Rightarrow> nat" where
  "wal_bytes wal = unat (ws_file_bytes (wf_state wal))"

text \<open>The frames up to the number \<open>q\<close> are a prefix of the file that is on stable storage.\<close>

definition durable_frames :: "'w Disk \<Rightarrow> WalImpl \<Rightarrow> u64 \<Rightarrow> 'w \<Rightarrow> bool" where
  "durable_frames d wal q w \<longleftrightarrow> (\<exists>m s. m \<le> wal_bytes wal \<and> stable_to d m w \<and>
     image_of (wf_identity wal) (wf_options wal) (take m (dk_contents d w)) s \<and> ws_last_frame_sequence s = q)"

definition file_holds :: "'w Disk \<Rightarrow> WalImpl \<Rightarrow> 'w \<Rightarrow> bool" where
  "file_holds d wal w \<longleftrightarrow> wal_bytes wal \<le> length (dk_contents d w) \<and>
     (\<not> wf_failed wal \<longrightarrow> length (dk_contents d w) = wal_bytes wal) \<and>
     image_of (wf_identity wal) (wf_options wal) (take (wal_bytes wal) (dk_contents d w)) (plain (wf_state wal))"

definition wal_inv :: "'w Disk \<Rightarrow> WalImpl \<Rightarrow> 'w \<Rightarrow> bool" where
  "wal_inv d wal w \<longleftrightarrow> file_holds d wal w \<and> durable_frames d wal (ws_durable_frame_sequence (wf_state wal)) w"

lemma image_fields:
  assumes "image_of i opts bs s"
  shows "validate_options opts = Inr ()" "length bs < 18446744073709551616" "ws_file_bytes s = of_nat (length bs)"
    "unat (ws_file_bytes s) = length bs" "ws_durable_frame_sequence s = 0" "\<not> ws_repaired_incomplete_tail s"
    "wal_log_wf opts (wal_log s)" "scan_inv opts (scan_of s) (of_nat (length bs))"
  using assms by (auto simp: image_of_def scan_inv_def)

lemma plain_eqI:
  assumes "wal_log a = wal_log b" and "ws_last_frame_sequence a = ws_last_frame_sequence b" and "ws_file_bytes a = ws_file_bytes b"
    and "ws_durable_frame_sequence b = 0" and "\<not> ws_repaired_incomplete_tail b"
  shows "plain a = b"
  using assms by (simp add: plain_def wal_log_def)

lemma plain_simps [simp]:
  "wal_log (plain s) = wal_log s" "ws_last_frame_sequence (plain s) = ws_last_frame_sequence s"
  "ws_file_bytes (plain s) = ws_file_bytes s" "new_view (plain s) = new_view s" "ws_entries (plain s) = ws_entries s"
  by (simp_all add: plain_def new_view_def)

lemma empty_wal_plain:
  "plain empty_wal_state = empty_wal_state" "ws_durable_frame_sequence empty_wal_state = ws_last_frame_sequence empty_wal_state"
  by (simp_all add: plain_def empty_wal_state_def initial_wal_state_def)

text \<open>What a failed call does to the file leaves the invariant of the log as it was before the call.\<close>

lemma durable_frames_kept:
  assumes "durable_frames d wal q w" and "keeps_to d (wal_bytes wal) w w'" and "wal_bytes wal \<le> wal_bytes wal'"
    and "wf_identity wal' = wf_identity wal" "wf_options wal' = wf_options wal"
  shows "durable_frames d wal' q w'"
proof -
  obtain m s where m: "m \<le> wal_bytes wal" "stable_to d m w" "ws_last_frame_sequence s = q"
      "image_of (wf_identity wal) (wf_options wal) (take m (dk_contents d w)) s"
    using assms(1) by (auto simp: durable_frames_def)
  have "keeps_to d m w w'" by (rule keeps_to_mono [OF assms(2) m(1)])
  then have "stable_to d m w'" "take m (dk_contents d w') = take m (dk_contents d w)" using m(2) by (simp_all add: keeps_to_def)
  with m assms(3-5) show ?thesis unfolding durable_frames_def by (intro exI [of _ m] exI [of _ s]) simp
qed

lemma failed_inv:
  assumes "wal_inv d wal w" and k: "keeps_to d (wal_bytes wal) w w'"
  shows "wal_inv d (wal_fail msg wal) w'"
proof -
  have same: "wal_bytes (wal_fail msg wal) = wal_bytes wal" by (simp add: wal_bytes_def wal_fail_def)
  have t: "take (wal_bytes wal) (dk_contents d w') = take (wal_bytes wal) (dk_contents d w)" using k by (simp add: keeps_to_def)
  moreover have "wal_bytes wal \<le> length (dk_contents d w)" using assms(1) by (simp add: wal_inv_def file_holds_def)
  ultimately have "wal_bytes wal \<le> length (dk_contents d w')" by (metis length_take min.absorb2 min.absorb_iff2)
  with t same assms(1) have "file_holds d (wal_fail msg wal) w'" by (simp add: wal_inv_def file_holds_def wal_fail_def)
  moreover have "durable_frames d (wal_fail msg wal) (ws_durable_frame_sequence (wf_state wal)) w'"
    by (rule durable_frames_kept [OF _ k]) (use same assms(1) in \<open>simp_all add: wal_inv_def wal_fail_def\<close>)
  ultimately show ?thesis by (simp add: wal_inv_def wal_fail_def)
qed

section \<open>Appending\<close>

lemma stage_group_frames:
  "image_of i opts bs s \<Longrightarrow> view_wf v \<Longrightarrow> view_log v = wal_log s \<Longrightarrow>
   stage_group opts batches v (ws_last_frame_sequence s) g = Inr (v', q, g', frames) \<Longrightarrow>
   length bs + length (concat frames) < 18446744073709551616 \<Longrightarrow>
   \<exists>s'. write_frames opts batches (bs, s) = Inr (bs @ concat frames, s') \<and> image_of i opts (bs @ concat frames) s' \<and>
     view_log v' = wal_log s' \<and> vv_base_entries v' = vv_base_entries v \<and> q = ws_last_frame_sequence s' \<and>
     wal_log s' = fold batch_effect batches (wal_log s)"
proof (induction batches arbitrary: bs s v g v' q g' frames)
  case Nil
  then show ?case by simp
next
  case (Cons b batches)
  note im = image_fields [OF Cons.prems(1)]
  obtain v1 f fs where st: "stage opts b v = Inr v1" and f: "make_frame (ws_last_frame_sequence s + 1) b opts = Inr f"
    and rest: "stage_group opts batches v1 (ws_last_frame_sequence s + 1) (g + length f) = Inr (v', q, g', fs)" and frames: "frames = f # fs"
    using Cons.prems(4) by (auto simp: bind_res_eq_Inr split: if_splits)
  note v1 = stage_iff(1) [OF Cons.prems(2) im(1) st]
  have fi: "72 + length (payload_image b) \<le> wo_max_frame_bytes opts" "f = frame_image (frame_for s b) (payload_image b)"
    using f by (simp_all add: make_frame_iff)
  have "encode_wal_frame s b opts = Inr \<lparr>wf_bytes = f, wf_state_after = written_state b f s\<rparr>"
    using scan_inv_encode [OF im(8,1), of b] v1 fi next_frame_for [OF im(1), of s b] Cons.prems(3,5) im(2) frames
    by (simp del: frame_lengths)
  moreover from this have "image_of i opts (bs @ f) (written_state b f s)" using image_frame(1) [OF Cons.prems(1)] by fastforce
  moreover have "wal_log (written_state b f s) = batch_effect b (wal_log s)" by (simp add: written_state_def)
  moreover have "ws_last_frame_sequence (written_state b f s) = ws_last_frame_sequence s + 1" by (simp add: written_state_def)
  ultimately show ?case
    using Cons.IH [of "bs @ f" "written_state b f s" v1 "g + length f" v' q g' fs] v1 Cons.prems(3,5) rest frames by auto
qed

lemma stage_group_bytes:
  "stage_group opts batches v q0 g = Inr (v', q, g', frames) \<Longrightarrow> g' = g + length (concat frames)"
  by (induction batches arbitrary: v q0 g frames) (fastforce simp: bind_res_eq_Inr split: if_splits)+

text \<open>The write of a group and its flush.\<close>

lemma group_written:
  assumes os: "posix_ok os d" and base: "dk_contents d w = base" and fits: "length base + length (concat frames) < 18446744073709551616"
  obtains r w' where
    "io_bind (write_group os path (of_nat (length base)) frames) (\<lambda>write_offset.
       io_bind (if flush then native_flush os path else io_return (Inr ())) (\<lambda>_. io_return (Inr write_offset))) w = Some (r, w')"
    "keeps_to d (length base) w w'"
    "(\<exists>msg. r = Inl (WE_io, msg)) \<or> r = Inr (of_nat (length (base @ concat frames))) \<and> dk_contents d w' = base @ concat frames \<and>
       (flush \<longrightarrow> stable_to d (length (base @ concat frames)) w')"
proof -
  have ok: "writes_ok os d" "syncs_ok os d" using os by (simp_all add: posix_ok_def)
  obtain r w1 where w1: "write_group os path (of_nat (length base)) frames w = Some (r, w1)" "keeps_to d (length base) w w1"
      "r = Inr (of_nat (length (base @ concat frames))) \<and> dk_contents d w1 = base @ concat frames \<or> (\<exists>msg. r = Inl (WE_io, msg))"
    using write_group_extends [OF ok(1) base fits, of path] unfolding extends_def by blast
  show ?thesis
  proof (cases r)
    case (Inl e)
    with w1 show ?thesis by (intro that [of r w1]) (auto simp: io_bind_def)
  next
    case (Inr off)
    show ?thesis
    proof (cases flush)
      case False
      with w1 Inr show ?thesis by (intro that [of r w1]) (auto simp: io_bind_def io_return_def)
    next
      case True
      obtain r2 w2 where w2: "px_fsync os w1 = (r2, w2)" by fastforce
      then have k: "keeps_file d w1 w2" "r2 = Inr () \<Longrightarrow> stable_to d (length (dk_contents d w1)) w2"
        using ok(2) unfolding syncs_ok_def by blast+
      have "keeps_to d (length base) w w2" by (rule keeps_to_trans [OF w1(2) keeps_file_to [OF k(1)]])
      with w1 w2 k Inr True show ?thesis
        by (cases r2) (auto intro!: that simp: io_bind_def io_return_def native_flush_def io_call_def keeps_file_def)
    qed
  qed
qed

lemma ensure_live_Inr [simp]: "ensure_live wal = Inr u \<longleftrightarrow> \<not> wf_failed wal"
  by (simp add: ensure_live_def guard_res_def)

text \<open>The state a successful append leaves, when the file has grown by its frames.\<close>

lemma appended_inv:
  assumes inv: "wal_inv d wal w" and live: "\<not> wf_failed wal"
    and im: "image_of (wf_identity wal) (wf_options wal) (dk_contents d w') (plain s)" and ext: "keeps_to d (wal_bytes wal) w w'"
    and grows: "wal_bytes wal \<le> length (dk_contents d w')"
    and durable: "ws_durable_frame_sequence s = ws_last_frame_sequence s \<and> stable_to d (length (dk_contents d w')) w' \<or>
      ws_durable_frame_sequence s = ws_durable_frame_sequence (wf_state wal)"
  shows "wal_inv d (wal\<lparr>wf_state := s\<rparr>) w'"
proof -
  let ?wal = "wal\<lparr>wf_state := s\<rparr>"
  have n: "wal_bytes ?wal = length (dk_contents d w')" using image_fields(4) [OF im] by (simp add: wal_bytes_def)
  have "durable_frames d ?wal (ws_durable_frame_sequence s) w'"
    using durable
  proof
    assume "ws_durable_frame_sequence s = ws_last_frame_sequence s \<and> stable_to d (length (dk_contents d w')) w'"
    with im n show ?thesis unfolding durable_frames_def
      by (intro exI [of _ "length (dk_contents d w')"] exI [of _ "plain s"]) simp
  next
    assume "ws_durable_frame_sequence s = ws_durable_frame_sequence (wf_state wal)"
    then show ?thesis by (simp, intro durable_frames_kept [OF _ ext]) (use inv n grows in \<open>simp_all add: wal_inv_def\<close>)
  qed
  with n im live show ?thesis by (simp add: wal_inv_def file_holds_def)
qed

text \<open>What the checks before the first write establish.\<close>

lemma admitted:
  assumes inv: "wal_inv d wal w" and ad: "admit_group batches wal = Inr (v, q, g, frames)"
  shows "\<not> wf_failed wal \<and> batches \<noteq> []" "wal_bytes wal = length (dk_contents d w) \<and> ws_file_bytes (wf_state wal) = of_nat (length (dk_contents d w))"
    "length (dk_contents d w) + length (concat frames) < 18446744073709551616" "g = length (concat frames)"
    "\<exists>s'. write_frames (wf_options wal) batches (dk_contents d w, plain (wf_state wal)) = Inr (dk_contents d w @ concat frames, s') \<and>
       image_of (wf_identity wal) (wf_options wal) (dk_contents d w @ concat frames) s' \<and>
       wal_log s' = fold batch_effect batches (wal_log (wf_state wal)) \<and>
       (\<forall>durable. plain ((materialize v (wf_state wal))\<lparr>ws_last_frame_sequence := q,
          ws_file_bytes := of_nat (length (dk_contents d w @ concat frames)), ws_durable_frame_sequence := durable\<rparr>) = s')"
proof -
  let ?s = "wf_state wal" and ?c = "dk_contents d w" and ?opts = "wf_options wal"
  have a: "\<not> wf_failed wal" "batches \<noteq> []" "stage_group ?opts batches (new_view ?s) (ws_last_frame_sequence ?s) 0 = Inr (v, q, g, frames)"
      "g \<le> unat (-1 - ws_file_bytes ?s)"
    using ad by (auto simp: admit_group_def bind_res_eq_Inr Let_def not_less split: if_splits)
  then show "\<not> wf_failed wal \<and> batches \<noteq> []" by simp
  have im: "image_of (wf_identity wal) ?opts ?c (plain ?s)"
    using inv a(1) unfolding wal_inv_def file_holds_def by (metis order_refl take_all)
  note f = image_fields [OF im]
  show n: "wal_bytes wal = length ?c \<and> ws_file_bytes ?s = of_nat (length ?c)" using f(3,4) by (simp add: wal_bytes_def)
  show g: "g = length (concat frames)" using stage_group_bytes [OF a(3)] by simp
  have "unat (-1 - ws_file_bytes ?s) = 18446744073709551615 - length ?c"
    using f(4) by (simp add: unat_sub)
  with a(4) g f(2) show fits: "length ?c + length (concat frames) < 18446744073709551616" by linarith
  have "view_wf (new_view ?s)" using new_view_wf wal_log_wf_length [OF f(7,1)] by simp
  then obtain s' where s': "write_frames ?opts batches (?c, plain ?s) = Inr (?c @ concat frames, s')"
      "image_of (wf_identity wal) ?opts (?c @ concat frames) s'" "view_log v = wal_log s'"
      "vv_base_entries v = vv_base_entries (new_view ?s)" "q = ws_last_frame_sequence s'"
      "wal_log s' = fold batch_effect batches (wal_log ?s)"
    using stage_group_frames [OF im, of "new_view ?s" batches 0 v q g frames] a(3) fits by auto
  have log: "wal_log (materialize v ?s) = wal_log s'" using wal_log_materialize [of v ?s] s'(3,4) by (simp add: new_view_def)
  note f' = image_fields [OF s'(2)]
  have "plain ((materialize v ?s)\<lparr>ws_last_frame_sequence := q, ws_file_bytes := of_nat (length (?c @ concat frames)),
      ws_durable_frame_sequence := durable\<rparr>) = s'" for durable
    by (rule plain_eqI) (use log s'(5) f'(3,5,6) in simp_all)
  with s' show "\<exists>s'. write_frames ?opts batches (?c, plain ?s) = Inr (?c @ concat frames, s') \<and>
      image_of (wf_identity wal) ?opts (?c @ concat frames) s' \<and> wal_log s' = fold batch_effect batches (wal_log ?s) \<and>
      (\<forall>durable. plain ((materialize v ?s)\<lparr>ws_last_frame_sequence := q, ws_file_bytes := of_nat (length (?c @ concat frames)),
        ws_durable_frame_sequence := durable\<rparr>) = s')"
    by blast
qed

text \<open>C31. Under the contract of the system calls, \<^verbatim>\<open>append_group\<close> always returns and keeps the file and the state
  in step: on success the file has grown by the frames of the batches, written one after the other, the logical log is
  the old one with the batches applied, and a result reported durable is on stable storage; on an error
  either nothing has changed, or it is an I/O error that leaves the reported state intact and stops the log for good.\<close>

theorem wal_append_durable:
  assumes "posix_ok os d" and "wal_inv d wal w"
  shows "\<exists>out wal' w'. wal_append_group os batches wal w = Some (out, wal', w') \<and> wal_inv d wal' w' \<and>
    (case out of
       Inr a \<Rightarrow> \<not> wf_failed wal \<and> \<not> wf_failed wal' \<and> batches \<noteq> [] \<and>
         write_frames (wf_options wal) batches (dk_contents d w, plain (wf_state wal)) = Inr (dk_contents d w', plain (wf_state wal')) \<and>
         wal_log (wf_state wal') = fold batch_effect batches (wal_log (wf_state wal)) \<and>
         wa_first_frame_sequence a = ws_last_frame_sequence (wf_state wal) + 1 \<and>
         wa_last_frame_sequence a = ws_last_frame_sequence (wf_state wal') \<and>
         wa_bytes_written a = length (dk_contents d w') - length (dk_contents d w) \<and>
         wa_durable a = (wo_flush_policy (wf_options wal) = FlushEveryAppend) \<and>
         (wa_durable a \<longrightarrow> ws_durable_frame_sequence (wf_state wal') = wa_last_frame_sequence a)
     | Inl (code, message) \<Rightarrow> wal' = wal \<and> w' = w \<or> code = WE_io \<and> wal' = wal_fail message wal)"
proof (cases "admit_group batches wal")
  case (Inl e)
  with assms(2) show ?thesis by (cases e) (simp add: wal_append_group_def)
next
  case (Inr x)
  obtain v q g frames where x: "x = (v, q, g, frames)" by (cases x)
  note ad = admitted [OF assms(2) Inr [unfolded x]]
  let ?flush = "wo_flush_policy (wf_options wal) = FlushEveryAppend" and ?c = "dk_contents d w"
  obtain r w' where io: "io_bind (write_group os (wf_path wal) (of_nat (length ?c)) frames) (\<lambda>write_offset.
       io_bind (if ?flush then native_flush os (wf_path wal) else io_return (Inr ())) (\<lambda>_. io_return (Inr write_offset))) w = Some (r, w')"
    and keep: "keeps_to d (length ?c) w w'"
    and r: "(\<exists>msg. r = Inl (WE_io, msg)) \<or> r = Inr (of_nat (length (?c @ concat frames))) \<and> dk_contents d w' = ?c @ concat frames \<and>
       (?flush \<longrightarrow> stable_to d (length (?c @ concat frames)) w')"
    by (rule group_written [OF assms(1) refl ad(3)])
  from r show ?thesis
  proof
    assume "\<exists>msg. r = Inl (WE_io, msg)"
    then obtain msg where "r = Inl (WE_io, msg)" by blast
    moreover have "wal_inv d (wal_fail msg wal) w'" using failed_inv [OF assms(2)] keep ad(2) by simp
    ultimately show ?thesis using io Inr x ad(2) by (simp add: wal_append_group_def fail_stop_def Let_def)
  next
    assume ok: "r = Inr (of_nat (length (?c @ concat frames))) \<and> dk_contents d w' = ?c @ concat frames \<and>
       (?flush \<longrightarrow> stable_to d (length (?c @ concat frames)) w')"
    let ?s = "(materialize v (wf_state wal))\<lparr>ws_last_frame_sequence := q, ws_file_bytes := of_nat (length (?c @ concat frames)),
        ws_durable_frame_sequence := (if ?flush then q else ws_durable_frame_sequence (wf_state wal))\<rparr>"
    obtain s' where s': "write_frames (wf_options wal) batches (?c, plain (wf_state wal)) = Inr (?c @ concat frames, s')"
        "image_of (wf_identity wal) (wf_options wal) (?c @ concat frames) s'" "plain ?s = s'"
        "wal_log s' = fold batch_effect batches (wal_log (wf_state wal))"
      using ad(5) by (auto simp del: append_assoc)
    have inv: "wal_inv d (wal\<lparr>wf_state := ?s\<rparr>) w'"
      by (rule appended_inv [OF assms(2)]) (use ad ok s' keep in simp_all)
    have log: "wal_log ?s = fold batch_effect batches (wal_log (wf_state wal))" using s'(3,4) by (metis plain_simps(1))
    show ?thesis using io Inr x ad(1,2,4) ok inv s' log
      by (simp add: wal_append_group_def fail_stop_def Let_def)
  qed
qed

section \<open>Flushing\<close>

lemma wal_flush_inv:
  assumes "posix_ok os d" and "wal_inv d wal w"
  shows "\<exists>out wal' w'. wal_flush os wal w = Some (out, wal', w') \<and> wal_inv d wal' w' \<and>
    (case out of
       Inr _ \<Rightarrow> \<not> wf_failed wal' \<and> ws_durable_frame_sequence (wf_state wal') = ws_last_frame_sequence (wf_state wal') \<and>
         plain (wf_state wal') = plain (wf_state wal)
     | Inl (code, message) \<Rightarrow> wal' = wal \<and> w' = w \<or> code = WE_io \<and> wal' = wal_fail message wal)"
proof (cases "wf_failed wal \<or> ws_durable_frame_sequence (wf_state wal) = ws_last_frame_sequence (wf_state wal)")
  case True
  with assms(2) show ?thesis by (auto simp: wal_flush_def ensure_live_def guard_res_def Let_def)
next
  case False
  let ?s = "(wf_state wal)\<lparr>ws_durable_frame_sequence := ws_last_frame_sequence (wf_state wal)\<rparr>"
  obtain r w' where f: "px_fsync os w = (r, w')" by fastforce
  then have k: "keeps_file d w w'" "r = Inr () \<Longrightarrow> stable_to d (length (dk_contents d w)) w'"
    using assms(1) unfolding posix_ok_def syncs_ok_def by blast+
  have h: "length (dk_contents d w') = wal_bytes wal" "wal_bytes wal \<le> length (dk_contents d w')"
      "image_of (wf_identity wal) (wf_options wal) (dk_contents d w') (plain (wf_state wal))"
    using assms(2) False k(1) by (auto simp: wal_inv_def file_holds_def keeps_file_def)
  have same: "plain ?s = plain (wf_state wal)" by (simp add: plain_def)
  show ?thesis
  proof (cases r)
    case (Inl e)
    with failed_inv [OF assms(2) keeps_file_to [OF k(1)]] f False show ?thesis
      by (simp add: wal_flush_def ensure_live_def guard_res_def Let_def fail_stop_def native_flush_def io_call_def)
  next
    case (Inr u)
    have "wal_inv d (wal\<lparr>wf_state := ?s\<rparr>) w'"
      by (rule appended_inv [OF assms(2) _ _ keeps_file_to [OF k(1)]])
         (use False h k Inr same in \<open>simp_all add: keeps_file_def\<close>)
    with Inr f False same show ?thesis
      by (simp add: wal_flush_def ensure_live_def guard_res_def Let_def fail_stop_def native_flush_def io_call_def)
  qed
qed

section \<open>Opening\<close>

text \<open>Whatever the scan of a file accepts, the bytes it calls valid are the image of the state it recovers.\<close>

lemma scan_prefix_image:
  assumes len: "length c < 2 ^ 64"
  shows "image_of i opts (take (unat offset) c) s \<Longrightarrow> unat offset \<le> length c \<Longrightarrow> scan_mem c opts (scan_of s) offset = Inr r \<Longrightarrow>
    \<exists>s'. image_of i opts (take (unat (ws_file_bytes s')) c) s' \<and> unat (ws_file_bytes s') \<le> length c \<and> (r = scan_of s' \<and> unat (ws_file_bytes s') = length c \<or> r = torn (scan_of s'))"
proof (induction "length c - unat offset" arbitrary: s offset rule: less_induct)
  case less
  note im = image_fields [OF less.prems(1)]
  have off: "of_nat (length (take (unat offset) c)) = offset" using less.prems(2) by simp
  note opts = im(1) and inv = im(8) [unfolded off]
  have fb: "ws_file_bytes s = offset" using im(3) off by simp
  show ?case
  proof (rule scan_cases [OF opts len less.prems(2) scan_inv_wf [OF inv] less.prems(3)])
    assume "drop (unat offset) c = []" "r = scan_of s"
    with less.prems(1,2) fb show ?thesis by (intro exI [of _ s]) simp
  next
    assume "r = torn (scan_of s)"
    with less.prems(1,2) fb show ?thesis by (intro exI [of _ s]) simp
  next
    fix h b zs
    assume n: "next_frame opts (wc_state (scan_of s)) h b" and d: "drop (unat offset) c = frame_image h (payload_image b) @ zs"
      and cont: "scan_mem c opts (scan_advance h (applied b (wc_state (scan_of s))) offset (scan_of s)) (offset + fh_frame_size h) = Inr r"
    note n = n [unfolded scan_of_simps] and cont = cont [unfolded scan_of_simps]
    let ?f = "frame_image h (payload_image b)"
    note o = next_offset [OF opts len less.prems(2) n d] and size = frame_size_eq(1) [OF opts n]
    have h: "h = frame_for s b" using header_eqI [OF _ opts, of h "payload_image b"] n by (simp add: next_frame_def)
    have adv: "scan_advance h (applied b s) offset (scan_of s) = scan_of (written_state b ?f s)"
      using scan_advance_of [OF inv _ size] n by (simp add: next_frame_def)
    have "unat offset + length ?f < 2 ^ 64" using o(1,2) size len by simp
    then have "encode_wal_frame s b opts = Inr \<lparr>wf_bytes = ?f, wf_state_after = written_state b ?f s\<rparr>"
      using scan_inv_encode [OF inv opts, of b] n h by (simp del: frame_lengths)
    moreover have "take (unat (offset + fh_frame_size h)) c = take (unat offset) c @ ?f"
      using d size o(1) take_add [of "unat offset" "unat (fh_frame_size h)" c] by simp
    ultimately have "image_of i opts (take (unat (offset + fh_frame_size h)) c) (written_state b ?f s)"
      using image_frame(1) [OF less.prems(1)] by fastforce
    then show ?thesis using less.hyps [OF o(4) _ o(2)] cont adv by simp
  qed
qed

lemma scan_recovers_image:
  assumes len: "length c < 2 ^ 64" and scan: "scan_wal_bytes c i opts = Inr r"
  obtains s where "r = scanned s (wc_has_incomplete_tail r)" "image_of i opts (take (unat (ws_file_bytes s)) c) s"
    "unat (ws_file_bytes s) \<le> length c" "\<not> wc_has_incomplete_tail r \<Longrightarrow> unat (ws_file_bytes s) = length c"
proof -
  obtain r0 where s: "validate_options opts = Inr ()" "48 \<le> length c" "take 48 c = file_header_image i"
      "scan_mem c opts scan_start 48 = Inr r0" "r = recovered r0"
    using scan scan_wal_bytes_iff [OF len] by auto
  then have "image_of i opts (take (unat (48 :: u64)) c) empty_wal_state" using image_start [of opts i] by simp
  from scan_prefix_image [OF len this, of r0] s obtain s' where
      "image_of i opts (take (unat (ws_file_bytes s')) c) s'" "unat (ws_file_bytes s') \<le> length c"
      "r0 = scan_of s' \<and> unat (ws_file_bytes s') = length c \<or> r0 = torn (scan_of s')"
    by (auto simp: scan_start_of)
  then show ?thesis using s(5) by (intro that [of s']) (auto simp: scanned_def)
qed

lemma io_bind_run [simp]:
  "m w = Some (Inr x, w') \<Longrightarrow> io_bind m f w = f x w'" "m w = Some (Inl e, w') \<Longrightarrow> io_bind m f w = Some (Inl e, w')"
  "io_bind (io_return (Inr x)) f w = f x w" "io_bind (io_return (Inl e)) f w = Some (Inl e, w)"
  by (simp_all add: io_bind_def io_return_def)

lemma io_call_observes:
  assumes "\<And>r w'. call w = (r, w') \<Longrightarrow> keeps_file d w w' \<and> (\<forall>y. r = Inr y \<longrightarrow> y = x)"
  shows "observes d (io_call operation path call) (Inr x) w"
  using assms by (auto simp: observes_def io_call_def split: prod.split sum.split)

lemma native_open_observes:
  assumes "reads_ok os d"
  shows "\<exists>created. observes d (native_open os path) (Inr created) w"
proof -
  obtain r w1 where r: "px_open_excl os w = (r, w1)" by fastforce
  then have k: "keeps_file d w w1" using assms unfolding reads_ok_def by blast
  have "observes d (io_bind (io_call ''open'' path (px_open os)) (\<lambda>_. io_return (Inr False))) (bind_res (Inr ()) (\<lambda>_. Inr False)) w1"
    by (intro observes_bind io_call_observes observes_return) (use assms in \<open>auto simp: reads_ok_def\<close>)
  then show ?thesis using r k by (cases r) (auto simp: observes_def native_open_def intro: keeps_file_trans)
qed

lemma native_size_cases:
  assumes "reads_ok os d"
  obtains r w' where "native_size os path w = Some (r, w')" "keeps_file d w w'"
    "r = Inr (of_nat (length (dk_contents d w))) \<and> length (dk_contents d w) \<le> off_t_max \<or> (\<exists>msg. r = Inl (WE_io, msg))"
proof -
  obtain r w1 where r: "px_fstat os w = (r, w1)" by fastforce
  then have "keeps_file d w w1" "\<And>n. r = Inr n \<Longrightarrow> n = int (length (dk_contents d w)) \<and> length (dk_contents d w) \<le> off_t_max"
    using assms unfolding reads_ok_def by blast+
  then show ?thesis using r
    by (cases r) (auto intro!: that simp: native_size_def io_bind_def io_call_def io_return_def)
qed

lemma sync_parent_observes:
  assumes "syncs_ok os d"
  shows "observes d (sync_parent_directory os path) (Inr ()) w"
proof -
  have close: "keeps_file d w (px_close_directory os w)" for w using assms by (simp add: syncs_ok_def)
  have "observes d (\<lambda>w. case px_fsync_directory os w of
          (Inl e, w) \<Rightarrow> Some (Inl (WE_io, io_message ''flush directory'' parent e), px_close_directory os w)
        | (Inr _, w) \<Rightarrow> Some (Inr (), px_close_directory os w)) (Inr ()) v" for parent v
  proof -
    obtain r v1 where r: "px_fsync_directory os v = (r, v1)" by fastforce
    then have "keeps_file d v v1" using assms unfolding syncs_ok_def by blast
    from keeps_file_trans [OF this close] r show ?thesis by (cases r) (simp_all add: observes_def)
  qed
  moreover have "observes d (io_call ''open directory'' parent (px_open_directory os parent)) (Inr ()) w" for parent
    by (rule io_call_observes) (use assms in \<open>auto simp: syncs_ok_def\<close>)
  ultimately show ?thesis
    unfolding sync_parent_directory_def Let_def using observes_bind [where v = "Inr ()" and g = "\<lambda>_. Inr ()"] by fastforce
qed

lemma native_flush_cases:
  assumes "syncs_ok os d"
  obtains r w' where "native_flush os path w = Some (r, w')" "keeps_file d w w'"
    "r = Inr () \<and> stable_to d (length (dk_contents d w)) w' \<or> (\<exists>msg. r = Inl (WE_io, msg))"
proof -
  obtain r w1 where r: "px_fsync os w = (r, w1)" by fastforce
  then have "keeps_file d w w1" "r = Inr () \<Longrightarrow> stable_to d (length (dk_contents d w)) w1"
    using assms unfolding syncs_ok_def by blast+
  then show ?thesis using r by (cases r) (auto intro!: that simp: native_flush_def io_call_def)
qed

lemma observes_cond:
  "(P \<Longrightarrow> observes d m v w) \<Longrightarrow> (\<not> P \<Longrightarrow> observes d m' v' w) \<Longrightarrow> observes d (if P then m else m') (if P then v else v') w"
  by simp

lemma scan_file_source_observes:
  assumes os: "reads_ok os d" and c: "dk_contents d w = c" and len: "length c \<le> off_t_max"
  shows "observes d (scan_file_source (of_nat (length c)) (native_read_exact os path) i opts) (scan_wal_bytes c i opts) w"
proof -
  have n: "unat (of_nat (length c) :: u64) = length c" "length c < 18446744073709551616" using len by (simp_all add: off_t_max_def)
  have rd: "faithful d c (native_read_exact os path)" using read_exact_observes [OF os] len by auto
  have rd0: "observes d (native_read_exact os path 0 kFileHeaderBytes) (read_memory c 0 kFileHeaderBytes) v"
    if "dk_contents d v = c" "\<not> length c < kFileHeaderBytes" for v
    using rd that by simp
  have "observes d (\<lambda>w. scan_file_source (of_nat (length c)) (native_read_exact os path) i opts w) (scan_wal_bytes c i opts) w"
    unfolding scan_file_source_def scan_wal_bytes_def scan_source_def Let_def n
    by (intro observes_bind observes_return observes_cond scan_file_observes [OF rd n(2)] rd0)
       (use c in \<open>simp_all add: keeps_file_def\<close>)
  then show ?thesis by simp
qed

lemma create_log_cases:
  assumes os: "posix_ok os d" and c: "dk_contents d w = []"
  obtains r w' where "create_log os path i created w = Some (r, w')"
    "r = Inr empty_wal_state \<and> dk_contents d w' = file_header_image i \<and> stable_to d 48 w' \<or> (\<exists>msg. r = Inl (WE_io, msg))"
proof -
  have ok: "writes_ok os d" "syncs_ok os d" using os by (simp_all add: posix_ok_def)
  let ?h = "file_header_image i"
  let ?sync = "if created then sync_parent_directory os path else io_return (Inr ())"
  obtain r1 w1 where w1: "native_write_exact os path 0 ?h w = Some (r1, w1)" "r1 = Inr () \<and> dk_contents d w1 = ?h \<or> (\<exists>msg. r1 = Inl (WE_io, msg))"
    using write_loop_extends [OF ok(1), of "[]" ?h w 0 path] c by (auto simp: extends_def native_write_exact_def)
  obtain r2 w2 where w2: "native_flush os path w1 = Some (r2, w2)" "keeps_file d w1 w2"
      "r2 = Inr () \<and> stable_to d (length (dk_contents d w1)) w2 \<or> (\<exists>msg. r2 = Inl (WE_io, msg))"
    by (rule native_flush_cases [OF ok(2), of path w1])
  have "observes d ?sync (Inr ()) w2" by (simp add: sync_parent_observes [OF ok(2)])
  then obtain r3 w3 where w3: "?sync w2 = Some (r3, w3)" "keeps_file d w2 w3" "r3 = Inr () \<or> (\<exists>msg. r3 = Inl (WE_io, msg))"
    unfolding observes_def by blast
  have run: "create_log os path i created w = io_bind (native_write_exact os path 0 ?h) (\<lambda>_. io_bind (native_flush os path) (\<lambda>_.
      io_bind ?sync (\<lambda>_. io_return (Inr (initial_wal_state\<lparr>ws_file_bytes := of_nat (length ?h)\<rparr>))))) w"
    by (simp add: create_log_def make_file_header_eq)
  consider (bad_write) msg where "r1 = Inl (WE_io, msg)" | (bad_flush) msg where "r1 = Inr ()" "r2 = Inl (WE_io, msg)"
    | (bad_sync) msg where "r1 = Inr ()" "r2 = Inr ()" "r3 = Inl (WE_io, msg)" | (finished) "r1 = Inr ()" "r2 = Inr ()" "r3 = Inr ()"
    using w1(2) w2(3) w3(3) by blast
  then show ?thesis
  proof cases
    case bad_write
    with run w1(1) show ?thesis by (intro that [of "Inl (WE_io, msg)" w1]) simp_all
  next
    case bad_flush
    with run w1(1) w2(1) show ?thesis by (intro that [of "Inl (WE_io, msg)" w2]) simp_all
  next
    case bad_sync
    with run w1(1) w2(1) w3(1) show ?thesis by (intro that [of "Inl (WE_io, msg)" w3]) simp_all
  next
    case finished
    have "dk_contents d w3 = ?h" "stable_to d 48 w3" using w1(2) w2(2,3) w3(2) finished by (auto simp: keeps_file_def)
    with run w1(1) w2(1) w3(1) finished show ?thesis
      by (intro that [of "Inr empty_wal_state" w3]) (simp_all add: io_return_def empty_wal_state_def wal_sizes)
  qed
qed

lemma recover_log_cases:
  assumes os: "posix_ok os d" and len: "length (dk_contents d w) \<le> off_t_max"
  obtains r w' where "recover_log os path i opts (of_nat (length (dk_contents d w))) w = Some (r, w')"
    "(\<exists>res. r = Inr (wc_state res) \<and> scan_wal_bytes (dk_contents d w) i opts = Inr res \<and>
        dk_contents d w' = take (unat (wc_valid_bytes res)) (dk_contents d w) \<and>
        (wc_has_incomplete_tail res \<or> stable_to d (length (dk_contents d w)) w \<longrightarrow> stable_to d (length (dk_contents d w')) w')) \<or>
     (\<exists>e. r = Inl e \<and> scan_wal_bytes (dk_contents d w) i opts = Inl e \<and> dk_contents d w' = dk_contents d w) \<or>
     (\<exists>msg. r = Inl (WE_io, msg))"
proof -
  let ?c = "dk_contents d w"
  have ok: "reads_ok os d" "syncs_ok os d" using os by (simp_all add: posix_ok_def)
  obtain r1 w1 where w1: "scan_file_source (of_nat (length ?c)) (native_read_exact os path) i opts w = Some (r1, w1)" "keeps_file d w w1"
      "r1 = scan_wal_bytes ?c i opts \<or> (\<exists>msg. r1 = Inl (WE_io, msg))"
    using scan_file_source_observes [OF ok(1) refl len, of path i opts] unfolding observes_def by blast
  have c1: "dk_contents d w1 = ?c" using w1(2) by (simp add: keeps_file_def)
  show ?thesis
  proof (cases r1)
    case (Inl e)
    with w1 c1 show ?thesis by (intro that [of "Inl e" w1]) (auto simp: recover_log_def)
  next
    case (Inr res)
    then have scan: "scan_wal_bytes ?c i opts = Inr res" using w1(3) by auto
    have "length ?c < 2 ^ 64" using len by (simp add: off_t_max_def)
    then obtain s where s: "res = scanned s (wc_has_incomplete_tail res)" "image_of i opts (take (unat (ws_file_bytes s)) ?c) s"
        "unat (ws_file_bytes s) \<le> length ?c" "\<not> wc_has_incomplete_tail res \<Longrightarrow> unat (ws_file_bytes s) = length ?c"
      by (rule scan_recovers_image [OF _ scan]) blast
    have vb: "wc_valid_bytes res = ws_file_bytes s" by (subst s(1)) (simp add: scanned_def)
    show ?thesis
    proof (cases "wc_has_incomplete_tail res")
      case False
      with w1 Inr scan vb s(4) show ?thesis
        by (intro that [of "Inr (wc_state res)" w1]) (auto simp: recover_log_def io_return_def keeps_file_def)
    next
      case True
      have res: "res = scanned s True" by (subst s(1)) (simp only: True)
      have st: "(wc_state res)\<lparr>ws_file_bytes := wc_valid_bytes res, ws_repaired_incomplete_tail := True\<rparr> = wc_state res"
        by (simp add: res scanned_def)
      obtain r2 w2 where w2: "px_ftruncate os (unat (ws_file_bytes s)) w1 = (r2, w2)" by fastforce
      then have c2: "r2 = Inr () \<Longrightarrow> dk_contents d w2 = take (unat (ws_file_bytes s)) ?c"
        using ok(2) s(3) c1 unfolding syncs_ok_def by metis
      have tr: "native_truncate os path (ws_file_bytes s) w1 =
          Some (case r2 of Inl e \<Rightarrow> Inl (WE_io, io_message ''truncate'' path e) | Inr x \<Rightarrow> Inr x, w2)"
        using w2 s(3) len by (simp add: native_truncate_def io_call_def split: sum.split)
      obtain r3 w3 where w3: "native_flush os path w2 = Some (r3, w3)" "keeps_file d w2 w3"
          "r3 = Inr () \<and> stable_to d (length (dk_contents d w2)) w3 \<or> (\<exists>msg. r3 = Inl (WE_io, msg))"
        by (rule native_flush_cases [OF ok(2), of path w2])
      show ?thesis
      proof (cases "r2 = Inr () \<and> r3 = Inr ()")
        case finished: True
        have "dk_contents d w3 = take (unat (ws_file_bytes s)) ?c" "stable_to d (length (dk_contents d w3)) w3"
          using c2 w3(2,3) finished by (auto simp: keeps_file_def)
        with w1(1) Inr True tr w3(1) finished scan vb st show ?thesis
          by (intro that [of "Inr (wc_state res)" w3]) (simp_all add: recover_log_def io_return_def)
      next
        case False
        with w1(1) Inr True tr w3(1,3) vb show ?thesis
          by (cases r2) (auto intro!: that simp: recover_log_def)
      qed
    qed
  qed
qed

lemma recovered_image:
  assumes "length c < 2 ^ 64" and "scan_wal_bytes c i opts = Inr r"
  shows "image_of i opts (take (unat (wc_valid_bytes r)) c) (plain (wc_state r)) \<and>
    ws_durable_frame_sequence (wc_state r) = ws_last_frame_sequence (wc_state r)"
proof -
  obtain s where s: "r = scanned s (wc_has_incomplete_tail r)" "image_of i opts (take (unat (ws_file_bytes s)) c) s"
    by (rule scan_recovers_image [OF assms]) blast
  have "plain (wc_state (scanned s t)) = s" for t
    by (rule plain_eqI) (use image_fields(5,6) [OF s(2)] in \<open>simp_all add: scanned_def\<close>)
  with s show ?thesis by (metis WalScanResult.select_convs(1,2) WalState.select_convs(4,5) WalState.surjective WalState.update_convs(5,7) scanned_def)
qed

lemma flush_opened:
  "ws_durable_frame_sequence s = ws_last_frame_sequence s \<Longrightarrow>
    wal_flush os (live_impl path i opts s) w = Some (Inr (), live_impl path i opts s, w)"
  by (simp add: wal_flush_def live_impl_def ensure_live_def guard_res_def Let_def)

lemma opened_inv:
  assumes im: "image_of i opts (dk_contents d w) (plain s)" and "stable_to d (length (dk_contents d w)) w"
    and "ws_durable_frame_sequence s = ws_last_frame_sequence s"
  shows "wal_inv d (live_impl path i opts s) w"
proof -
  have n: "wal_bytes (live_impl path i opts s) = length (dk_contents d w)"
    using image_fields(4) [OF im] by (simp add: wal_bytes_def live_impl_def)
  have "durable_frames d (live_impl path i opts s) (ws_last_frame_sequence s) w"
    unfolding durable_frames_def using assms n
    by (intro exI [of _ "length (dk_contents d w)"] exI [of _ "plain s"]) (simp add: live_impl_def)
  with assms n show ?thesis by (simp add: wal_inv_def file_holds_def) (simp add: live_impl_def)
qed

lemma wal_open_steps:
  assumes "posix_ok os d"
  obtains (failed) e w' where "wal_open os path i opts w = Some (Inl e, w')" "fst e = WE_io \<or> validate_options opts = Inl e"
  | (opened) created w2 where "keeps_file d w w2" "length (dk_contents d w) \<le> off_t_max" "validate_options opts = Inr ()"
      "wal_open os path i opts w = io_bind (if dk_contents d w = [] then create_log os path i created
         else recover_log os path i opts (of_nat (length (dk_contents d w))))
        (\<lambda>state. io_return (Inr (live_impl path i opts state))) w2"
proof -
  let ?c = "dk_contents d w"
  have rd: "reads_ok os d" using assms by (simp add: posix_ok_def)
  obtain created r1 w1 where w1: "native_open os path w = Some (r1, w1)" "keeps_file d w w1" "r1 = Inr created \<or> (\<exists>msg. r1 = Inl (WE_io, msg))"
    using native_open_observes [OF rd, of path w] unfolding observes_def by blast
  obtain r2 w2 where w2: "native_size os path w1 = Some (r2, w2)" "keeps_file d w1 w2"
      "r2 = Inr (of_nat (length (dk_contents d w1))) \<and> length (dk_contents d w1) \<le> off_t_max \<or> (\<exists>msg. r2 = Inl (WE_io, msg))"
    by (rule native_size_cases [OF rd, of path w1])
  have k: "keeps_file d w w2" by (rule keeps_file_trans [OF w1(2) w2(2)])
  have c: "dk_contents d w1 = ?c" "dk_contents d w2 = ?c" using w1(2) k by (simp_all add: keeps_file_def)
  show ?thesis
  proof (cases "\<exists>u. r1 = Inr created \<and> validate_options opts = Inr u \<and> r2 = Inr (of_nat (length ?c)) \<and> length ?c \<le> off_t_max")
    case False
    with w1 w2 c(1) show ?thesis
      by (cases r1; cases "validate_options opts"; cases r2) (auto intro: failed simp: wal_open_def)
  next
    case True
    then have len: "length ?c \<le> off_t_max" by blast
    have "unat (of_nat (length ?c) :: u64) = length ?c" using len by (intro unat_of_nat64) (simp add: off_t_max_def)
    then have zero: "(of_nat (length ?c) :: u64) = 0 \<longleftrightarrow> ?c = []"
      using unat_gt_0 [of "of_nat (length ?c) :: u64"] by (simp only: length_greater_0_conv) blast
    have run: "wal_open os path i opts w = io_bind (if ?c = [] then create_log os path i created else recover_log os path i opts (of_nat (length ?c)))
        (\<lambda>state. io_return (Inr (live_impl path i opts state))) w2"
      using True w1(1) w2(1) zero by (auto simp: wal_open_def)
    show ?thesis by (rule opened [OF k len _ run]) (use True in auto)
  qed
qed

text \<open>C32. Under the contract of the system calls, opening a log always returns. A log that opens reports exactly what
  the recovery scan finds in the file, or an empty log when the file was empty; the file is cut back to the frames the
  scan accepts; and the invariant of an open log holds if a torn tail was repaired, the file was empty, or its bytes
  were already on stable storage. The opened log counts all its frames as durable in any case, so that a flush right
  after opening returns without a system call. Opening fails only with an I/O error, with an error of the options, or with the
  error of the scan, and then the scanned file is untouched.\<close>

theorem wal_open_recovers:
  assumes "posix_ok os d"
  shows "\<exists>r w'. wal_open os path i opts w = Some (r, w') \<and>
    (case r of
       Inr wal \<Rightarrow> \<not> wf_failed wal \<and> wf_identity wal = i \<and> wf_options wal = opts \<and>
         wal_flush os wal w' = Some (Inr (), wal, w') \<and>
         (if dk_contents d w = []
          then wf_state wal = empty_wal_state \<and> dk_contents d w' = file_header_image i \<and> wal_inv d wal w'
          else \<exists>res. scan_wal_bytes (dk_contents d w) i opts = Inr res \<and> wf_state wal = wc_state res \<and>
            dk_contents d w' = take (unat (wc_valid_bytes res)) (dk_contents d w) \<and>
            (wc_has_incomplete_tail res \<or> stable_to d (length (dk_contents d w)) w \<longrightarrow> wal_inv d wal w'))
     | Inl e \<Rightarrow> fst e = WE_io \<or> validate_options opts = Inl e \<or>
         scan_wal_bytes (dk_contents d w) i opts = Inl e \<and> dk_contents d w' = dk_contents d w)"
proof (rule wal_open_steps [OF assms, of path i opts w])
  fix e w'
  assume "wal_open os path i opts w = Some (Inl e, w')" "fst e = WE_io \<or> validate_options opts = Inl e"
  then show ?thesis by auto
next
  let ?c = "dk_contents d w"
  fix created w2
  assume k: "keeps_file d w w2" and len: "length ?c \<le> off_t_max" and opts: "validate_options opts = Inr ()"
    and run: "wal_open os path i opts w = io_bind (if ?c = [] then create_log os path i created
         else recover_log os path i opts (of_nat (length ?c))) (\<lambda>state. io_return (Inr (live_impl path i opts state))) w2"
  have c: "dk_contents d w2 = ?c" using k by (simp add: keeps_file_def)
  show ?thesis
  proof (cases "?c = []")
    case empty: True
    obtain r w' where r: "create_log os path i created w2 = Some (r, w')"
        "r = Inr empty_wal_state \<and> dk_contents d w' = file_header_image i \<and> stable_to d 48 w' \<or> (\<exists>msg. r = Inl (WE_io, msg))"
      using create_log_cases [OF assms, of w2 path i created] c empty by metis
    note ew = empty_wal_plain
    with r(2) have "r = Inr empty_wal_state \<Longrightarrow> wal_inv d (live_impl path i opts empty_wal_state) w'"
      using opened_inv [of i opts d w' empty_wal_state path] image_start [OF opts, of i] by simp
    with r empty run flush_opened [OF ew(2), of os path i opts w'] show ?thesis
      by (auto simp: io_return_def) (simp_all add: live_impl_def)
  next
    case False
    have len2: "length (dk_contents d w2) \<le> off_t_max" using len c by simp
    obtain r w' where r: "recover_log os path i opts (of_nat (length ?c)) w2 = Some (r, w')"
      and alt: "(\<exists>res. r = Inr (wc_state res) \<and> scan_wal_bytes ?c i opts = Inr res \<and>
          dk_contents d w' = take (unat (wc_valid_bytes res)) ?c \<and>
          (wc_has_incomplete_tail res \<or> stable_to d (length ?c) w2 \<longrightarrow> stable_to d (length (dk_contents d w')) w')) \<or>
       (\<exists>e. r = Inl e \<and> scan_wal_bytes ?c i opts = Inl e \<and> dk_contents d w' = ?c) \<or> (\<exists>msg. r = Inl (WE_io, msg))"
      by (rule recover_log_cases [OF assms len2, of path i opts, unfolded c])
    show ?thesis
    proof (cases r)
      case (Inl e)
      with alt r run False show ?thesis by auto
    next
      case (Inr state)
      then obtain res where res: "state = wc_state res" "scan_wal_bytes ?c i opts = Inr res"
          "dk_contents d w' = take (unat (wc_valid_bytes res)) ?c"
          "wc_has_incomplete_tail res \<or> stable_to d (length ?c) w2 \<Longrightarrow> stable_to d (length (dk_contents d w')) w'"
        using alt by auto
      have im: "image_of i opts (dk_contents d w') (plain state) \<and> ws_durable_frame_sequence state = ws_last_frame_sequence state"
        using recovered_image [OF _ res(2)] res(1,3) len by (simp add: off_t_max_def)
      have "stable_to d (length ?c) w \<Longrightarrow> stable_to d (length ?c) w2" using k by (simp add: keeps_file_def)
      then have "wc_has_incomplete_tail res \<or> stable_to d (length ?c) w \<Longrightarrow> wal_inv d (live_impl path i opts state) w'"
        using opened_inv [of i opts d w' state path] im res(4) by blast
      with Inr r run False res flush_opened [of state os path i opts w'] im show ?thesis
        by (simp add: io_return_def) (simp add: live_impl_def)
    qed
  qed
qed

section \<open>A file in memory\<close>

text \<open>System calls on a file in memory, which read five and write seven bytes at a time and are interrupted as long
  as signals are pending.\<close>

record RamFile =
  rf_data :: bytes
  rf_stable :: bytes
  rf_signals :: nat

definition ram_interrupted :: "(RamFile \<Rightarrow> (nat + 'a) \<times> RamFile) \<Rightarrow> RamFile \<Rightarrow> (nat + 'a) \<times> RamFile" where
  "ram_interrupted call w =
     (if rf_signals w = 0 then call w else (Inl EINTR, w\<lparr>rf_signals := rf_signals w - 1\<rparr>))"

definition ram_posix :: "RamFile Posix" where
  "ram_posix = \<lparr>px_errno = (\<lambda>_. 0),
     px_open_excl = (\<lambda>w. (if rf_data w = [] then Inr () else Inl EEXIST, w)), px_open = (\<lambda>w. (Inr (), w)),
     px_fstat = (\<lambda>w. (if length (rf_data w) \<le> off_t_max then Inr (int (length (rf_data w))) else Inl 75, w)),
     px_pread = (\<lambda>offset n. ram_interrupted (\<lambda>w. (Inr (take (min n 5) (drop offset (rf_data w))), w))),
     px_pwrite = (\<lambda>offset bs. ram_interrupted (\<lambda>w. (Inr (length (take 7 bs)),
       w\<lparr>rf_data := take offset (rf_data w) @ take 7 bs @ drop (offset + length (take 7 bs)) (rf_data w)\<rparr>))),
     px_fsync = (\<lambda>w. (Inr (), w\<lparr>rf_stable := rf_data w\<rparr>)),
     px_ftruncate = (\<lambda>n w. (Inr (), w\<lparr>rf_data := take n (rf_data w)\<rparr>)),
     px_open_directory = (\<lambda>_ w. (Inr (), w)), px_fsync_directory = (\<lambda>w. (Inr (), w)), px_close_directory = (\<lambda>w. w)\<rparr>"

definition ram_disk :: "RamFile Disk" where
  "ram_disk = \<lparr>dk_contents = rf_data, dk_stable = rf_stable, dk_patience = rf_signals\<rparr>"

lemma ram_disk_simps [simp]: "dk_contents ram_disk = rf_data" "dk_stable ram_disk = rf_stable" "dk_patience ram_disk = rf_signals"
  by (simp_all add: ram_disk_def)

lemma ram_keeps_to:
  assumes "rf_stable w' = rf_stable w" and "take m (rf_data w') = take m (rf_data w)" and "m \<le> length (rf_data w)"
  shows "keeps_to ram_disk m w w'"
proof -
  have "m \<le> length (rf_data w')" using arg_cong [OF assms(2), of length] assms(3) by simp
  moreover have "take n (rf_data w') = take n (rf_data w)" if "n \<le> m" for n
    using arg_cong [OF assms(2), of "take n"] that by simp
  ultimately show ?thesis using assms(1,2) by (simp add: keeps_to_def stable_to_def)
qed

lemma ram_keeps_file: "rf_stable w' = rf_stable w \<and> rf_data w' = rf_data w \<or> rf_data w' = rf_data w \<and> rf_stable w' = rf_data w \<Longrightarrow> keeps_file ram_disk w w'"
  by (auto simp: keeps_file_def stable_to_def)

lemma ram_posix_ok: "posix_ok ram_posix ram_disk"
proof -
  have [simp]: "take (min (length xs - n) k) (drop n xs) = take k (drop n xs)" for n k and xs :: bytes
    by (simp add: min_def)
  have "reads_ok ram_posix ram_disk"
    by (auto simp: reads_ok_def ram_posix_def ram_interrupted_def EEXIST_def EINTR_def intro!: ram_keeps_file split: if_splits)
  moreover have "writes_ok ram_posix ram_disk"
    unfolding writes_ok_def
  proof (intro allI impI, elim conjE)
    fix offset bs w r w'
    assume "px_pwrite ram_posix offset bs w = (r, w')" and at: "offset \<le> length (dk_contents ram_disk w)"
    then consider "r = Inl EINTR" "w' = w\<lparr>rf_signals := rf_signals w - 1\<rparr>" "0 < rf_signals w"
      | "r = Inr (length (take 7 bs))" "w' = w\<lparr>rf_data := take offset (rf_data w) @ take 7 bs @ drop (offset + length (take 7 bs)) (rf_data w)\<rparr>"
      by (auto simp: ram_posix_def ram_interrupted_def split: if_splits)
    then show "keeps_to ram_disk offset w w' \<and> (r = Inl EINTR \<longrightarrow> keeps_file ram_disk w w' \<and> dk_patience ram_disk w' < dk_patience ram_disk w) \<and>
        (\<forall>k. r = Inr k \<longrightarrow> k \<le> length bs \<and>
          dk_contents ram_disk w' = take offset (dk_contents ram_disk w) @ take k bs @ drop (offset + k) (dk_contents ram_disk w))"
    proof cases
      case 1
      with at ram_keeps_to [of w' w offset] ram_keeps_file [of w' w] show ?thesis by simp
    next
      case 2
      with at ram_keeps_to [of w' w offset] show ?thesis by (simp add: min_def)
    qed
  qed
  moreover have "syncs_ok ram_posix ram_disk"
    by (auto simp: syncs_ok_def ram_posix_def stable_to_def intro!: ram_keeps_file ram_keeps_to)
  ultimately show ?thesis by (simp add: posix_ok_def)
qed

definition demo_ram :: RamFile where
  "demo_ram = \<lparr>rf_data = file_header_image demo_identity, rf_stable = file_header_image demo_identity, rf_signals = 3\<rparr>"

definition demo_wal :: WalImpl where
  "demo_wal = live_impl ''wal'' demo_identity default_wal_options empty_wal_state"

lemma demo_wal_inv: "wal_inv ram_disk demo_wal demo_ram"
proof -
  note empty_wal_plain
  moreover have "dk_contents ram_disk demo_ram = file_header_image demo_identity" "stable_to ram_disk 48 demo_ram"
    by (simp_all add: demo_ram_def stable_to_def)
  ultimately show ?thesis unfolding demo_wal_def
    using opened_inv [of demo_identity default_wal_options ram_disk demo_ram empty_wal_state "''wal''"]
      image_start [OF demo_options, of demo_identity] by (simp only: file_lengths)
qed

theorem wal_append_durable_witness:
  "\<exists>out wal' w'. wal_append_group ram_posix demo_batches demo_wal demo_ram = Some (out, wal', w') \<and> wal_inv ram_disk wal' w'"
  using wal_append_durable [OF ram_posix_ok demo_wal_inv, of demo_batches]
  by (elim exE conjE) (intro exI conjI, assumption+)

theorem wal_open_recovers_witness:
  "\<exists>r w'. wal_open ram_posix ''wal'' demo_identity default_wal_options demo_ram = Some (r, w')"
  using wal_open_recovers [OF ram_posix_ok, of "''wal''" demo_identity default_wal_options demo_ram]
  by (elim exE conjE) (intro exI, assumption)

end
