(* ===== verification/BinaryHeap.thy ===== *)
theory BinaryHeap
  imports Prelude "HOL-Library.Multiset"
begin

text \<open>
  The binary heap in a vector that \<^verbatim>\<open>std::push_heap\<close>, \<^verbatim>\<open>std::pop_heap\<close> and \<^verbatim>\<open>std::make_heap\<close>
  keep, over an arbitrary key: the children of position \<open>i\<close> are \<open>2 * i + 1\<close> and \<open>2 * i + 2\<close>. Each operation keeps
  the elements and restores the heap order, so that the front always has the least key.
\<close>

section \<open>Operations\<close>

definition heap_swap :: "nat \<Rightarrow> nat \<Rightarrow> 'a list \<Rightarrow> 'a list" where
  "heap_swap i j xs = xs[i := xs ! j, j := xs ! i]"

definition heap_parent :: "nat \<Rightarrow> nat" where
  "heap_parent i = (i - 1) div 2"

lemma heap_parent_less: "i \<noteq> 0 \<Longrightarrow> heap_parent i < i"
  by (auto simp: heap_parent_def)

function sift_up :: "('a \<Rightarrow> 'k::linorder) \<Rightarrow> nat \<Rightarrow> 'a list \<Rightarrow> 'a list" where
  "sift_up key i xs =
     (if i = 0 then xs
      else if key (xs ! i) < key (xs ! heap_parent i)
      then sift_up key (heap_parent i) (heap_swap (heap_parent i) i xs) else xs)"
  by pat_completeness auto

termination
  by (relation "measure (\<lambda>(key, i, xs). i)") (simp_all add: heap_parent_less)

declare sift_up.simps [simp del]

definition least_child :: "('a \<Rightarrow> 'k::linorder) \<Rightarrow> nat \<Rightarrow> 'a list \<Rightarrow> nat" where
  "least_child key i xs =
     (if 2 * i + 2 < length xs \<and> key (xs ! (2 * i + 2)) < key (xs ! (2 * i + 1)) then 2 * i + 2 else 2 * i + 1)"

lemma least_child_bounds: "i < least_child key i xs" "2 * i + 1 < length xs \<Longrightarrow> least_child key i xs < length xs"
  by (simp_all add: least_child_def)

lemma length_heap_swap [simp]: "length (heap_swap i j xs) = length xs"
  by (simp add: heap_swap_def)

function sift_down :: "('a \<Rightarrow> 'k::linorder) \<Rightarrow> nat \<Rightarrow> 'a list \<Rightarrow> 'a list" where
  "sift_down key i xs =
     (if 2 * i + 1 < length xs \<and> key (xs ! least_child key i xs) < key (xs ! i)
      then sift_down key (least_child key i xs) (heap_swap i (least_child key i xs) xs) else xs)"
  by pat_completeness auto

termination
  by (relation "measure (\<lambda>(key, i, xs). length xs - i)") (simp_all add: least_child_bounds diff_less_mono2)

declare sift_down.simps [simp del]

text \<open>\<^verbatim>\<open>push_back\<close> and \<^verbatim>\<open>push_heap\<close>; \<^verbatim>\<open>pop_heap\<close> and \<^verbatim>\<open>pop_back\<close>; \<^verbatim>\<open>make_heap\<close>.\<close>

definition heap_push :: "('a \<Rightarrow> 'k::linorder) \<Rightarrow> 'a \<Rightarrow> 'a list \<Rightarrow> 'a list" where
  "heap_push key x xs = sift_up key (length xs) (xs @ [x])"

fun heap_pop :: "('a \<Rightarrow> 'k::linorder) \<Rightarrow> 'a list \<Rightarrow> ('a \<times> 'a list) option" where
  "heap_pop key [] = None"
| "heap_pop key (x # xs) = Some (x, if xs = [] then [] else sift_down key 0 (last xs # butlast xs))"

fun heapify :: "('a \<Rightarrow> 'k::linorder) \<Rightarrow> nat \<Rightarrow> 'a list \<Rightarrow> 'a list" where
  "heapify key 0 xs = xs"
| "heapify key (Suc i) xs = heapify key i (sift_down key i xs)"

definition make_heap :: "('a \<Rightarrow> 'k::linorder) \<Rightarrow> 'a list \<Rightarrow> 'a list" where
  "make_heap key xs = heapify key (length xs div 2) xs"

section \<open>The elements are kept\<close>

lemma mset_heap_swap [simp]: "i < length xs \<Longrightarrow> j < length xs \<Longrightarrow> mset (heap_swap i j xs) = mset xs"
  by (simp add: heap_swap_def mset_swap)

lemma mset_sift_up [simp]: "i < length xs \<Longrightarrow> mset (sift_up key i xs) = mset xs"
proof (induction key i xs rule: sift_up.induct)
  case (1 key i xs)
  then show ?case by (subst sift_up.simps) (simp add: heap_parent_less less_trans [OF heap_parent_less])
qed

lemma mset_sift_down [simp]: "mset (sift_down key i xs) = mset xs"
proof (induction key i xs rule: sift_down.induct)
  case (1 key i xs)
  then show ?case by (subst sift_down.simps) (simp add: least_child_bounds)
qed

lemma mset_heapify [simp]: "mset (heapify key i xs) = mset xs"
  by (induction i arbitrary: xs) simp_all

lemma mset_heap_push: "mset (heap_push key x xs) = add_mset x (mset xs)"
  by (simp add: heap_push_def)

lemma mset_make_heap: "mset (make_heap key xs) = mset xs"
  by (simp add: make_heap_def)

lemma mset_heap_pop: "heap_pop key xs = Some (x, ys) \<Longrightarrow> mset xs = add_mset x (mset ys)"
proof (cases xs)
  case (Cons z zs)
  have "zs \<noteq> [] \<Longrightarrow> mset zs = add_mset (last zs) (mset (butlast zs))"
    by (metis append_butlast_last_id add_mset_add_single mset.simps(1) mset.simps(2) mset_append)
  moreover assume "heap_pop key xs = Some (x, ys)"
  ultimately show ?thesis using Cons by (auto split: if_splits)
qed simp

lemma length_sift_down [simp]: "length (sift_down key i xs) = length xs"
  by (metis mset_sift_down size_mset)

section \<open>The order is restored\<close>

text \<open>The heap order from position \<open>m\<close> on, with the edges into and out of one position left out.\<close>

definition heap_edge :: "('a \<Rightarrow> 'k::linorder) \<Rightarrow> 'a list \<Rightarrow> nat \<Rightarrow> bool" where
  "heap_edge key xs j \<longleftrightarrow> key (xs ! heap_parent j) \<le> key (xs ! j)"

definition heap_from :: "('a \<Rightarrow> 'k::linorder) \<Rightarrow> nat \<Rightarrow> 'a list \<Rightarrow> bool" where
  "heap_from key m xs \<longleftrightarrow> (\<forall>j < length xs. 0 < j \<and> m \<le> heap_parent j \<longrightarrow> heap_edge key xs j)"

abbreviation is_heap :: "('a \<Rightarrow> 'k::linorder) \<Rightarrow> 'a list \<Rightarrow> bool" where
  "is_heap key \<equiv> heap_from key 0"

definition heap_up_hole :: "('a \<Rightarrow> 'k::linorder) \<Rightarrow> nat \<Rightarrow> 'a list \<Rightarrow> bool" where
  "heap_up_hole key i xs \<longleftrightarrow> (\<forall>j < length xs. 0 < j \<and> j \<noteq> i \<longrightarrow> heap_edge key xs j) \<and>
     (\<forall>j < length xs. 0 < j \<and> 0 < i \<and> heap_parent j = i \<longrightarrow> key (xs ! heap_parent i) \<le> key (xs ! j))"

definition heap_down_hole :: "('a \<Rightarrow> 'k::linorder) \<Rightarrow> nat \<Rightarrow> nat \<Rightarrow> 'a list \<Rightarrow> bool" where
  "heap_down_hole key m i xs \<longleftrightarrow> (\<forall>j < length xs. 0 < j \<and> m \<le> heap_parent j \<and> heap_parent j \<noteq> i \<longrightarrow> heap_edge key xs j) \<and>
     (\<forall>j < length xs. 0 < j \<and> 0 < i \<and> m \<le> heap_parent i \<and> heap_parent j = i \<longrightarrow> key (xs ! heap_parent i) \<le> key (xs ! j))"

lemma heap_swap_nth:
  assumes "i < length xs" "j < length xs"
  shows "heap_swap i j xs ! k = (if k = i then xs ! j else if k = j then xs ! i else xs ! k)"
  using assms by (auto simp: heap_swap_def nth_list_update)

lemma heap_parent_eq: "0 < j \<Longrightarrow> heap_parent j = i \<longleftrightarrow> j = 2 * i + 1 \<or> j = 2 * i + 2"
  by (auto simp: heap_parent_def)

lemma sift_up_heap:
  "i < length xs \<Longrightarrow> heap_up_hole key i xs \<Longrightarrow> is_heap key (sift_up key i xs)"
proof (induction key i xs rule: sift_up.induct)
  case (1 key i xs)
  show ?case
  proof (cases "i \<noteq> 0 \<and> key (xs ! i) < key (xs ! heap_parent i)")
    case True
    let ?p = "heap_parent i"
    have p: "?p < i" "?p < length xs" using True 1(2) heap_parent_less [of i] by auto
    note nth = heap_swap_nth [OF p(2) 1(2)]
    have edge: "key (xs ! heap_parent j) \<le> key (xs ! j)" if "j < length xs" "0 < j" "j \<noteq> i" for j
      using 1(3) that by (simp add: heap_up_hole_def heap_edge_def)
    have child: "key (xs ! ?p) \<le> key (xs ! j)" if "j < length xs" "0 < j" "heap_parent j = i" for j
      using 1(3) that True by (simp add: heap_up_hole_def)
    have "heap_up_hole key ?p (heap_swap ?p i xs)"
      unfolding heap_up_hole_def heap_edge_def length_heap_swap
    proof (intro conjI allI impI, goal_cases)
      case (1 j)
      then have j: "j < length xs" "0 < j" "j \<noteq> ?p" by auto
      have "heap_parent j < j" using j heap_parent_less [of j] by simp
      consider "j = i" | "j \<noteq> i" "heap_parent j = i" | "j \<noteq> i" "heap_parent j = ?p" | "j \<noteq> i" "heap_parent j \<noteq> i" "heap_parent j \<noteq> ?p" by blast
      then show ?case
      proof cases
        case 1
        then show ?thesis using True p by (simp add: nth less_imp_le)
      next
        case 2
        then show ?thesis using child [OF j(1,2)] j p by (simp add: nth)
      next
        case 3
        then show ?thesis using edge [OF j(1,2)] j True p by (simp add: nth)
      next
        case 4
        then show ?thesis using edge [OF j(1,2)] j by (simp add: nth)
      qed
    next
      case (2 j)
      then have j: "j < length xs" "0 < j" "heap_parent j = ?p" "0 < ?p" by auto
      have q: "heap_parent ?p < ?p" using j(4) heap_parent_less [of ?p] by simp
      have "key (xs ! heap_parent ?p) \<le> key (xs ! ?p)" using edge [of ?p] p j(4) by simp
      moreover have "j \<noteq> ?p" using j heap_parent_less [of j] by auto
      moreover have "j \<noteq> i \<Longrightarrow> key (xs ! ?p) \<le> key (xs ! j)" using edge [of j] j by simp
      ultimately show ?case using q p by (auto simp: nth)
    qed
    then show ?thesis using 1(1) [of] True p 1(2) by (subst sift_up.simps) simp
  next
    case False
    have "heap_edge key xs j" if "j < length xs" "0 < j" for j
      using False 1(3) that by (cases "j = i") (auto simp: heap_up_hole_def heap_edge_def)
    with False show ?thesis by (subst sift_up.simps) (auto simp: heap_from_def)
  qed
qed

lemma heap_push_heap: "is_heap key xs \<Longrightarrow> is_heap key (heap_push key x xs)"
  unfolding heap_push_def
proof (rule sift_up_heap)
  assume h: "is_heap key xs"
  have "heap_edge key (xs @ [x]) j" if "j < length xs" "0 < j" for j
    using h that heap_parent_less [of j] by (simp add: heap_from_def heap_edge_def nth_append)
  moreover have "heap_parent j \<noteq> length xs" if "j < Suc (length xs)" "0 < j" for j
    using heap_parent_less [of j] that by simp
  ultimately show "heap_up_hole key (length xs) (xs @ [x])" by (auto simp: heap_up_hole_def less_Suc_eq)
qed simp

lemma least_child_le:
  assumes "j < length xs" "0 < j" "heap_parent j = i"
  shows "key (xs ! least_child key i xs) \<le> key (xs ! j)"
  using assms by (auto simp: heap_parent_eq least_child_def)

lemma heap_parent_child [simp]: "heap_parent (least_child key i xs) = i"
  by (simp add: least_child_def heap_parent_def)

lemma sift_down_heap:
  "m \<le> i \<Longrightarrow> heap_down_hole key m i xs \<Longrightarrow> heap_from key m (sift_down key i xs)"
proof (induction key i xs rule: sift_down.induct)
  case (1 key i xs)
  let ?c = "least_child key i xs"
  have edge: "key (xs ! heap_parent j) \<le> key (xs ! j)" if "j < length xs" "0 < j" "m \<le> heap_parent j" "heap_parent j \<noteq> i" for j
    using 1(3) that by (simp add: heap_down_hole_def heap_edge_def)
  show ?case
  proof (cases "2 * i + 1 < length xs \<and> key (xs ! ?c) < key (xs ! i)")
    case True
    have c: "i < ?c" "?c < length xs" "i < length xs" "0 < ?c" using True least_child_bounds(1) [of i key xs] least_child_bounds(2) [of i xs key] by auto
    note nth = heap_swap_nth [OF c(3,2)]
    have "heap_down_hole key m ?c (heap_swap i ?c xs)"
      unfolding heap_down_hole_def heap_edge_def length_heap_swap
    proof (intro conjI allI impI, goal_cases)
      case (1 j)
      then have j: "j < length xs" "0 < j" "m \<le> heap_parent j" "heap_parent j \<noteq> ?c" by auto
      have less: "heap_parent j < j" using j(2) heap_parent_less [of j] by simp
      consider "j = i" | "heap_parent j = i" | "j \<noteq> i" "heap_parent j \<noteq> i" by blast
      then show ?case
      proof cases
        case 1
        then have "key (xs ! heap_parent i) \<le> key (xs ! ?c)" using \<open>heap_down_hole key m i xs\<close> j c by (simp add: heap_down_hole_def)
        with 1 j less show ?thesis by (simp add: nth)
      next
        case 2
        then show ?thesis using least_child_le [OF j(1,2) 2, of key] True less by (auto simp: nth less_imp_le)
      next
        case 3
        then have "j \<noteq> ?c" by auto
        with 3 j show ?thesis using edge [OF j(1-3)] by (simp add: nth)
      qed
    next
      case (2 j)
      then have j: "j < length xs" "0 < j" "heap_parent j = ?c" by auto
      then have "?c < j" using heap_parent_less [of j] by simp
      moreover have "key (xs ! ?c) \<le> key (xs ! j)" using edge [OF j(1,2)] j(3) c(1) \<open>m \<le> i\<close> by simp
      ultimately show ?case using c by (simp add: nth)
    qed
    then show ?thesis using 1(1) True c \<open>m \<le> i\<close> by (subst sift_down.simps) simp
  next
    case False
    have "heap_edge key xs j" if "j < length xs" "0 < j" "m \<le> heap_parent j" for j
    proof (cases "heap_parent j = i")
      case True
      with that have "2 * i + 1 < length xs" by (auto simp: heap_parent_eq)
      with False least_child_le [OF that(1,2) True, of key] True show ?thesis by (auto simp: heap_edge_def)
    qed (use edge that in \<open>simp add: heap_edge_def\<close>)
    with False show ?thesis by (subst sift_down.simps) (auto simp: heap_from_def)
  qed
qed

lemma heapify_heap: "heap_from key i xs \<Longrightarrow> is_heap key (heapify key i xs)"
proof (induction i arbitrary: xs)
  case (Suc i)
  have "heap_down_hole key i i xs"
    using Suc.prems heap_parent_less [of i] by (auto simp: heap_down_hole_def heap_from_def)
  then show ?case using Suc.IH sift_down_heap [of i i key xs] by simp
qed simp

lemma make_heap_heap: "is_heap key (make_heap key xs)"
  unfolding make_heap_def by (rule heapify_heap) (auto simp: heap_from_def heap_parent_def)

lemma heap_pop_heap: "is_heap key xs \<Longrightarrow> heap_pop key xs = Some (x, ys) \<Longrightarrow> is_heap key ys"
proof (cases xs)
  case (Cons z zs)
  assume h: "is_heap key xs" and p: "heap_pop key xs = Some (x, ys)"
  show ?thesis
  proof (cases "zs = []")
    case False
    have same: "(last zs # butlast zs) ! j = xs ! j" if "0 < j" "j < length zs" for j
      using that Cons by (cases j) (auto simp: nth_butlast)
    have "heap_edge key (last zs # butlast zs) j" if j: "j < length zs" "0 < j" "heap_parent j \<noteq> 0" for j
    proof -
      have "heap_parent j < j" using j heap_parent_less by simp
      then have "(last zs # butlast zs) ! heap_parent j = xs ! heap_parent j" using j by (intro same) auto
      moreover have "heap_edge key xs j" using h j Cons by (simp add: heap_from_def)
      ultimately show ?thesis using same [OF j(2,1)] by (simp only: heap_edge_def)
    qed
    then have "heap_down_hole key 0 0 (last zs # butlast zs)" using False by (simp add: heap_down_hole_def)
    with sift_down_heap [of 0 0 key] p False Cons show ?thesis by auto
  qed (use p Cons in \<open>simp add: heap_from_def\<close>)
qed simp

lemma heap_front:
  assumes "is_heap key xs" and "j < length xs"
  shows "key (xs ! 0) \<le> key (xs ! j)"
  using assms(2)
proof (induction j rule: less_induct)
  case (less j)
  show ?case
  proof (cases "j = 0")
    case False
    then have "heap_parent j < j" "key (xs ! heap_parent j) \<le> key (xs ! j)"
      using heap_parent_less assms(1) less.prems by (auto simp: heap_from_def heap_edge_def)
    with less show ?thesis by (meson less_trans order_trans)
  qed simp
qed

section \<open>The queue interface\<close>

text \<open>
  What a client of the heap relies on: a queue whose contents are a multiset, from which the least element is taken.
\<close>

locale min_queue =
  fixes key :: "'a \<Rightarrow> 'k::linorder" and ok :: "'q \<Rightarrow> bool" and contents :: "'q \<Rightarrow> 'a multiset"
    and push :: "'a \<Rightarrow> 'q \<Rightarrow> 'q" and pop :: "'q \<Rightarrow> ('a \<times> 'q) option"
  assumes push_ok: "ok q \<Longrightarrow> ok (push x q)" and push_contents: "contents (push x q) = add_mset x (contents q)"
    and pop_ok: "ok q \<Longrightarrow> pop q = Some (x, q') \<Longrightarrow> ok q'"
    and pop_contents: "pop q = Some (x, q') \<Longrightarrow> contents q = add_mset x (contents q')"
    and pop_least: "ok q \<Longrightarrow> pop q = Some (x, q') \<Longrightarrow> y \<in># contents q \<Longrightarrow> key x \<le> key y"
    and pop_none: "pop q = None \<longleftrightarrow> contents q = {#}"
begin

text \<open>Two successive pops come out in order, whatever not smaller element is pushed between them.\<close>

lemma pop_push_pop:
  assumes "ok q" "pop q = Some (x, q')" "key x \<le> key z" "pop (push z q') = Some (y, q'')"
  shows "key x \<le> key y"
proof -
  have "y \<in># add_mset z (contents q')" using pop_contents [OF assms(4)] by (simp add: push_contents)
  with assms(3) pop_least [OF assms(1,2), of y] pop_contents [OF assms(2)] show ?thesis by auto
qed

lemma pop_size: "pop q = Some (x, q') \<Longrightarrow> size (contents q) = Suc (size (contents q'))"
  by (simp add: pop_contents)

end

lemma heap_pop_least:
  assumes "is_heap key xs" "heap_pop key xs = Some (x, ys)" "y \<in># mset xs"
  shows "key x \<le> key y"
proof -
  from assms(3) obtain j where "j < length xs" "xs ! j = y" by (auto simp: in_set_conv_nth)
  moreover have "x = xs ! 0" using assms(2) by (cases xs) auto
  ultimately show ?thesis using heap_front [OF assms(1)] by auto
qed

interpretation bh: min_queue key "is_heap key" mset "heap_push key" "heap_pop key" for key :: "'a \<Rightarrow> 'k::linorder"
proof (unfold_locales, goal_cases)
  case (1 q x)
  then show ?case by (rule heap_push_heap)
next
  case (3 q x q')
  then show ?case by (rule heap_pop_heap)
next
  case (5 q x q' y)
  then show ?case by (rule heap_pop_least)
next
  case (6 q)
  then show ?case by (cases q) simp_all
qed (simp_all add: mset_heap_push mset_heap_pop)

end
