(* ===== verification/EventQueue.thy ===== *)
theory EventQueue
  imports BinaryHeap Model "HOL-Library.Product_Lexorder"
begin

text \<open>
  The event queue of the simulator, \<^verbatim>\<open>EventQueue\<close> of \<^verbatim>\<open>src/simulator.cpp\<close>: events ordered by time
  and, at equal times, by the order in which they were scheduled, with bounds on the pending events, on all events
  ever scheduled and on the sequence numbers.
\<close>

section \<open>Events\<close>

datatype StorageOperationKind = OpWrite | OpFlush

datatype StorageCompletionStatus = StorageSuccess | StorageIoError | StorageShortWrite

record TimerEvent =
  te_node :: NodeId
  te_kind :: TimerKind
  te_generation :: u64
  te_incarnation :: u64

record NetworkEvent =
  ne_delivery_id :: u64
  ne_from :: NodeId
  ne_to :: NodeId
  ne_from_incarnation :: u64
  ne_to_incarnation :: u64
  ne_copy_index :: u32
  ne_bytes :: bytes

record StorageEvent =
  se_node :: NodeId
  se_operation_id :: StorageOpId
  se_kind :: StorageOperationKind
  se_incarnation :: u64
  se_byte_count :: nat
  se_status :: StorageCompletionStatus

record UserEvent =
  ue_node :: NodeId
  ue_tag :: u64
  ue_incarnation :: u64
  ue_bytes :: bytes

datatype EventPayload = PTimer TimerEvent | PNetwork NetworkEvent | PStorage StorageEvent | PUser UserEvent

record ScheduledEvent =
  ev_time :: Tick
  ev_sequence :: u64
  ev_payload :: EventPayload

datatype ScheduleStatus = Scheduled | ScheduleUnknownNode | ScheduleNodeDown | SchedulePayloadLimit | ScheduleTimeInPast
  | ScheduleTimeOverflow | SchedulePendingLimit | ScheduleTotalLimit | ScheduleSequenceExhausted

type_synonym ScheduleResult = "ScheduleStatus \<times> u64"

definition add_overflows :: "Tick \<Rightarrow> Tick \<Rightarrow> bool" where
  "add_overflows lhs rhs \<longleftrightarrow> rhs > -1 - lhs"

definition event_key :: "ScheduledEvent \<Rightarrow> Tick \<times> u64" where
  "event_key e = (ev_time e, ev_sequence e)"

section \<open>The queue\<close>

record EventQueueLimits =
  el_max_pending_events :: nat
  el_max_total_events :: u64

record EventQueue =
  eq_limits :: EventQueueLimits
  eq_now :: Tick
  eq_next_sequence :: u64
  eq_total_scheduled :: u64
  eq_heap :: "ScheduledEvent list"

definition new_event_queue :: "EventQueueLimits \<Rightarrow> EventQueue" where
  "new_event_queue limits =
     \<lparr>eq_limits = limits, eq_now = 0, eq_next_sequence = 1, eq_total_scheduled = 0, eq_heap = []\<rparr>"

definition schedule_at :: "Tick \<Rightarrow> EventPayload \<Rightarrow> EventQueue \<Rightarrow> ScheduleResult \<times> EventQueue" where
  "schedule_at time payload q =
     (if time < eq_now q then ((ScheduleTimeInPast, 0), q)
      else if length (eq_heap q) \<ge> el_max_pending_events (eq_limits q) then ((SchedulePendingLimit, 0), q)
      else if eq_total_scheduled q \<ge> el_max_total_events (eq_limits q) then ((ScheduleTotalLimit, 0), q)
      else if eq_next_sequence q = 0 then ((ScheduleSequenceExhausted, 0), q)
      else let sequence = eq_next_sequence q in
        ((Scheduled, sequence),
         q\<lparr>eq_next_sequence := (if eq_next_sequence q = -1 then 0 else eq_next_sequence q + 1),
           eq_total_scheduled := eq_total_scheduled q + 1,
           eq_heap := heap_push event_key \<lparr>ev_time = time, ev_sequence = sequence, ev_payload = payload\<rparr> (eq_heap q)\<rparr>))"

definition schedule_after :: "Tick \<Rightarrow> EventPayload \<Rightarrow> EventQueue \<Rightarrow> ScheduleResult \<times> EventQueue" where
  "schedule_after delay payload q =
     (if add_overflows (eq_now q) delay then ((ScheduleTimeOverflow, 0), q)
      else schedule_at (eq_now q + delay) payload q)"

definition pop_next :: "EventQueue \<Rightarrow> (ScheduledEvent \<times> EventQueue) option" where
  "pop_next q =
     (case heap_pop event_key (eq_heap q) of
        None \<Rightarrow> None
      | Some (event, heap) \<Rightarrow> Some (event, q\<lparr>eq_heap := heap, eq_now := ev_time event\<rparr>))"

definition extract_if :: "(ScheduledEvent \<Rightarrow> bool) \<Rightarrow> EventQueue \<Rightarrow> ScheduledEvent list \<times> EventQueue" where
  "extract_if predicate q =
     (filter predicate (eq_heap q), q\<lparr>eq_heap := make_heap event_key (filter (\<lambda>e. \<not> predicate e) (eq_heap q))\<rparr>)"

definition can_schedule :: "nat \<Rightarrow> EventQueue \<Rightarrow> bool" where
  "can_schedule wanted q \<longleftrightarrow>
     (if wanted > el_max_pending_events (eq_limits q) \<or>
         length (eq_heap q) > el_max_pending_events (eq_limits q) - wanted then False
      else if wanted > unat (el_max_total_events (eq_limits q)) \<or>
         unat (eq_total_scheduled q) > unat (el_max_total_events (eq_limits q)) - wanted then False
      else if eq_next_sequence q = 0 then False
      else let remaining_sequences = -1 - eq_next_sequence q + 1 in wanted \<le> unat remaining_sequences)"

section \<open>Invariant\<close>

text \<open>
  The heap is ordered; no pending event lies in the past; sequence numbers are given once, in order, and are not
  reused; all three bounds hold. A queue whose sequence numbers are used up has \<open>0\<close> as its next one.
\<close>

definition next_sequence_bound :: "EventQueue \<Rightarrow> nat" where
  "next_sequence_bound q = (if eq_next_sequence q = 0 then 2 ^ 64 else unat (eq_next_sequence q))"

definition queue_inv :: "EventQueue \<Rightarrow> bool" where
  "queue_inv q \<longleftrightarrow> is_heap event_key (eq_heap q) \<and>
     (\<forall>e \<in> set (eq_heap q). eq_now q \<le> ev_time e \<and> 0 < unat (ev_sequence e) \<and> unat (ev_sequence e) < next_sequence_bound q) \<and>
     distinct (map ev_sequence (eq_heap q)) \<and> length (eq_heap q) \<le> el_max_pending_events (eq_limits q) \<and>
     unat (eq_total_scheduled q) \<le> unat (el_max_total_events (eq_limits q)) \<and>
     unat (eq_total_scheduled q) + 1 = next_sequence_bound q"

abbreviation pending_events_of :: "EventQueue \<Rightarrow> ScheduledEvent multiset" where
  "pending_events_of q \<equiv> mset (eq_heap q)"

lemma new_event_queue_inv: "queue_inv (new_event_queue limits)"
  by (simp add: queue_inv_def new_event_queue_def heap_from_def next_sequence_bound_def)

lemma schedule_at_cases [consumes 1, case_names scheduled refused]:
  assumes "schedule_at time payload q = (r, q')"
  obtains e where "r = (Scheduled, ev_sequence e)" "e = \<lparr>ev_time = time, ev_sequence = eq_next_sequence q, ev_payload = payload\<rparr>"
      "eq_now q \<le> time" "eq_next_sequence q \<noteq> 0" "length (eq_heap q) < el_max_pending_events (eq_limits q)"
      "eq_total_scheduled q < el_max_total_events (eq_limits q)"
      "q' = q\<lparr>eq_next_sequence := (if eq_next_sequence q = -1 then 0 else eq_next_sequence q + 1),
        eq_total_scheduled := eq_total_scheduled q + 1, eq_heap := heap_push event_key e (eq_heap q)\<rparr>"
  | "fst r \<noteq> Scheduled" "q' = q"
  using assms by (auto simp: schedule_at_def Let_def not_less not_le split: if_splits)

lemma schedule_at_ok:
  "eq_now q \<le> time \<Longrightarrow> length (eq_heap q) < el_max_pending_events (eq_limits q) \<Longrightarrow>
   eq_total_scheduled q < el_max_total_events (eq_limits q) \<Longrightarrow> eq_next_sequence q \<noteq> 0 \<Longrightarrow>
   fst (schedule_at time payload q) = (Scheduled, eq_next_sequence q)"
  by (auto simp: schedule_at_def Let_def not_less not_le)

lemma length_heap_push [simp]: "length (heap_push key x xs) = Suc (length xs)"
  by (metis mset_heap_push size_mset size_add_mset)

lemma set_heap_push [simp]: "set (heap_push key x xs) = insert x (set xs)"
  by (metis mset_heap_push set_mset_mset set_mset_add_mset_insert)

lemma distinct_map_mset: "mset xs = mset ys \<Longrightarrow> distinct (map f xs) \<longleftrightarrow> distinct (map f ys)"
  by (metis mset_eq_imp_distinct_iff mset_map)

lemma schedule_at_inv:
  assumes "queue_inv q" "schedule_at time payload q = (r, q')"
  shows "queue_inv q'"
  using assms(2)
proof (cases rule: schedule_at_cases)
  case (scheduled e)
  let ?n = "eq_next_sequence q"
  have seq: "ev_sequence e = ?n" "0 < unat ?n" using scheduled(2,4) by (simp_all add: unat_gt_0)
  have bound: "next_sequence_bound q = unat ?n" "next_sequence_bound q' = unat ?n + 1"
    using scheduled(4,7) by (auto simp: next_sequence_bound_def unat_succ64 add_eq_0_iff2)
  have t: "unat (eq_total_scheduled q) < unat (el_max_total_events (eq_limits q))" using scheduled(6) by (simp add: word_less_nat_alt)
  then have total: "unat (eq_total_scheduled q') = unat (eq_total_scheduled q) + 1"
    using scheduled(6,7) unat_succ_less by simp
  have old: "\<forall>x \<in> set (eq_heap q). unat (ev_sequence x) < unat ?n" using assms(1) bound(1) by (simp add: queue_inv_def)
  have "distinct (map ev_sequence (heap_push event_key e (eq_heap q)))"
    using distinct_map_mset [of "heap_push event_key e (eq_heap q)" "e # eq_heap q" ev_sequence] old assms(1) seq
    by (auto simp: mset_heap_push queue_inv_def)
  moreover have "is_heap event_key (heap_push event_key e (eq_heap q))" using assms(1) bh.push_ok [of event_key] by (simp add: queue_inv_def)
  ultimately show ?thesis
    using assms(1) seq old bound total t scheduled(2,3,5,7) unfolding queue_inv_def by auto
qed (use assms in simp)

lemma schedule_after_cases:
  assumes "schedule_after delay payload q = (r, q')"
  obtains "schedule_at (eq_now q + delay) payload q = (r, q')" "\<not> add_overflows (eq_now q) delay"
  | "fst r \<noteq> Scheduled" "q' = q"
  using assms by (auto simp: schedule_after_def split: if_splits)

lemma schedule_after_inv: "queue_inv q \<Longrightarrow> schedule_after delay payload q = (r, q') \<Longrightarrow> queue_inv q'"
  by (auto elim!: schedule_after_cases intro: schedule_at_inv)

lemma pop_next_SomeD:
  assumes "pop_next q = Some (e, q')"
  shows "heap_pop event_key (eq_heap q) = Some (e, eq_heap q')" "q' = q\<lparr>eq_heap := eq_heap q', eq_now := ev_time e\<rparr>"
    "pending_events_of q = add_mset e (pending_events_of q')" "eq_now q' = ev_time e" "eq_limits q' = eq_limits q"
  using assms bh.pop_contents [of event_key "eq_heap q" e] by (auto simp: pop_next_def split: option.splits)

lemma pop_next_None: "pop_next q = None \<longleftrightarrow> eq_heap q = []"
  using bh.pop_none [of event_key "eq_heap q"] by (auto simp: pop_next_def split: option.splits)

lemma pop_next_least:
  assumes "queue_inv q" "pop_next q = Some (e, q')" "x \<in> set (eq_heap q)"
  shows "event_key e \<le> event_key x"
  using bh.pop_least [OF _ pop_next_SomeD(1) [OF assms(2)], of x] assms(1,3) by (simp add: queue_inv_def)

lemma set_heap_pop: "mset xs = add_mset x (mset ys) \<Longrightarrow> set xs = insert x (set ys)"
  by (metis set_mset_mset set_mset_add_mset_insert)

lemma pop_next_inv:
  assumes "queue_inv q" "pop_next q = Some (e, q')"
  shows "queue_inv q'" "eq_now q \<le> ev_time e"
proof -
  note p = pop_next_SomeD [OF assms(2)]
  have sub: "set (eq_heap q) = insert e (set (eq_heap q'))" by (rule set_heap_pop [OF p(3)])
  have "ev_time e \<le> ev_time x" if "x \<in> set (eq_heap q')" for x
    using pop_next_least [OF assms, of x] that sub by (auto simp: event_key_def less_eq_prod_def)
  moreover have "distinct (map ev_sequence (e # eq_heap q'))"
    using distinct_map_mset [of "eq_heap q" "e # eq_heap q'" ev_sequence] p(3) assms(1) by (simp add: queue_inv_def)
  moreover have "length (eq_heap q) = Suc (length (eq_heap q'))" using arg_cong [OF p(3), of size] by simp
  moreover have "is_heap event_key (eq_heap q')" using assms(1) bh.pop_ok [OF _ p(1)] by (simp add: queue_inv_def)
  moreover have "next_sequence_bound q' = next_sequence_bound q" "eq_total_scheduled q' = eq_total_scheduled q"
    by (subst p(2), simp add: next_sequence_bound_def)+
  ultimately show "queue_inv q'" using assms(1) p(4,5) sub by (auto simp: queue_inv_def)
  show "eq_now q \<le> ev_time e" using assms(1) sub by (simp add: queue_inv_def)
qed

lemma extract_if_simps [simp]:
  "fst (extract_if P q) = filter P (eq_heap q)"
  "mset (eq_heap (snd (extract_if P q))) = filter_mset (\<lambda>e. \<not> P e) (pending_events_of q)"
  "set (eq_heap (snd (extract_if P q))) = {e \<in> set (eq_heap q). \<not> P e}"
  "eq_now (snd (extract_if P q)) = eq_now q" "eq_limits (snd (extract_if P q)) = eq_limits q"
  "eq_next_sequence (snd (extract_if P q)) = eq_next_sequence q" "eq_total_scheduled (snd (extract_if P q)) = eq_total_scheduled q"
proof -
  show m: "mset (eq_heap (snd (extract_if P q))) = filter_mset (\<lambda>e. \<not> P e) (pending_events_of q)"
    by (simp add: extract_if_def mset_make_heap)
  have "set (eq_heap (snd (extract_if P q))) = set_mset (filter_mset (\<lambda>e. \<not> P e) (pending_events_of q))"
    by (subst m [symmetric]) simp
  then show "set (eq_heap (snd (extract_if P q))) = {e \<in> set (eq_heap q). \<not> P e}" by simp
qed (simp_all add: extract_if_def)

lemma extract_if_inv: "queue_inv q \<Longrightarrow> queue_inv (snd (extract_if P q))"
proof -
  assume inv: "queue_inv q"
  have m: "mset (eq_heap (snd (extract_if P q))) = mset (filter (\<lambda>e. \<not> P e) (eq_heap q))" by (simp add: mset_filter)
  have "length (eq_heap (snd (extract_if P q))) = length (filter (\<lambda>e. \<not> P e) (eq_heap q))" by (rule mset_eq_length [OF m])
  then have "length (eq_heap (snd (extract_if P q))) \<le> length (eq_heap q)" by simp
  moreover have "distinct (map ev_sequence (eq_heap (snd (extract_if P q))))"
    using distinct_map_mset [OF m, of ev_sequence] inv by (simp add: queue_inv_def distinct_map_filter)
  moreover have "is_heap event_key (eq_heap (snd (extract_if P q)))" by (simp add: extract_if_def make_heap_heap)
  moreover have "next_sequence_bound (snd (extract_if P q)) = next_sequence_bound q" by (simp add: next_sequence_bound_def)
  ultimately show ?thesis using inv by (auto simp: queue_inv_def)
qed

lemma can_schedule_step:
  assumes "queue_inv q" "can_schedule (Suc n) q" "eq_now q \<le> time" "schedule_at time payload q = (r, q')"
  shows "r = (Scheduled, eq_next_sequence q)" "n = 0 \<or> can_schedule n q'" "eq_now q' = eq_now q"
proof -
  have c: "length (eq_heap q) + Suc n \<le> el_max_pending_events (eq_limits q)"
      "unat (eq_total_scheduled q) + Suc n \<le> unat (el_max_total_events (eq_limits q))" "eq_next_sequence q \<noteq> 0"
      "Suc n \<le> unat (-1 - eq_next_sequence q + 1)"
    using assms(2) by (auto simp: can_schedule_def Let_def split: if_splits)
  show r: "r = (Scheduled, eq_next_sequence q)"
    using schedule_at_ok [OF assms(3), of payload] c assms(4) by (simp add: word_less_nat_alt)
  have "can_schedule n q' \<and> eq_now q' = eq_now q \<or> n = 0 \<and> eq_now q' = eq_now q"
    using assms(4)
  proof (cases rule: schedule_at_cases)
    case (scheduled e)
    have t: "unat (eq_total_scheduled q + 1) = unat (eq_total_scheduled q) + 1"
      using unat_succ_less [OF scheduled(6)] by simp
    have "-1 - w + 1 = - w" for w :: u64 by simp
    then have room: "Suc n \<le> 18446744073709551616 - unat (eq_next_sequence q)" using c(4) unat_uminus64 [OF c(3)] by (simp only:)
    show ?thesis
    proof (cases "eq_next_sequence q = -1")
      case True
      with room show ?thesis using scheduled(7) by simp
    next
      case False
      moreover have "eq_next_sequence q + 1 \<noteq> 0" using False by (simp add: add_eq_0_iff2)
      moreover have "unat (-1 - (eq_next_sequence q + 1) + 1) = 18446744073709551616 - unat (eq_next_sequence q) - 1"
        by (simp add: unat_sub)
      ultimately show ?thesis using scheduled(7) room t c(1,2) by (simp add: can_schedule_def) linarith
    qed
  qed (use r in simp)
  then show "n = 0 \<or> can_schedule n q'" "eq_now q' = eq_now q" by auto
qed

end
