(* ===== verification/Simulator.thy ===== *)
theory Simulator
  imports EventQueue
begin

text \<open>
  The deterministic simulator, \<^verbatim>\<open>Simulator\<close> of \<^verbatim>\<open>src/simulator.cpp\<close>: nodes with an
  incarnation, timers with a generation, links with faults and byte accounting, and a storage device per node whose
  writes reach an unstable tail that a flush makes stable. Every operation of the class is a function on the
  simulator's state; \<^verbatim>\<open>size_t\<close> values are naturals with the overflow guards of the source.
\<close>

section \<open>Configuration\<close>

record TransportLimits =
  tl_max_frame_bytes :: nat
  tl_max_queued_bytes_per_link :: nat
  tl_max_total_queued_bytes :: nat
  tl_max_extra_duplicates_per_send :: u32
  tl_drop_in_flight_on_endpoint_crash :: bool

record StorageLimits =
  sl_max_file_bytes :: nat
  sl_max_write_bytes :: nat
  sl_max_pending_bytes :: nat
  sl_max_pending_operations :: nat

record SimulatorConfig =
  sc_events :: EventQueueLimits
  sc_transport :: TransportLimits
  sc_storage :: StorageLimits
  sc_max_trace_records :: nat

definition default_simulator_config :: SimulatorConfig where
  "default_simulator_config =
     \<lparr>sc_events = \<lparr>el_max_pending_events = 100000, el_max_total_events = 1000000\<rparr>,
      sc_transport = \<lparr>tl_max_frame_bytes = 1024 * 1024, tl_max_queued_bytes_per_link = 2 * 1024 * 1024,
        tl_max_total_queued_bytes = 16 * 1024 * 1024, tl_max_extra_duplicates_per_send = 8,
        tl_drop_in_flight_on_endpoint_crash = True\<rparr>,
      sc_storage = \<lparr>sl_max_file_bytes = 64 * 1024 * 1024, sl_max_write_bytes = 1024 * 1024,
        sl_max_pending_bytes = 4 * 1024 * 1024, sl_max_pending_operations = 1024\<rparr>,
      sc_max_trace_records = 1000000\<rparr>"

section \<open>State\<close>

record LinkFaultState =
  lf_partitioned :: bool
  lf_additional_delay :: Tick
  lf_drop_next :: u32
  lf_extra_copies_next :: u32

record LinkState =
  lk_fault :: LinkFaultState
  lk_queued_bytes :: nat

definition initial_link :: LinkState where
  "initial_link = \<lparr>lk_fault = \<lparr>lf_partitioned = False, lf_additional_delay = 0, lf_drop_next = 0, lf_extra_copies_next = 0\<rparr>,
     lk_queued_bytes = 0\<rparr>"

datatype SendStatus = SendQueued | SendDropped | SendPartitioned | SendUnknownNode | SendEndpointDown | SendFrameLimit
  | SendQueueLimit | SendDuplicateLimit | SendTimeOverflow | SendEventLimit

type_synonym SendResult = "SendStatus \<times> u32 \<times> nat"

record TimerToken =
  tk_node :: NodeId
  tk_kind :: TimerKind
  tk_generation :: u64
  tk_incarnation :: u64
  tk_event_sequence :: u64

datatype StorageSubmitStatus = SubmitQueued | SubmitUnknownNode | SubmitNodeDown | SubmitWriteLimit | SubmitPendingLimit
  | SubmitFileLimit | SubmitTimeOverflow | SubmitEventLimit | SubmitIdExhausted

type_synonym StorageSubmitResult = "StorageSubmitStatus \<times> StorageOpId \<times> Tick"

record StorageCrashSpec =
  cs_surviving_unstable_bytes :: nat
  cs_torn_pending_write_bytes :: nat

datatype SimTraceKind = node_registered | node_crashed | node_restarted | timer_armed | timer_cancelled | timer_fired
  | stale_event | link_fault_set | network_queued | network_dropped | network_saturated | network_delivered
  | storage_queued | storage_completed | storage_crashed | storage_initialized | storage_repaired | storage_fault
  | storage_saturated | user_scheduled | user_delivered

record SimTraceRecord =
  tr_time :: Tick
  tr_sequence :: u64
  tr_kind :: SimTraceKind
  tr_node :: NodeId
  tr_peer :: NodeId
  tr_token :: u64
  tr_incarnation :: u64
  tr_bytes :: nat
  tr_detail :: string

record PendingStorageOperation =
  po_kind :: StorageOperationKind
  po_bytes :: bytes
  po_completion_status :: StorageCompletionStatus
  po_actual_write_bytes :: nat
  po_completion_time :: Tick
  po_event_sequence :: u64

record StorageDevice =
  sd_stable :: bytes
  sd_unstable :: bytes
  sd_pending :: "(StorageOpId, PendingStorageOperation) fmap"
  sd_pending_bytes :: nat
  sd_available_at :: Tick
  sd_fail_next_write :: bool
  sd_short_write_prefix :: "nat option"
  sd_fail_next_flush :: bool

record SimNode =
  sn_alive :: bool
  sn_incarnation :: u64
  sn_election_generation :: u64
  sn_heartbeat_generation :: u64
  sn_storage :: StorageDevice

definition initial_device :: StorageDevice where
  "initial_device = \<lparr>sd_stable = [], sd_unstable = [], sd_pending = fmempty, sd_pending_bytes = 0, sd_available_at = 0,
     sd_fail_next_write = False, sd_short_write_prefix = None, sd_fail_next_flush = False\<rparr>"

definition initial_sim_node :: SimNode where
  "initial_sim_node = \<lparr>sn_alive = True, sn_incarnation = 1, sn_election_generation = 0, sn_heartbeat_generation = 0,
     sn_storage = initial_device\<rparr>"

record Simulator =
  sim_config :: SimulatorConfig
  sim_events :: EventQueue
  sim_nodes :: "(NodeId, SimNode) fmap"
  sim_links :: "(NodeId \<times> NodeId, LinkState) fmap"
  sim_total_network_bytes :: nat
  sim_next_delivery_id :: u64
  sim_next_storage_id :: StorageOpId
  sim_next_trace_sequence :: u64
  sim_trace :: "SimTraceRecord list"
  sim_trace_truncated :: bool

definition new_simulator :: "SimulatorConfig \<Rightarrow> Simulator" where
  "new_simulator config =
     (let transport = sc_transport config;
          config = (if tl_max_extra_duplicates_per_send transport = -1
                    then config\<lparr>sc_transport := transport\<lparr>tl_max_extra_duplicates_per_send :=
                      tl_max_extra_duplicates_per_send transport - 1\<rparr>\<rparr> else config)
      in \<lparr>sim_config = config, sim_events = new_event_queue (sc_events config), sim_nodes = fmempty, sim_links = fmempty,
          sim_total_network_bytes = 0, sim_next_delivery_id = 1, sim_next_storage_id = 1, sim_next_trace_sequence = 1,
          sim_trace = [], sim_trace_truncated = False\<rparr>)"

section \<open>Helpers of the implementation\<close>

definition sim_node :: "NodeId \<Rightarrow> Simulator \<Rightarrow> SimNode option" where
  "sim_node node sim = fmlookup (sim_nodes sim) node"

definition put_node :: "NodeId \<Rightarrow> SimNode \<Rightarrow> Simulator \<Rightarrow> Simulator" where
  "put_node node state sim = sim\<lparr>sim_nodes := fmupd node state (sim_nodes sim)\<rparr>"

definition find_link :: "NodeId \<Rightarrow> NodeId \<Rightarrow> Simulator \<Rightarrow> LinkState option" where
  "find_link from_node to_node sim = fmlookup (sim_links sim) (from_node, to_node)"

definition get_link :: "NodeId \<Rightarrow> NodeId \<Rightarrow> Simulator \<Rightarrow> LinkState" where
  "get_link from_node to_node sim = (case find_link from_node to_node sim of None \<Rightarrow> initial_link | Some l \<Rightarrow> l)"

definition put_link :: "NodeId \<Rightarrow> NodeId \<Rightarrow> LinkState \<Rightarrow> Simulator \<Rightarrow> Simulator" where
  "put_link from_node to_node l sim = sim\<lparr>sim_links := fmupd (from_node, to_node) l (sim_links sim)\<rparr>"

definition put_fault :: "NodeId \<Rightarrow> NodeId \<Rightarrow> (LinkFaultState \<Rightarrow> LinkFaultState) \<Rightarrow> Simulator \<Rightarrow> Simulator" where
  "put_fault from_node to_node f sim =
     (let l = get_link from_node to_node sim in put_link from_node to_node (l\<lparr>lk_fault := f (lk_fault l)\<rparr>) sim)"

definition sim_record :: "SimTraceKind \<Rightarrow> NodeId \<Rightarrow> NodeId \<Rightarrow> u64 \<Rightarrow> u64 \<Rightarrow> nat \<Rightarrow> string \<Rightarrow> Simulator \<Rightarrow> Simulator" where
  "sim_record kind node peer token incarnation n_bytes detail sim =
     (if length (sim_trace sim) \<ge> sc_max_trace_records (sim_config sim) then sim\<lparr>sim_trace_truncated := True\<rparr>
      else sim\<lparr>sim_trace := sim_trace sim @ [\<lparr>tr_time = eq_now (sim_events sim), tr_sequence = sim_next_trace_sequence sim,
                 tr_kind = kind, tr_node = node, tr_peer = peer, tr_token = token, tr_incarnation = incarnation,
                 tr_bytes = n_bytes, tr_detail = detail\<rparr>],
               sim_next_trace_sequence := sim_next_trace_sequence sim + 1\<rparr>)"

definition timer_generation :: "TimerKind \<Rightarrow> SimNode \<Rightarrow> u64" where
  "timer_generation kind node = (case kind of TimerHeartbeat \<Rightarrow> sn_heartbeat_generation node | TimerElection \<Rightarrow> sn_election_generation node)"

definition set_timer_generation :: "TimerKind \<Rightarrow> u64 \<Rightarrow> SimNode \<Rightarrow> SimNode" where
  "set_timer_generation kind g node =
     (case kind of TimerHeartbeat \<Rightarrow> node\<lparr>sn_heartbeat_generation := g\<rparr> | TimerElection \<Rightarrow> node\<lparr>sn_election_generation := g\<rparr>)"

definition advance_generation :: "u64 \<Rightarrow> u64" where
  "advance_generation generation = (if generation = -1 then 1 else generation + 1)"

definition timer_name :: "TimerKind \<Rightarrow> string" where
  "timer_name kind = (case kind of TimerHeartbeat \<Rightarrow> ''heartbeat'' | TimerElection \<Rightarrow> ''election'')"

definition storage_start :: "StorageDevice \<Rightarrow> Simulator \<Rightarrow> Tick" where
  "storage_start storage sim = max (eq_now (sim_events sim)) (sd_available_at storage)"

definition size_max :: nat where
  "size_max = 2 ^ 64 - 1"

definition size_add_overflows :: "nat \<Rightarrow> nat \<Rightarrow> bool" where
  "size_add_overflows lhs rhs \<longleftrightarrow> rhs > size_max - lhs"

definition size_multiply_overflows :: "nat \<Rightarrow> nat \<Rightarrow> bool" where
  "size_multiply_overflows lhs rhs \<longleftrightarrow> lhs \<noteq> 0 \<and> rhs > size_max div lhs"

definition next_id :: "u64 \<Rightarrow> u64" where
  "next_id n = (if n = -1 then 0 else n + 1)"

definition release_network_bytes :: "NetworkEvent \<Rightarrow> Simulator \<Rightarrow> Simulator" where
  "release_network_bytes delivery sim =
     (let n = length (ne_bytes delivery);
          sim = (case find_link (ne_from delivery) (ne_to delivery) sim of
                   None \<Rightarrow> sim
                 | Some l \<Rightarrow> put_link (ne_from delivery) (ne_to delivery)
                     (l\<lparr>lk_queued_bytes := (if n > lk_queued_bytes l then 0 else lk_queued_bytes l - n)\<rparr>) sim)
      in sim\<lparr>sim_total_network_bytes := (if n > sim_total_network_bytes sim then 0 else sim_total_network_bytes sim - n)\<rparr>)"

section \<open>Nodes\<close>

definition register_node :: "NodeId \<Rightarrow> Simulator \<Rightarrow> bool \<times> Simulator" where
  "register_node node sim =
     (case sim_node node sim of
        Some _ \<Rightarrow> (False, sim)
      | None \<Rightarrow>
          let state = initial_sim_node\<lparr>sn_storage := initial_device\<lparr>sd_available_at := eq_now (sim_events sim)\<rparr>\<rparr> in
          (True, sim_record node_registered node 0 0 (sn_incarnation state) 0 [] (put_node node state sim)))"

definition is_alive :: "NodeId \<Rightarrow> Simulator \<Rightarrow> bool" where
  "is_alive node sim = (case sim_node node sim of None \<Rightarrow> False | Some state \<Rightarrow> sn_alive state)"

definition incarnation :: "NodeId \<Rightarrow> Simulator \<Rightarrow> u64" where
  "incarnation node sim = (case sim_node node sim of None \<Rightarrow> 0 | Some state \<Rightarrow> sn_incarnation state)"

definition first_pending :: "StorageDevice \<Rightarrow> PendingStorageOperation option" where
  "first_pending storage =
     (if fmdom (sd_pending storage) = {||} then None
      else fmlookup (sd_pending storage) (Min (fset (fmdom (sd_pending storage)))))"

text \<open>The bytes that survive a crash, and how many of them come from the unstable tail and from a torn write.\<close>

definition crash_survivors :: "StorageCrashSpec \<Rightarrow> StorageDevice \<Rightarrow> nat \<times> nat \<times> bytes" where
  "crash_survivors spec storage =
     (let unstable_survivors = min (cs_surviving_unstable_bytes spec) (length (sd_unstable storage));
          stable = sd_stable storage @ take unstable_survivors (sd_unstable storage)
      in if unstable_survivors = length (sd_unstable storage)
         then (case first_pending storage of
             None \<Rightarrow> (unstable_survivors, 0, stable)
           | Some active \<Rightarrow>
               if po_kind active = OpWrite
               then let torn = min (cs_torn_pending_write_bytes spec) (length (po_bytes active))
                    in (unstable_survivors, torn, stable @ take torn (po_bytes active))
               else (unstable_survivors, 0, stable))
         else (unstable_survivors, 0, stable))"

definition crash_device :: "StorageCrashSpec \<Rightarrow> Tick \<Rightarrow> StorageDevice \<Rightarrow> StorageDevice" where
  "crash_device spec now storage =
     storage\<lparr>sd_stable := snd (snd (crash_survivors spec storage)), sd_unstable := [], sd_pending := fmempty,
       sd_pending_bytes := 0, sd_available_at := now, sd_fail_next_write := False, sd_short_write_prefix := None,
       sd_fail_next_flush := False\<rparr>"

definition cancelled_by_crash :: "bool \<Rightarrow> NodeId \<Rightarrow> ScheduledEvent \<Rightarrow> bool" where
  "cancelled_by_crash drop_in_flight node event =
     (case ev_payload event of
        PNetwork network \<Rightarrow> ne_to network = node \<or> drop_in_flight \<and> ne_from network = node
      | PTimer timer \<Rightarrow> te_node timer = node
      | PStorage storage \<Rightarrow> se_node storage = node
      | PUser user \<Rightarrow> ue_node user = node)"

definition cancel_event :: "NodeId \<Rightarrow> u64 \<Rightarrow> ScheduledEvent \<Rightarrow> Simulator \<Rightarrow> Simulator" where
  "cancel_event node inc event sim =
     (case ev_payload event of
        PNetwork network \<Rightarrow>
          sim_record stale_event (ne_from network) (ne_to network) (ne_delivery_id network) (ne_to_incarnation network)
            (length (ne_bytes network)) ''network_cancelled_by_crash'' (release_network_bytes network sim)
      | _ \<Rightarrow> sim_record stale_event node 0 (ev_sequence event) inc 0 ''event_cancelled_by_crash'' sim)"

definition crash_node :: "NodeId \<Rightarrow> StorageCrashSpec \<Rightarrow> Simulator \<Rightarrow> bool \<times> Simulator" where
  "crash_node node spec sim =
     (case sim_node node sim of
        None \<Rightarrow> (False, sim)
      | Some state \<Rightarrow>
          if \<not> sn_alive state then (False, sim)
          else
            let (unstable_survivors, torn_survivors, _) = crash_survivors spec (sn_storage state);
                state = state\<lparr>sn_storage := crash_device spec (eq_now (sim_events sim)) (sn_storage state), sn_alive := False\<rparr>;
                sim = put_node node state sim;
                (cancelled, events) = extract_if
                  (cancelled_by_crash (tl_drop_in_flight_on_endpoint_crash (sc_transport (sim_config sim))) node) (sim_events sim);
                sim = fold (cancel_event node (sn_incarnation state)) cancelled (sim\<lparr>sim_events := events\<rparr>);
                sim = sim_record storage_crashed node 0 0 (sn_incarnation state) (unstable_survivors + torn_survivors)
                  ''tail_survived'' sim
            in (True, sim_record node_crashed node 0 0 (sn_incarnation state) 0 [] sim))"

definition restart_node :: "NodeId \<Rightarrow> Simulator \<Rightarrow> bool \<times> Simulator" where
  "restart_node node sim =
     (case sim_node node sim of
        None \<Rightarrow> (False, sim)
      | Some state \<Rightarrow>
          if sn_alive state \<or> sn_incarnation state = -1 then (False, sim)
          else
            let state = state\<lparr>sn_incarnation := sn_incarnation state + 1, sn_alive := True, sn_election_generation := 0,
                  sn_heartbeat_generation := 0,
                  sn_storage := (sn_storage state)\<lparr>sd_available_at := eq_now (sim_events sim)\<rparr>\<rparr>
            in (True, sim_record node_restarted node 0 0 (sn_incarnation state) 0 [] (put_node node state sim)))"

section \<open>Timers\<close>

definition arm_timer :: "NodeId \<Rightarrow> TimerKind \<Rightarrow> Tick \<Rightarrow> Simulator \<Rightarrow> TimerToken option \<times> Simulator" where
  "arm_timer node kind delay sim =
     (case sim_node node sim of
        None \<Rightarrow> (None, sim)
      | Some state \<Rightarrow>
          if \<not> sn_alive state then (None, sim)
          else
            let generation = advance_generation (timer_generation kind state);
                event = \<lparr>te_node = node, te_kind = kind, te_generation = generation, te_incarnation = sn_incarnation state\<rparr>;
                ((status, sequence), events) = schedule_after delay (PTimer event) (sim_events sim)
            in if status \<noteq> Scheduled then (None, sim)
               else
                 (Some \<lparr>tk_node = node, tk_kind = kind, tk_generation = generation, tk_incarnation = sn_incarnation state,
                        tk_event_sequence = sequence\<rparr>,
                  sim_record timer_armed node 0 generation (sn_incarnation state) 0 (timer_name kind)
                    (put_node node (set_timer_generation kind generation state) (sim\<lparr>sim_events := events\<rparr>))))"

definition cancel_timer :: "NodeId \<Rightarrow> TimerKind \<Rightarrow> Simulator \<Rightarrow> bool \<times> Simulator" where
  "cancel_timer node kind sim =
     (case sim_node node sim of
        None \<Rightarrow> (False, sim)
      | Some state \<Rightarrow>
          if \<not> sn_alive state then (False, sim)
          else
            let generation = advance_generation (timer_generation kind state)
            in (True, sim_record timer_cancelled node 0 generation (sn_incarnation state) 0 (timer_name kind)
                  (put_node node (set_timer_generation kind generation state) sim)))"

section \<open>Links\<close>

definition both_known :: "NodeId \<Rightarrow> NodeId \<Rightarrow> Simulator \<Rightarrow> bool" where
  "both_known from_node to_node sim \<longleftrightarrow> sim_node from_node sim \<noteq> None \<and> sim_node to_node sim \<noteq> None"

definition set_partition :: "NodeId \<Rightarrow> NodeId \<Rightarrow> bool \<Rightarrow> Simulator \<Rightarrow> bool \<times> Simulator" where
  "set_partition from_node to_node partitioned sim =
     (if \<not> both_known from_node to_node sim then (False, sim)
      else (True, sim_record link_fault_set from_node to_node (if partitioned then 1 else 0) (incarnation from_node sim) 0 ''partition''
        (put_fault from_node to_node (lf_partitioned_update (\<lambda>_. partitioned)) sim)))"

definition set_link_delay :: "NodeId \<Rightarrow> NodeId \<Rightarrow> Tick \<Rightarrow> Simulator \<Rightarrow> bool \<times> Simulator" where
  "set_link_delay from_node to_node delay sim =
     (if \<not> both_known from_node to_node sim then (False, sim)
      else (True, sim_record link_fault_set from_node to_node delay (incarnation from_node sim) 0 ''delay''
        (put_fault from_node to_node (lf_additional_delay_update (\<lambda>_. delay)) sim)))"

definition drop_next :: "NodeId \<Rightarrow> NodeId \<Rightarrow> u32 \<Rightarrow> Simulator \<Rightarrow> bool \<times> Simulator" where
  "drop_next from_node to_node n sim =
     (if \<not> both_known from_node to_node sim then (False, sim)
      else (True, sim_record link_fault_set from_node to_node (ucast n) (incarnation from_node sim) 0 ''drop_next''
        (put_fault from_node to_node (lf_drop_next_update (\<lambda>_. n)) sim)))"

definition duplicate_next :: "NodeId \<Rightarrow> NodeId \<Rightarrow> u32 \<Rightarrow> Simulator \<Rightarrow> bool \<times> Simulator" where
  "duplicate_next from_node to_node extra_copies sim =
     (if \<not> both_known from_node to_node sim \<or>
         extra_copies > tl_max_extra_duplicates_per_send (sc_transport (sim_config sim)) then (False, sim)
      else (True, sim_record link_fault_set from_node to_node (ucast extra_copies) (incarnation from_node sim) 0 ''duplicate_next''
        (put_fault from_node to_node (lf_extra_copies_next_update (\<lambda>_. extra_copies)) sim)))"

definition link_fault :: "NodeId \<Rightarrow> NodeId \<Rightarrow> Simulator \<Rightarrow> LinkFaultState" where
  "link_fault from_node to_node sim = lk_fault (get_link from_node to_node sim)"

definition schedule_copy :: "Tick \<Rightarrow> NetworkEvent \<Rightarrow> nat \<Rightarrow> EventQueue \<Rightarrow> EventQueue" where
  "schedule_copy time delivery copy q = snd (schedule_at time (PNetwork (delivery\<lparr>ne_copy_index := of_nat copy\<rparr>)) q)"

text \<open>The frame is queued: delivery id taken, copies scheduled, bytes accounted.\<close>

definition enqueue_frame :: "NetworkEvent \<Rightarrow> u32 \<Rightarrow> Tick \<Rightarrow> Simulator \<Rightarrow> SendResult \<times> Simulator" where
  "enqueue_frame delivery extras delivery_time sim =
     (let copies = unat extras + 1;
          queued_bytes = length (ne_bytes delivery) * copies;
          delivery_id = sim_next_delivery_id sim;
          delivery = delivery\<lparr>ne_delivery_id := delivery_id\<rparr>;
          l = get_link (ne_from delivery) (ne_to delivery) sim;
          sim = sim\<lparr>sim_next_delivery_id := next_id delivery_id,
            sim_events := fold (schedule_copy delivery_time delivery) [0..<copies] (sim_events sim),
            sim_total_network_bytes := sim_total_network_bytes sim + queued_bytes\<rparr>;
          sim = put_link (ne_from delivery) (ne_to delivery)
            (l\<lparr>lk_fault := (lk_fault l)\<lparr>lf_extra_copies_next := 0\<rparr>, lk_queued_bytes := lk_queued_bytes l + queued_bytes\<rparr>) sim
      in ((SendQueued, of_nat copies, queued_bytes),
          sim_record network_queued (ne_from delivery) (ne_to delivery) delivery_id (ne_from_incarnation delivery) queued_bytes
            (if extras = 0 then ''single'' else ''duplicated'') sim))"

definition sim_send :: "NodeId \<Rightarrow> NodeId \<Rightarrow> bytes \<Rightarrow> Tick \<Rightarrow> Simulator \<Rightarrow> SendResult \<times> Simulator" where
  "sim_send from_node to_node bs base_delay sim =
     (case (sim_node from_node sim, sim_node to_node sim) of
        (Some source, Some target) \<Rightarrow>
          let limits = sc_transport (sim_config sim); now = eq_now (sim_events sim) in
          if \<not> sn_alive source \<or> \<not> sn_alive target then ((SendEndpointDown, 0, 0), sim)
          else if length bs > tl_max_frame_bytes limits then ((SendFrameLimit, 0, 0), sim)
          else
            let l = get_link from_node to_node sim; fault = lk_fault l; sim = put_link from_node to_node l sim in
            if lf_partitioned fault
            then ((SendPartitioned, 0, 0),
                  sim_record network_dropped from_node to_node 0 (sn_incarnation source) (length bs) ''partition'' sim)
            else if lf_drop_next fault \<noteq> 0
            then ((SendDropped, 0, 0),
                  sim_record network_dropped from_node to_node 0 (sn_incarnation source) (length bs) ''drop_next''
                    (put_fault from_node to_node (lf_drop_next_update (\<lambda>n. n - 1)) sim))
            else
              let extras = lf_extra_copies_next fault; copies = unat extras + 1; queued_bytes = length bs * copies in
              if extras > tl_max_extra_duplicates_per_send limits then ((SendDuplicateLimit, 0, 0), sim)
              else if size_multiply_overflows (length bs) copies then ((SendQueueLimit, 0, 0), sim)
              else if add_overflows now base_delay \<or> add_overflows (now + base_delay) (lf_additional_delay fault)
              then ((SendTimeOverflow, 0, 0), sim)
              else if queued_bytes > tl_max_queued_bytes_per_link limits \<or>
                lk_queued_bytes l > tl_max_queued_bytes_per_link limits - queued_bytes \<or>
                queued_bytes > tl_max_total_queued_bytes limits \<or>
                sim_total_network_bytes sim > tl_max_total_queued_bytes limits - queued_bytes
              then ((SendQueueLimit, 0, 0),
                    sim_record network_saturated from_node to_node 0 (sn_incarnation source) queued_bytes ''byte_limit'' sim)
              else if \<not> can_schedule copies (sim_events sim)
              then ((SendEventLimit, 0, 0),
                    sim_record network_saturated from_node to_node 0 (sn_incarnation source) queued_bytes ''event_limit'' sim)
              else if sim_next_delivery_id sim = 0 then ((SendEventLimit, 0, 0), sim)
              else enqueue_frame \<lparr>ne_delivery_id = 0, ne_from = from_node, ne_to = to_node,
                     ne_from_incarnation = sn_incarnation source, ne_to_incarnation = sn_incarnation target,
                     ne_copy_index = 0, ne_bytes = bs\<rparr> extras (now + base_delay + lf_additional_delay fault) sim
      | _ \<Rightarrow> ((SendUnknownNode, 0, 0), sim))"

section \<open>Storage\<close>

definition put_storage :: "NodeId \<Rightarrow> SimNode \<Rightarrow> StorageDevice \<Rightarrow> Simulator \<Rightarrow> Simulator" where
  "put_storage node state storage sim = put_node node (state\<lparr>sn_storage := storage\<rparr>) sim"

text \<open>
  The common end of the two submissions: take an operation id, schedule the completion, and hold the operation as
  pending; \<open>settle\<close> is what the submission does to the fault flags and the pending bytes of the device.
\<close>

definition submit_operation :: "NodeId \<Rightarrow> SimNode \<Rightarrow> PendingStorageOperation \<Rightarrow> (StorageDevice \<Rightarrow> StorageDevice) \<Rightarrow> string \<Rightarrow>
    Simulator \<Rightarrow> StorageSubmitResult \<times> Simulator" where
  "submit_operation node state operation settle detail sim =
     (let completion = po_completion_time operation;
          operation_id = sim_next_storage_id sim;
          sim = sim\<lparr>sim_next_storage_id := next_id operation_id\<rparr>;
          event = \<lparr>se_node = node, se_operation_id = operation_id, se_kind = po_kind operation,
            se_incarnation = sn_incarnation state, se_byte_count = po_actual_write_bytes operation,
            se_status = po_completion_status operation\<rparr>;
          ((status, sequence), events) = schedule_at completion (PStorage event) (sim_events sim)
      in if status \<noteq> Scheduled then ((SubmitEventLimit, 0, 0), sim)
         else
           let storage = sn_storage state;
               storage = settle (storage\<lparr>sd_pending := fmupd operation_id (operation\<lparr>po_event_sequence := sequence\<rparr>) (sd_pending storage)\<rparr>);
               storage = storage\<lparr>sd_available_at := completion\<rparr>;
               sim = put_storage node state storage (sim\<lparr>sim_events := events\<rparr>)
           in ((SubmitQueued, operation_id, completion),
               sim_record storage_queued node 0 operation_id (sn_incarnation state) (length (po_bytes operation)) detail sim))"

text \<open>How the next write ends: in full, not at all, or with a proper prefix.\<close>

definition write_outcome :: "StorageDevice \<Rightarrow> bytes \<Rightarrow> StorageCompletionStatus \<times> nat" where
  "write_outcome storage bs =
     (if sd_fail_next_write storage then (StorageIoError, 0)
      else case sd_short_write_prefix storage of
        Some n \<Rightarrow> (StorageShortWrite, if bs = [] then 0 else min n (length bs - 1))
      | None \<Rightarrow> (StorageSuccess, length bs))"

definition file_limit_exceeded :: "StorageLimits \<Rightarrow> StorageDevice \<Rightarrow> bytes \<Rightarrow> bool" where
  "file_limit_exceeded limits storage bs \<longleftrightarrow>
     size_add_overflows (length (sd_stable storage)) (length (sd_unstable storage)) \<or>
     size_add_overflows (length (sd_stable storage) + length (sd_unstable storage)) (sd_pending_bytes storage) \<or>
     size_add_overflows (length (sd_stable storage) + length (sd_unstable storage) + sd_pending_bytes storage) (length bs) \<or>
     length (sd_stable storage) + length (sd_unstable storage) + sd_pending_bytes storage + length bs > sl_max_file_bytes limits"

definition submit_write :: "NodeId \<Rightarrow> bytes \<Rightarrow> Tick \<Rightarrow> Simulator \<Rightarrow> StorageSubmitResult \<times> Simulator" where
  "submit_write node bs latency sim =
     (case sim_node node sim of
        None \<Rightarrow> ((SubmitUnknownNode, 0, 0), sim)
      | Some state \<Rightarrow>
          let storage = sn_storage state; limits = sc_storage (sim_config sim); start = storage_start storage sim in
          if \<not> sn_alive state then ((SubmitNodeDown, 0, 0), sim)
          else if length bs > sl_max_write_bytes limits then ((SubmitWriteLimit, 0, 0), sim)
          else if fcard (fmdom (sd_pending storage)) \<ge> sl_max_pending_operations limits \<or> length bs > sl_max_pending_bytes limits \<or>
            sd_pending_bytes storage > sl_max_pending_bytes limits - length bs
          then ((SubmitPendingLimit, 0, 0),
                sim_record storage_saturated node 0 0 (sn_incarnation state) (length bs) ''pending_limit'' sim)
          else if file_limit_exceeded limits storage bs
          then ((SubmitFileLimit, 0, 0),
                sim_record storage_saturated node 0 0 (sn_incarnation state) (length bs) ''file_limit'' sim)
          else if add_overflows start latency then ((SubmitTimeOverflow, 0, 0), sim)
          else if \<not> can_schedule 1 (sim_events sim) then ((SubmitEventLimit, 0, 0), sim)
          else if sim_next_storage_id sim = 0 then ((SubmitIdExhausted, 0, 0), sim)
          else
            let (status, actual) = write_outcome storage bs in
            submit_operation node state
              \<lparr>po_kind = OpWrite, po_bytes = bs, po_completion_status = status, po_actual_write_bytes = actual,
               po_completion_time = start + latency, po_event_sequence = 0\<rparr>
              (\<lambda>storage. storage\<lparr>sd_fail_next_write := False, sd_short_write_prefix := None,
                 sd_pending_bytes := sd_pending_bytes storage + length bs\<rparr>) ''write'' sim)"

definition submit_flush :: "NodeId \<Rightarrow> Tick \<Rightarrow> Simulator \<Rightarrow> StorageSubmitResult \<times> Simulator" where
  "submit_flush node latency sim =
     (case sim_node node sim of
        None \<Rightarrow> ((SubmitUnknownNode, 0, 0), sim)
      | Some state \<Rightarrow>
          let storage = sn_storage state; limits = sc_storage (sim_config sim); start = storage_start storage sim in
          if \<not> sn_alive state then ((SubmitNodeDown, 0, 0), sim)
          else if fcard (fmdom (sd_pending storage)) \<ge> sl_max_pending_operations limits
          then ((SubmitPendingLimit, 0, 0), sim_record storage_saturated node 0 0 (sn_incarnation state) 0 ''pending_limit'' sim)
          else if add_overflows start latency then ((SubmitTimeOverflow, 0, 0), sim)
          else if \<not> can_schedule 1 (sim_events sim) then ((SubmitEventLimit, 0, 0), sim)
          else if sim_next_storage_id sim = 0 then ((SubmitIdExhausted, 0, 0), sim)
          else submit_operation node state
              \<lparr>po_kind = OpFlush, po_bytes = [],
               po_completion_status = (if sd_fail_next_flush storage then StorageIoError else StorageSuccess),
               po_actual_write_bytes = 0, po_completion_time = start + latency, po_event_sequence = 0\<rparr>
              (\<lambda>storage. storage\<lparr>sd_fail_next_flush := False\<rparr>) ''flush'' sim)"

definition inject_fault :: "NodeId \<Rightarrow> (StorageDevice \<Rightarrow> StorageDevice) \<Rightarrow> nat \<Rightarrow> string \<Rightarrow> Simulator \<Rightarrow> bool \<times> Simulator" where
  "inject_fault node f n_bytes detail sim =
     (case sim_node node sim of
        None \<Rightarrow> (False, sim)
      | Some state \<Rightarrow>
          if \<not> sn_alive state then (False, sim)
          else (True, sim_record storage_fault node 0 0 (sn_incarnation state) n_bytes detail
                  (put_storage node state (f (sn_storage state)) sim)))"

definition fail_next_write :: "NodeId \<Rightarrow> Simulator \<Rightarrow> bool \<times> Simulator" where
  "fail_next_write node =
     inject_fault node (\<lambda>storage. storage\<lparr>sd_fail_next_write := True, sd_short_write_prefix := None\<rparr>) 0 ''fail_next_write''"

definition short_write_next :: "NodeId \<Rightarrow> nat \<Rightarrow> Simulator \<Rightarrow> bool \<times> Simulator" where
  "short_write_next node prefix_bytes =
     inject_fault node (\<lambda>storage. storage\<lparr>sd_fail_next_write := False, sd_short_write_prefix := Some prefix_bytes\<rparr>)
       prefix_bytes ''short_write_next''"

definition fail_next_flush :: "NodeId \<Rightarrow> Simulator \<Rightarrow> bool \<times> Simulator" where
  "fail_next_flush node = inject_fault node (\<lambda>storage. storage\<lparr>sd_fail_next_flush := True\<rparr>) 0 ''fail_next_flush''"

definition initialize_storage :: "NodeId \<Rightarrow> bytes \<Rightarrow> Simulator \<Rightarrow> bool \<times> Simulator" where
  "initialize_storage node stable_bytes sim =
     (case sim_node node sim of
        None \<Rightarrow> (False, sim)
      | Some state \<Rightarrow>
          let storage = sn_storage state in
          if \<not> sn_alive state \<or> length stable_bytes > sl_max_file_bytes (sc_storage (sim_config sim)) then (False, sim)
          else if sd_stable storage \<noteq> [] \<or> sd_unstable storage \<noteq> [] \<or> fmdom (sd_pending storage) \<noteq> {||} then (False, sim)
          else (True, sim_record storage_initialized node 0 0 (sn_incarnation state) (length stable_bytes) ''durable_header''
                  (put_storage node state (storage\<lparr>sd_stable := stable_bytes, sd_available_at := eq_now (sim_events sim)\<rparr>) sim)))"

definition truncate_stable_storage :: "NodeId \<Rightarrow> nat \<Rightarrow> Simulator \<Rightarrow> bool \<times> Simulator" where
  "truncate_stable_storage node valid_bytes sim =
     (case sim_node node sim of
        None \<Rightarrow> (False, sim)
      | Some state \<Rightarrow>
          let storage = sn_storage state in
          if sn_alive state then (False, sim)
          else if fmdom (sd_pending storage) \<noteq> {||} \<or> sd_unstable storage \<noteq> [] \<or> valid_bytes > length (sd_stable storage)
          then (False, sim)
          else (True, sim_record storage_repaired node 0 0 (sn_incarnation state) (length (sd_stable storage) - valid_bytes)
                  ''truncate_incomplete_tail'' (put_storage node state (storage\<lparr>sd_stable := take valid_bytes (sd_stable storage)\<rparr>) sim)))"

section \<open>User events\<close>

definition schedule_user :: "NodeId \<Rightarrow> u64 \<Rightarrow> bytes \<Rightarrow> Tick \<Rightarrow> Simulator \<Rightarrow> ScheduleResult \<times> Simulator" where
  "schedule_user node tag bs delay sim =
     (case sim_node node sim of
        None \<Rightarrow> ((ScheduleUnknownNode, 0), sim)
      | Some state \<Rightarrow>
          if \<not> sn_alive state then ((ScheduleNodeDown, 0), sim)
          else if length bs > tl_max_frame_bytes (sc_transport (sim_config sim)) then ((SchedulePayloadLimit, 0), sim)
          else
            let event = \<lparr>ue_node = node, ue_tag = tag, ue_incarnation = sn_incarnation state, ue_bytes = bs\<rparr>;
                (result, events) = schedule_after delay (PUser event) (sim_events sim);
                sim = sim\<lparr>sim_events := events\<rparr>
            in (result, if fst result = Scheduled
                        then sim_record user_scheduled node 0 tag (sn_incarnation state) (length bs) [] sim else sim))"

section \<open>Delivery\<close>

definition status_name :: "StorageCompletionStatus \<Rightarrow> string" where
  "status_name status = (case status of StorageSuccess \<Rightarrow> ''success'' | StorageIoError \<Rightarrow> ''io_error'' | StorageShortWrite \<Rightarrow> ''short_write'')"

definition live_in :: "NodeId \<Rightarrow> u64 \<Rightarrow> Simulator \<Rightarrow> bool" where
  "live_in node inc sim = (case sim_node node sim of None \<Rightarrow> False | Some state \<Rightarrow> sn_alive state \<and> sn_incarnation state = inc)"

definition deliver_timer :: "TimerEvent \<Rightarrow> Simulator \<Rightarrow> bool \<times> Simulator" where
  "deliver_timer timer sim =
     (let valid = (case sim_node (te_node timer) sim of
                     None \<Rightarrow> False
                   | Some state \<Rightarrow> sn_alive state \<and> sn_incarnation state = te_incarnation timer \<and>
                       timer_generation (te_kind timer) state = te_generation timer)
      in if \<not> valid
         then (False, sim_record stale_event (te_node timer) 0 (te_generation timer) (te_incarnation timer) 0 ''timer'' sim)
         else (True, sim_record timer_fired (te_node timer) 0 (te_generation timer) (te_incarnation timer) 0 (timer_name (te_kind timer)) sim))"

definition deliver_network :: "NetworkEvent \<Rightarrow> Simulator \<Rightarrow> bool \<times> Simulator" where
  "deliver_network delivery sim =
     (let sim = release_network_bytes delivery sim; n = length (ne_bytes delivery) in
      if (case find_link (ne_from delivery) (ne_to delivery) sim of None \<Rightarrow> False | Some l \<Rightarrow> lf_partitioned (lk_fault l))
      then (False, sim_record network_dropped (ne_from delivery) (ne_to delivery) (ne_delivery_id delivery)
              (ne_from_incarnation delivery) n ''partition_at_delivery'' sim)
      else if \<not> live_in (ne_to delivery) (ne_to_incarnation delivery) sim \<or>
        tl_drop_in_flight_on_endpoint_crash (sc_transport (sim_config sim)) \<and>
        \<not> live_in (ne_from delivery) (ne_from_incarnation delivery) sim
      then (False, sim_record stale_event (ne_from delivery) (ne_to delivery) (ne_delivery_id delivery)
              (ne_to_incarnation delivery) n ''network'' sim)
      else (True, sim_record network_delivered (ne_from delivery) (ne_to delivery) (ne_delivery_id delivery)
              (ne_to_incarnation delivery) n (if ne_copy_index delivery = 0 then ''original'' else ''duplicate'') sim))"

text \<open>What the completion of an operation does to the device, and the byte count it reports.\<close>

definition complete_operation :: "PendingStorageOperation \<Rightarrow> StorageDevice \<Rightarrow> nat \<times> StorageDevice" where
  "complete_operation operation device =
     (if po_kind operation = OpWrite
      then (po_actual_write_bytes operation,
            device\<lparr>sd_unstable := sd_unstable device @ take (po_actual_write_bytes operation) (po_bytes operation),
              sd_pending_bytes := sd_pending_bytes device - length (po_bytes operation)\<rparr>)
      else if po_completion_status operation = StorageSuccess
      then (length (sd_unstable device), device\<lparr>sd_stable := sd_stable device @ sd_unstable device, sd_unstable := []\<rparr>)
      else (0, device))"

definition deliver_storage :: "StorageEvent \<Rightarrow> Simulator \<Rightarrow> StorageEvent option \<times> Simulator" where
  "deliver_storage event sim =
     (case sim_node (se_node event) sim of
        None \<Rightarrow> (None, sim_record stale_event (se_node event) 0 (se_operation_id event) (se_incarnation event) 0 ''storage'' sim)
      | Some state \<Rightarrow>
          if \<not> sn_alive state \<or> sn_incarnation state \<noteq> se_incarnation event
          then (None, sim_record stale_event (se_node event) 0 (se_operation_id event) (se_incarnation event) 0 ''storage'' sim)
          else case fmlookup (sd_pending (sn_storage state)) (se_operation_id event) of
            None \<Rightarrow> (None, sim_record stale_event (se_node event) 0 (se_operation_id event) (se_incarnation event) 0
                       ''storage_cancelled'' sim)
          | Some operation \<Rightarrow>
              let (byte_count, device) = complete_operation operation (sn_storage state);
                  device = device\<lparr>sd_pending := fmdrop (se_operation_id event) (sd_pending device)\<rparr>;
                  device = (if fmdom (sd_pending device) = {||} then device\<lparr>sd_available_at := eq_now (sim_events sim)\<rparr> else device);
                  event = event\<lparr>se_status := po_completion_status operation, se_byte_count := byte_count\<rparr>
              in (Some event, sim_record storage_completed (se_node event) 0 (se_operation_id event) (se_incarnation event) byte_count
                    (status_name (po_completion_status operation)) (put_storage (se_node event) state device sim)))"

definition deliver_user :: "UserEvent \<Rightarrow> Simulator \<Rightarrow> bool \<times> Simulator" where
  "deliver_user user sim =
     (if \<not> live_in (ue_node user) (ue_incarnation user) sim
      then (False, sim_record stale_event (ue_node user) 0 (ue_tag user) (ue_incarnation user) (length (ue_bytes user)) ''user'' sim)
      else (True, sim_record user_delivered (ue_node user) 0 (ue_tag user) (ue_incarnation user) (length (ue_bytes user)) [] sim))"

definition deliver_event :: "ScheduledEvent \<Rightarrow> Simulator \<Rightarrow> ScheduledEvent option \<times> Simulator" where
  "deliver_event e sim =
     (case ev_payload e of
        PTimer timer \<Rightarrow> apfst (\<lambda>ok. if ok then Some e else None) (deliver_timer timer sim)
      | PNetwork delivery \<Rightarrow> apfst (\<lambda>ok. if ok then Some e else None) (deliver_network delivery sim)
      | PStorage event \<Rightarrow> apfst (map_option (\<lambda>event. e\<lparr>ev_payload := PStorage event\<rparr>)) (deliver_storage event sim)
      | PUser user \<Rightarrow> apfst (\<lambda>ok. if ok then Some e else None) (deliver_user user sim))"

text \<open>
  Recording, releasing and delivering do not touch the event queue, so that the loop of \<^verbatim>\<open>next\<close> ends: each
  round takes one event off the queue.
\<close>

lemma sim_record_simps [simp]:
  "sim_events (sim_record k n p t i b d sim) = sim_events sim" "sim_nodes (sim_record k n p t i b d sim) = sim_nodes sim"
  "sim_links (sim_record k n p t i b d sim) = sim_links sim" "sim_config (sim_record k n p t i b d sim) = sim_config sim"
  "sim_total_network_bytes (sim_record k n p t i b d sim) = sim_total_network_bytes sim"
  "sim_next_storage_id (sim_record k n p t i b d sim) = sim_next_storage_id sim"
  "sim_next_delivery_id (sim_record k n p t i b d sim) = sim_next_delivery_id sim"
  by (simp_all add: sim_record_def)

lemma put_simps [simp]:
  "sim_events (put_node n s sim) = sim_events sim" "sim_events (put_link f g l sim) = sim_events sim"
  "sim_events (put_storage n s st sim) = sim_events sim" "sim_events (put_fault f g h sim) = sim_events sim"
  "sim_events (release_network_bytes d sim) = sim_events sim"
  by (simp_all add: put_node_def put_link_def put_storage_def put_fault_def release_network_bytes_def Let_def split: option.split)

lemma deliver_event_events [simp]: "sim_events (snd (deliver_event e sim)) = sim_events sim"
  by (auto simp: deliver_event_def deliver_timer_def deliver_network_def deliver_storage_def deliver_user_def Let_def
      split: EventPayload.split option.split prod.split)

lemma deliver_event_keeps: "deliver_event e sim = (r, sim') \<Longrightarrow> sim_events sim' = sim_events sim"
  using deliver_event_events [of e sim] by simp

lemma pop_next_length: "pop_next q = Some (e, q') \<Longrightarrow> length (eq_heap q') < length (eq_heap q)"
  using arg_cong [OF pop_next_SomeD(3), of q e q' size] by simp

function sim_next :: "Simulator \<Rightarrow> ScheduledEvent option \<times> Simulator" where
  "sim_next sim =
     (case pop_next (sim_events sim) of
        None \<Rightarrow> (None, sim)
      | Some (scheduled, events) \<Rightarrow>
          (case deliver_event scheduled (sim\<lparr>sim_events := events\<rparr>) of
             (Some event, sim) \<Rightarrow> (Some event, sim)
           | (None, sim) \<Rightarrow> sim_next sim))"
  by pat_completeness auto

termination
  by (relation "measure (\<lambda>sim. length (eq_heap (sim_events sim)))") (auto dest!: pop_next_length deliver_event_keeps [OF sym])

declare sim_next.simps [simp del]

section \<open>Observers\<close>

definition pending_events :: "Simulator \<Rightarrow> nat" where
  "pending_events sim = length (eq_heap (sim_events sim))"

definition stable_bytes :: "NodeId \<Rightarrow> Simulator \<Rightarrow> bytes" where
  "stable_bytes node sim = (case sim_node node sim of None \<Rightarrow> [] | Some state \<Rightarrow> sd_stable (sn_storage state))"

definition unstable_bytes :: "NodeId \<Rightarrow> Simulator \<Rightarrow> bytes" where
  "unstable_bytes node sim = (case sim_node node sim of None \<Rightarrow> [] | Some state \<Rightarrow> sd_unstable (sn_storage state))"

definition visible_bytes :: "NodeId \<Rightarrow> Simulator \<Rightarrow> bytes" where
  "visible_bytes node sim =
     (case sim_node node sim of None \<Rightarrow> [] | Some state \<Rightarrow> sd_stable (sn_storage state) @ sd_unstable (sn_storage state))"

definition pending_storage_bytes :: "NodeId \<Rightarrow> Simulator \<Rightarrow> nat" where
  "pending_storage_bytes node sim = (case sim_node node sim of None \<Rightarrow> 0 | Some state \<Rightarrow> sd_pending_bytes (sn_storage state))"

end
