(* ===== verification/SimInvariant.thy ===== *)
theory SimInvariant
  imports Simulator
begin

text \<open>
  The invariant of the simulator: the byte accounting of links equals what is queued, every pending storage operation
  has exactly its completion event in the queue, operations of a device complete in the order of their ids, and every
  queued event is addressed to the current incarnation of a node that is alive. All operations preserve it.
\<close>

section \<open>What is queued\<close>

definition net_size :: "ScheduledEvent \<Rightarrow> nat" where
  "net_size e = (case ev_payload e of PNetwork d \<Rightarrow> length (ne_bytes d) | _ \<Rightarrow> 0)"

definition on_link :: "NodeId \<times> NodeId \<Rightarrow> ScheduledEvent \<Rightarrow> bool" where
  "on_link fg e = (case ev_payload e of PNetwork d \<Rightarrow> (ne_from d, ne_to d) = fg | _ \<Rightarrow> False)"

definition link_size :: "NodeId \<times> NodeId \<Rightarrow> ScheduledEvent \<Rightarrow> nat" where
  "link_size fg e = (if on_link fg e then net_size e else 0)"

definition queued :: "Simulator \<Rightarrow> NodeId \<times> NodeId \<Rightarrow> nat" where
  "queued sim fg = lk_queued_bytes (get_link (fst fg) (snd fg) sim)"

section \<open>The invariant\<close>

type_synonym NodeTable = "NodeId \<Rightarrow> SimNode option"

definition live_at :: "NodeTable \<Rightarrow> NodeId \<Rightarrow> u64 \<Rightarrow> bool" where
  "live_at nodes n inc \<longleftrightarrow> (\<exists>s. nodes n = Some s \<and> sn_alive s \<and> sn_incarnation s = inc)"

definition event_ok :: "bool \<Rightarrow> NodeTable \<Rightarrow> ScheduledEvent \<Rightarrow> bool" where
  "event_ok drop_in_flight nodes e =
     (case ev_payload e of
        PTimer t \<Rightarrow> live_at nodes (te_node t) (te_incarnation t)
      | PNetwork d \<Rightarrow> live_at nodes (ne_to d) (ne_to_incarnation d) \<and>
          (drop_in_flight \<longrightarrow> live_at nodes (ne_from d) (ne_from_incarnation d))
      | PStorage s \<Rightarrow> live_at nodes (se_node s) (se_incarnation s) \<and>
          (\<exists>state p. nodes (se_node s) = Some state \<and> fmlookup (sd_pending (sn_storage state)) (se_operation_id s) = Some p \<and>
             po_event_sequence p = ev_sequence e \<and> po_completion_time p = ev_time e)
      | PUser u \<Rightarrow> live_at nodes (ue_node u) (ue_incarnation u))"

definition completes :: "NodeId \<Rightarrow> StorageOpId \<Rightarrow> PendingStorageOperation \<Rightarrow> ScheduledEvent \<Rightarrow> bool" where
  "completes n i p e \<longleftrightarrow> ev_time e = po_completion_time p \<and> ev_sequence e = po_event_sequence p \<and>
     (\<exists>s. ev_payload e = PStorage s \<and> se_node s = n \<and> se_operation_id s = i)"

definition op_key :: "PendingStorageOperation \<Rightarrow> Tick \<times> u64" where
  "op_key p = (po_completion_time p, po_event_sequence p)"

definition pending_total :: "(StorageOpId, PendingStorageOperation) fmap \<Rightarrow> nat" where
  "pending_total m = (\<Sum>i \<in> fset (fmdom m). length (po_bytes (the (fmlookup m i))))"

definition id_below :: "StorageOpId \<Rightarrow> StorageOpId \<Rightarrow> bool" where
  "id_below i nid \<longleftrightarrow> nid = 0 \<or> i < nid"

definition device_ok :: "StorageLimits \<Rightarrow> StorageOpId \<Rightarrow> StorageDevice \<Rightarrow> bool" where
  "device_ok limits nid d \<longleftrightarrow>
     sd_pending_bytes d = pending_total (sd_pending d) \<and>
     length (sd_stable d) + length (sd_unstable d) + sd_pending_bytes d \<le> sl_max_file_bytes limits \<and>
     sd_pending_bytes d \<le> sl_max_pending_bytes limits \<and> fcard (fmdom (sd_pending d)) \<le> sl_max_pending_operations limits \<and>
     (\<forall>i p. fmlookup (sd_pending d) i = Some p \<longrightarrow>
        id_below i nid \<and> po_completion_time p \<le> sd_available_at d \<and> po_actual_write_bytes p \<le> length (po_bytes p) \<and>
        (po_kind p = OpFlush \<longrightarrow> po_bytes p = []) \<and> (\<forall>j p'. fmlookup (sd_pending d) j = Some p' \<and> i < j \<longrightarrow> op_key p < op_key p'))"

definition sim_node_ok :: "StorageLimits \<Rightarrow> EventQueue \<Rightarrow> StorageOpId \<Rightarrow> NodeId \<Rightarrow> SimNode \<Rightarrow> bool" where
  "sim_node_ok limits q nid n s \<longleftrightarrow>
     device_ok limits nid (sn_storage s) \<and>
     (\<not> sn_alive s \<longrightarrow> sd_pending (sn_storage s) = fmempty \<and> sd_unstable (sn_storage s) = []) \<and>
     (\<forall>i p. fmlookup (sd_pending (sn_storage s)) i = Some p \<longrightarrow> (\<exists>e \<in> set (eq_heap q). completes n i p e))"

lemma device_okD:
  assumes "device_ok limits nid d"
  shows "sd_pending_bytes d = pending_total (sd_pending d)"
    "length (sd_stable d) + length (sd_unstable d) + sd_pending_bytes d \<le> sl_max_file_bytes limits"
    "fmlookup (sd_pending d) i = Some p \<Longrightarrow> id_below i nid"
    "fmlookup (sd_pending d) i = Some p \<Longrightarrow> po_completion_time p \<le> sd_available_at d"
    "fmlookup (sd_pending d) i = Some p \<Longrightarrow> po_actual_write_bytes p \<le> length (po_bytes p)"
    "fmlookup (sd_pending d) i = Some p \<Longrightarrow> fmlookup (sd_pending d) j = Some p' \<Longrightarrow> i < j \<Longrightarrow> op_key p < op_key p'"
    "fmlookup (sd_pending d) i = Some p \<Longrightarrow> po_kind p = OpFlush \<Longrightarrow> po_bytes p = []"
    "sd_pending_bytes d \<le> sl_max_pending_bytes limits" "fcard (fmdom (sd_pending d)) \<le> sl_max_pending_operations limits"
  using assms unfolding device_ok_def by blast+

lemma device_okI:
  assumes "sd_pending_bytes d = pending_total (sd_pending d)"
    "length (sd_stable d) + length (sd_unstable d) + sd_pending_bytes d \<le> sl_max_file_bytes limits"
    "\<And>i p. fmlookup (sd_pending d) i = Some p \<Longrightarrow> id_below i nid \<and> po_completion_time p \<le> sd_available_at d \<and>
       po_actual_write_bytes p \<le> length (po_bytes p) \<and> (po_kind p = OpFlush \<longrightarrow> po_bytes p = [])"
    "\<And>i p j p'. fmlookup (sd_pending d) i = Some p \<Longrightarrow> fmlookup (sd_pending d) j = Some p' \<Longrightarrow> i < j \<Longrightarrow> op_key p < op_key p'"
    "sd_pending_bytes d \<le> sl_max_pending_bytes limits" "fcard (fmdom (sd_pending d)) \<le> sl_max_pending_operations limits"
  shows "device_ok limits nid d"
  using assms unfolding device_ok_def by blast

lemma sim_node_okD:
  assumes "sim_node_ok limits q nid n s"
  shows "device_ok limits nid (sn_storage s)"
    "\<not> sn_alive s \<Longrightarrow> sd_pending (sn_storage s) = fmempty" "\<not> sn_alive s \<Longrightarrow> sd_unstable (sn_storage s) = []"
    "fmlookup (sd_pending (sn_storage s)) i = Some p \<Longrightarrow> \<exists>e \<in> set (eq_heap q). completes n i p e"
  using assms unfolding sim_node_ok_def by blast+

definition net_ok :: "SimulatorConfig \<Rightarrow> EventQueue \<Rightarrow> (NodeId \<times> NodeId \<Rightarrow> nat) \<Rightarrow> nat \<Rightarrow> bool" where
  "net_ok c q on_links total_bytes \<longleftrightarrow>
     total_bytes = (\<Sum>e \<in># pending_events_of q. net_size e) \<and> on_links = (\<lambda>fg. \<Sum>e \<in># pending_events_of q. link_size fg e) \<and>
     total_bytes \<le> tl_max_total_queued_bytes (sc_transport c) \<and> (\<forall>fg. on_links fg \<le> tl_max_queued_bytes_per_link (sc_transport c))"

lemma net_ok_bounds:
  assumes "net_ok c q on_links total_bytes"
  shows "total_bytes \<le> tl_max_total_queued_bytes (sc_transport c)" "on_links fg \<le> tl_max_queued_bytes_per_link (sc_transport c)"
  using assms unfolding net_ok_def by blast+

abbreviation event_ok_in :: "SimulatorConfig \<Rightarrow> NodeTable \<Rightarrow> ScheduledEvent \<Rightarrow> bool" where
  "event_ok_in c \<equiv> event_ok (tl_drop_in_flight_on_endpoint_crash (sc_transport c))"

definition sim_ok :: "SimulatorConfig \<Rightarrow> EventQueue \<Rightarrow> NodeTable \<Rightarrow> (NodeId \<times> NodeId \<Rightarrow> nat) \<Rightarrow> nat \<Rightarrow> StorageOpId \<Rightarrow> bool" where
  "sim_ok c q nodes on_links total_bytes nid \<longleftrightarrow>
     queue_inv q \<and> eq_limits q = sc_events c \<and> net_ok c q on_links total_bytes \<and>
     (\<forall>e \<in> set (eq_heap q). event_ok_in c nodes e) \<and> (\<forall>n s. nodes n = Some s \<longrightarrow> sim_node_ok (sc_storage c) q nid n s)"

lemma sim_okI:
  assumes "queue_inv q" "eq_limits q = sc_events c" "net_ok c q on_links total_bytes"
    and "\<And>e. e \<in> set (eq_heap q) \<Longrightarrow> event_ok_in c nodes e"
    and "\<And>n s. nodes n = Some s \<Longrightarrow> sim_node_ok (sc_storage c) q nid n s"
  shows "sim_ok c q nodes on_links total_bytes nid"
  using assms by (simp add: sim_ok_def)

lemma sim_okD:
  assumes "sim_ok c q nodes on_links total_bytes nid"
  shows "queue_inv q" "eq_limits q = sc_events c" "net_ok c q on_links total_bytes"
    "e \<in> set (eq_heap q) \<Longrightarrow> event_ok_in c nodes e" "nodes n = Some s \<Longrightarrow> sim_node_ok (sc_storage c) q nid n s"
  using assms by (simp_all add: sim_ok_def)

definition sim_inv :: "Simulator \<Rightarrow> bool" where
  "sim_inv sim \<longleftrightarrow> sim_ok (sim_config sim) (sim_events sim) (fmlookup (sim_nodes sim)) (queued sim)
     (sim_total_network_bytes sim) (sim_next_storage_id sim)"

section \<open>Views of the state\<close>

lemma queued_record [simp]: "queued (sim_record k n p t i b d sim) = queued sim"
  by (simp add: fun_eq_iff queued_def get_link_def find_link_def)

lemma sim_inv_record [simp]: "sim_inv (sim_record k n p t i b d sim) \<longleftrightarrow> sim_inv sim"
  by (simp add: sim_inv_def)

lemma put_node_view [simp]:
  "sim_config (put_node n s sim) = sim_config sim" "fmlookup (sim_nodes (put_node n s sim)) = (fmlookup (sim_nodes sim))(n \<mapsto> s)"
  "queued (put_node n s sim) = queued sim" "sim_total_network_bytes (put_node n s sim) = sim_total_network_bytes sim"
  "sim_next_storage_id (put_node n s sim) = sim_next_storage_id sim" "sim_next_delivery_id (put_node n s sim) = sim_next_delivery_id sim"
  by (auto simp: put_node_def fun_eq_iff queued_def get_link_def find_link_def)

lemma put_link_view [simp]:
  "sim_config (put_link f g l sim) = sim_config sim" "sim_nodes (put_link f g l sim) = sim_nodes sim"
  "queued (put_link f g l sim) = (queued sim)((f, g) := lk_queued_bytes l)"
  "sim_total_network_bytes (put_link f g l sim) = sim_total_network_bytes sim"
  "sim_next_storage_id (put_link f g l sim) = sim_next_storage_id sim" "sim_next_delivery_id (put_link f g l sim) = sim_next_delivery_id sim"
  by (auto simp: put_link_def fun_eq_iff queued_def get_link_def find_link_def)

lemma queued_get_link: "lk_queued_bytes (get_link f g sim) = queued sim (f, g)"
  by (simp add: queued_def)

lemma put_same_link [simp]: "queued (put_link f g (get_link f g sim) sim) = queued sim"
  by (auto simp: fun_eq_iff queued_def)

lemma put_fault_view [simp]:
  "sim_config (put_fault f g h sim) = sim_config sim" "sim_nodes (put_fault f g h sim) = sim_nodes sim"
  "queued (put_fault f g h sim) = queued sim" "sim_total_network_bytes (put_fault f g h sim) = sim_total_network_bytes sim"
  "sim_next_storage_id (put_fault f g h sim) = sim_next_storage_id sim"
  by (auto simp: put_fault_def Let_def fun_eq_iff queued_def)

lemma release_view [simp]:
  "sim_config (release_network_bytes d sim) = sim_config sim" "sim_nodes (release_network_bytes d sim) = sim_nodes sim"
  "queued (release_network_bytes d sim) = (queued sim)((ne_from d, ne_to d) := queued sim (ne_from d, ne_to d) - length (ne_bytes d))"
  "sim_total_network_bytes (release_network_bytes d sim) = sim_total_network_bytes sim - length (ne_bytes d)"
  "sim_next_storage_id (release_network_bytes d sim) = sim_next_storage_id sim"
  by (auto simp: release_network_bytes_def Let_def fun_eq_iff queued_def get_link_def find_link_def put_link_def initial_link_def
      split: option.splits)

lemma events_view [simp]:
  "queued (sim\<lparr>sim_events := q\<rparr>) = queued sim" "queued (sim\<lparr>sim_next_storage_id := i\<rparr>) = queued sim"
  by (auto simp: fun_eq_iff queued_def get_link_def find_link_def)

lemma sim_inv_put_fault [simp]: "sim_inv (put_fault f g h sim) \<longleftrightarrow> sim_inv sim"
  by (simp add: sim_inv_def)

section \<open>Changes of a node\<close>

lemma live_at_update:
  "nodes n = Some s \<Longrightarrow> sn_alive s' = sn_alive s \<Longrightarrow> sn_incarnation s' = sn_incarnation s \<Longrightarrow>
   live_at (nodes(n \<mapsto> s')) m inc \<longleftrightarrow> live_at nodes m inc"
  by (auto simp: live_at_def)

lemma event_ok_update:
  assumes "nodes n = Some s" "sn_alive s' = sn_alive s" "sn_incarnation s' = sn_incarnation s"
    and "\<And>i p. fmlookup (sd_pending (sn_storage s)) i = Some p \<Longrightarrow> fmlookup (sd_pending (sn_storage s')) i = Some p"
    and "event_ok b nodes e"
  shows "event_ok b (nodes(n \<mapsto> s')) e"
proof -
  have live: "live_at (nodes(n \<mapsto> s')) m inc \<longleftrightarrow> live_at nodes m inc" for m inc
    by (rule live_at_update [of nodes n s, OF assms(1-3)])
  show ?thesis
  proof (cases "ev_payload e")
    case (PStorage x)
    with assms(1,4,5) live show ?thesis by (cases "se_node x = n") (auto simp: event_ok_def)
  qed (use assms(5) live in \<open>auto simp: event_ok_def\<close>)
qed

lemma sim_ok_node_update:
  assumes ok: "sim_ok c q nodes on_links tot nid" and n: "nodes n = Some s"
    and same: "sn_alive s' = sn_alive s" "sn_incarnation s' = sn_incarnation s" "sd_pending (sn_storage s') = sd_pending (sn_storage s)"
      "sd_unstable (sn_storage s') = sd_unstable (sn_storage s)"
    and d: "device_ok (sc_storage c) nid (sn_storage s')"
  shows "sim_ok c q (nodes(n \<mapsto> s')) on_links tot nid"
proof (rule sim_okI)
  show "event_ok_in c (nodes(n \<mapsto> s')) e" if "e \<in> set (eq_heap q)" for e
    by (rule event_ok_update [of nodes n s, OF n same(1,2)]) (use same(3) sim_okD(4) [OF ok that] in simp_all)
  show "sim_node_ok (sc_storage c) q nid m x" if "(nodes(n \<mapsto> s')) m = Some x" for m x
    using that sim_okD(5) [OF ok] n same d by (cases "m = n") (auto simp: sim_node_ok_def)
qed (use ok in \<open>simp_all add: sim_ok_def\<close>)

text \<open>A node that is new or down has no queued events, so registering or restarting it concerns none.\<close>

lemma sim_ok_revive:
  assumes ok: "sim_ok c q nodes on_links tot nid" and n: "\<And>s. nodes n = Some s \<Longrightarrow> \<not> sn_alive s"
    and s': "sn_alive s'" "sd_pending (sn_storage s') = fmempty" "device_ok (sc_storage c) nid (sn_storage s')"
  shows "sim_ok c q (nodes(n \<mapsto> s')) on_links tot nid"
proof (rule sim_okI)
  have "live_at nodes m inc \<Longrightarrow> m \<noteq> n" for m inc using n by (auto simp: live_at_def)
  then show "event_ok_in c (nodes(n \<mapsto> s')) e" if "e \<in> set (eq_heap q)" for e
    using sim_okD(4) [OF ok that] by (cases "ev_payload e") (auto simp: event_ok_def live_at_def)
  show "sim_node_ok (sc_storage c) q nid m x" if "(nodes(n \<mapsto> s')) m = Some x" for m x
    using that sim_okD(5) [OF ok] s' by (cases "m = n") (auto simp: sim_node_ok_def)
qed (use ok in \<open>simp_all add: sim_ok_def\<close>)

section \<open>Scheduling\<close>

lemma sim_node_ok_more:
  "sim_node_ok limits q nid n s \<Longrightarrow> set (eq_heap q) \<subseteq> set (eq_heap q') \<Longrightarrow> sim_node_ok limits q' nid n s"
  unfolding sim_node_ok_def by blast

lemma sim_ok_schedule:
  assumes ok: "sim_ok c q nodes on_links tot nid" and sch: "schedule_at time payload q = ((Scheduled, m), q')"
    and e: "e = \<lparr>ev_time = time, ev_sequence = m, ev_payload = payload\<rparr>" "event_ok_in c nodes e"
    and bounds: "tot + net_size e \<le> tl_max_total_queued_bytes (sc_transport c)"
      "\<And>fg. on_links fg + link_size fg e \<le> tl_max_queued_bytes_per_link (sc_transport c)"
  shows "sim_ok c q' nodes (\<lambda>fg. on_links fg + link_size fg e) (tot + net_size e) nid"
proof (rule sim_okI)
  show "queue_inv q'" by (rule schedule_at_inv [OF sim_okD(1) [OF ok] sch])
  have h: "eq_heap q' = heap_push event_key e (eq_heap q) \<and> eq_limits q' = eq_limits q"
    using sch by (cases rule: schedule_at_cases) (auto simp: e)
  then show "eq_limits q' = sc_events c" using sim_okD(2) [OF ok] by simp
  show "net_ok c q' (\<lambda>fg. on_links fg + link_size fg e) (tot + net_size e)"
    using sim_okD(3) [OF ok] h bounds by (simp add: net_ok_def mset_heap_push add.commute)
  show "event_ok_in c nodes x" if "x \<in> set (eq_heap q')" for x using that h e(2) sim_okD(4) [OF ok] by auto
  show "sim_node_ok (sc_storage c) q' nid n s" if "nodes n = Some s" for n s
    by (rule sim_node_ok_more [OF sim_okD(5) [OF ok that]]) (use h in auto)
qed

lemma schedule_after_sched:
  assumes "schedule_after delay payload q = ((Scheduled, m), q')"
  shows "schedule_at (eq_now q + delay) payload q = ((Scheduled, m), q')"
  using assms by (auto simp: schedule_after_def split: if_splits)

lemma local_sizes:
  "(\<And>d. ev_payload e \<noteq> PNetwork d) \<Longrightarrow> net_size e = 0" "(\<And>d. ev_payload e \<noteq> PNetwork d) \<Longrightarrow> link_size fg e = 0"
  by (auto simp: net_size_def link_size_def split: EventPayload.split)

lemma sim_ok_schedule_local:
  assumes ok: "sim_ok c q nodes on_links tot nid" and sch: "schedule_at time payload q = ((Scheduled, m), q')"
    and e: "event_ok_in c nodes \<lparr>ev_time = time, ev_sequence = m, ev_payload = payload\<rparr>" and d: "\<And>d. payload \<noteq> PNetwork d"
  shows "sim_ok c q' nodes on_links tot nid"
proof -
  let ?e = "\<lparr>ev_time = time, ev_sequence = m, ev_payload = payload\<rparr>"
  have z: "net_size ?e = 0" "\<And>fg. link_size fg ?e = 0" using local_sizes [of ?e] d by auto
  have "sim_ok c q' nodes (\<lambda>fg. on_links fg + link_size fg ?e) (tot + net_size ?e) nid"
    by (rule sim_ok_schedule [OF ok sch refl e]) (use net_ok_bounds [OF sim_okD(3) [OF ok]] in \<open>simp_all add: z\<close>)
  then show ?thesis by (simp add: z)
qed

text \<open>The copies of a frame.\<close>

lemma schedule_copies:
  assumes "sim_ok c q nodes on_links tot nid" and "copies = 0 \<or> can_schedule copies q" and "eq_now q \<le> time"
    and live: "live_at nodes (ne_to d) (ne_to_incarnation d)" "live_at nodes (ne_from d) (ne_from_incarnation d)"
    and "tot + copies * length (ne_bytes d) \<le> tl_max_total_queued_bytes (sc_transport c)"
    and "on_links (ne_from d, ne_to d) + copies * length (ne_bytes d) \<le> tl_max_queued_bytes_per_link (sc_transport c)"
  shows "sim_ok c (fold (schedule_copy time d) [k..<k + copies] q) nodes
    (on_links((ne_from d, ne_to d) := on_links (ne_from d, ne_to d) + copies * length (ne_bytes d)))
    (tot + copies * length (ne_bytes d)) nid"
  using assms(1-3,6,7)
proof (induction copies arbitrary: k q on_links tot)
  case (Suc copies)
  define payload where "payload = PNetwork (d\<lparr>ne_copy_index := of_nat k\<rparr>)"
  obtain r q' where s: "schedule_at time payload q = (r, q')" by (cases "schedule_at time payload q")
  have inv: "queue_inv q" using Suc.prems(1) by (simp add: sim_ok_def)
  note step = can_schedule_step [OF inv _ Suc.prems(3) s, of copies]
  define e where "e = \<lparr>ev_time = time, ev_sequence = eq_next_sequence q, ev_payload = payload\<rparr>"
  have size: "net_size e = length (ne_bytes d)" "link_size fg e = (if fg = (ne_from d, ne_to d) then length (ne_bytes d) else 0)" for fg
    by (auto simp: e_def payload_def net_size_def link_size_def on_link_def)
  have r: "r = (Scheduled, eq_next_sequence q)" using step(1) Suc.prems(2) by simp
  have "event_ok_in c nodes e"
    using live by (simp add: e_def payload_def event_ok_def)
  moreover have "tot + net_size e \<le> tl_max_total_queued_bytes (sc_transport c)" using Suc.prems(4) by (simp add: size)
  moreover have "on_links fg + link_size fg e \<le> tl_max_queued_bytes_per_link (sc_transport c)" for fg
    using Suc.prems(5) net_ok_bounds(2) [OF sim_okD(3) [OF Suc.prems(1)], of fg] by (simp add: size)
  ultimately have "sim_ok c q' nodes (\<lambda>fg. on_links fg + link_size fg e) (tot + net_size e) nid"
    by (rule sim_ok_schedule [OF Suc.prems(1) s [unfolded r] e_def])
  moreover have "(\<lambda>fg. on_links fg + link_size fg e) = on_links((ne_from d, ne_to d) := on_links (ne_from d, ne_to d) + length (ne_bytes d))"
    by (auto simp: fun_eq_iff size)
  ultimately have "sim_ok c q' nodes (on_links((ne_from d, ne_to d) := on_links (ne_from d, ne_to d) + length (ne_bytes d)))
      (tot + length (ne_bytes d)) nid" by (simp add: size)
  note IH = Suc.IH [OF this _ _ _ _, of "Suc k", unfolded fun_upd_upd fun_upd_same]
  have "sim_ok c (fold (schedule_copy time d) [Suc k..<Suc k + copies] q') nodes
      (on_links((ne_from d, ne_to d) := on_links (ne_from d, ne_to d) + length (ne_bytes d) + copies * length (ne_bytes d)))
      (tot + length (ne_bytes d) + copies * length (ne_bytes d)) nid"
    by (rule IH) (use step(2,3) Suc.prems(2-5) in simp_all)
  moreover have "[k..<k + Suc copies] = k # [Suc k..<Suc k + copies]" by (simp add: upt_conv_Cons)
  moreover have "schedule_copy time d k q = q'" using s by (simp add: schedule_copy_def payload_def)
  ultimately show ?case by (simp only: mult_Suc add.assoc fold_simps)
qed simp

section \<open>Storage operations\<close>

lemma id_below_next [simp]: "id_below i (next_id nid) \<longleftrightarrow> i \<le> nid"
proof (cases "nid = -1")
  case False
  then have "unat (nid + 1) = Suc (unat nid)" "nid + 1 \<noteq> 0" by (simp_all add: unat_succ64 add_eq_0_iff2)
  with False show ?thesis by (simp add: id_below_def next_id_def word_less_nat_alt word_le_nat_alt less_Suc_eq_le)
qed (simp add: id_below_def next_id_def)

lemma sim_node_ok_next:
  "sim_node_ok limits q nid n s \<Longrightarrow> set (eq_heap q) \<subseteq> set (eq_heap q') \<Longrightarrow> nid \<noteq> 0 \<Longrightarrow> sim_node_ok limits q' (next_id nid) n s"
  using device_okD(3) [OF sim_node_okD(1), of limits q nid n s]
  unfolding sim_node_ok_def device_ok_def id_below_next by (meson id_below_def less_imp_le subsetD)

lemma pending_total_upd:
  "fmlookup m i = None \<Longrightarrow> pending_total (fmupd i p m) = pending_total m + length (po_bytes p)"
proof -
  assume n: "fmlookup m i = None"
  then have "i \<notin> fset (fmdom m)" by (simp add: fmlookup_dom_iff)
  moreover have "(\<Sum>j \<in> fset (fmdom m). length (po_bytes (the (fmlookup (fmupd i p m) j)))) = pending_total m"
    unfolding pending_total_def using calculation by (intro sum.cong) auto
  ultimately show ?thesis by (simp add: pending_total_def)
qed

lemma pending_total_drop:
  "fmlookup m i = Some p \<Longrightarrow> pending_total m = pending_total (fmdrop i m) + length (po_bytes p)"
proof -
  assume s: "fmlookup m i = Some p"
  then have i: "i \<in> fset (fmdom m)" by (metis fmlookup_dom_iff option.distinct(1))
  have "(\<Sum>j \<in> fset (fmdom m) - {i}. length (po_bytes (the (fmlookup (fmdrop i m) j)))) =
      (\<Sum>j \<in> fset (fmdom m) - {i}. length (po_bytes (the (fmlookup m j))))" by (intro sum.cong) auto
  with sum.remove [OF _ i, of "\<lambda>j. length (po_bytes (the (fmlookup m j)))"] s show ?thesis
    by (simp add: pending_total_def)
qed

lemma pending_before_next:
  assumes "queue_inv q" "sim_node_ok limits q nid n s" "fmlookup (sd_pending (sn_storage s)) i = Some p" "eq_next_sequence q \<noteq> 0"
    "sd_available_at (sn_storage s) \<le> time"
  shows "op_key p < (time, eq_next_sequence q)"
proof -
  obtain e where "e \<in> set (eq_heap q)" "completes n i p e" using sim_node_okD(4) [OF assms(2,3)] by blast
  then have "unat (po_event_sequence p) < unat (eq_next_sequence q)"
    using assms(1,4) by (auto simp: queue_inv_def completes_def next_sequence_bound_def)
  moreover have "po_completion_time p \<le> time" 
    using device_okD(4) [OF sim_node_okD(1) [OF assms(2)] assms(3)] assms(5) by (rule order_trans)
  ultimately show ?thesis by (auto simp: op_key_def less_prod_def word_less_nat_alt)
qed

lemma sim_ok_submit:
  assumes ok: "sim_ok c q nodes on_links tot nid" and n: "nodes n = Some s" "sn_alive s" and nid: "nid \<noteq> 0"
    and sch: "schedule_at (po_completion_time p) (PStorage x) q = ((Scheduled, m), q')"
    and x: "se_node x = n" "se_operation_id x = nid" "se_incarnation x = sn_incarnation s"
    and p: "sd_available_at (sn_storage s) \<le> po_completion_time p" "po_actual_write_bytes p \<le> length (po_bytes p)" "po_kind p = OpFlush \<Longrightarrow> po_bytes p = []"
    and s': "sn_alive s'" "sn_incarnation s' = sn_incarnation s"
      "sd_pending (sn_storage s') = fmupd nid (p\<lparr>po_event_sequence := m\<rparr>) (sd_pending (sn_storage s))"
      "sd_pending_bytes (sn_storage s') = sd_pending_bytes (sn_storage s) + length (po_bytes p)"
      "sd_available_at (sn_storage s') = po_completion_time p"
      "length (sd_stable (sn_storage s')) + length (sd_unstable (sn_storage s')) + sd_pending_bytes (sn_storage s') \<le> sl_max_file_bytes (sc_storage c)"
      "sd_pending_bytes (sn_storage s') \<le> sl_max_pending_bytes (sc_storage c)"
      "fcard (fmdom (sd_pending (sn_storage s))) < sl_max_pending_operations (sc_storage c)"
  shows "sim_ok c q' (nodes(n \<mapsto> s')) on_links tot (next_id nid)"
proof (rule sim_okI)
  let ?e = "\<lparr>ev_time = po_completion_time p, ev_sequence = m, ev_payload = PStorage x\<rparr>"
  let ?old = "sd_pending (sn_storage s)" and ?p = "p\<lparr>po_event_sequence := m\<rparr>"
  note sn = sim_okD(5) [OF ok n(1)]
  note d = sim_node_okD(1) [OF sn]
  have h: "eq_heap q' = heap_push event_key ?e (eq_heap q) \<and> eq_limits q' = eq_limits q \<and> m = eq_next_sequence q \<and> eq_next_sequence q \<noteq> 0"
    using sch by (cases rule: schedule_at_cases) auto
  have below: "id_below i nid" if "fmlookup ?old i = Some r" for i r by (rule device_okD(3) [OF d that])
  then have fresh: "fmlookup ?old nid = None" using nid by (cases "fmlookup ?old nid") (auto simp: id_below_def)
  have before: "op_key r < op_key ?p" if "fmlookup ?old i = Some r" for i r
    using pending_before_next [OF sim_okD(1) [OF ok] sn that _ p(1)] h by (simp add: op_key_def)
  show "queue_inv q'" by (rule schedule_at_inv [OF sim_okD(1) [OF ok] sch])
  show "eq_limits q' = sc_events c" using h sim_okD(2) [OF ok] by simp
  show "net_ok c q' on_links tot" 
    using sim_okD(3) [OF ok] h net_ok_bounds(2) [OF sim_okD(3) [OF ok]] unfolding net_ok_def by (simp add: mset_heap_push local_sizes)
  show "event_ok_in c (nodes(n \<mapsto> s')) e" if "e \<in> set (eq_heap q')" for e
  proof (cases "e = ?e")
    case True
    then show ?thesis using x s' by (simp add: event_ok_def live_at_def)
  next
    case False
    then have "event_ok_in c nodes e" using that h sim_okD(4) [OF ok] by auto
    then show ?thesis by (intro event_ok_update [of nodes n s]) (use n s' fresh in auto)
  qed
  have new: "i = nid \<and> r = ?p \<or> i < nid \<and> fmlookup ?old i = Some r" if "fmlookup (sd_pending (sn_storage s')) i = Some r" for i r
    using that s'(3) below [of i r] nid by (auto simp: id_below_def split: if_splits)
  have "device_ok (sc_storage c) (next_id nid) (sn_storage s')"
  proof (rule device_okI)
    show "sd_pending_bytes (sn_storage s') = pending_total (sd_pending (sn_storage s'))"
      using device_okD(1) [OF d] s'(3,4) fresh by (simp add: pending_total_upd)
    show "id_below i (next_id nid) \<and> po_completion_time r \<le> sd_available_at (sn_storage s') \<and> po_actual_write_bytes r \<le> length (po_bytes r) \<and>
        (po_kind r = OpFlush \<longrightarrow> po_bytes r = [])"
      if "fmlookup (sd_pending (sn_storage s')) i = Some r" for i r
      using new [OF that] device_okD(4,5,7) [OF d, of i r] s'(5) p order_trans [OF _ p(1)] by auto
    show "op_key r < op_key r'" if "fmlookup (sd_pending (sn_storage s')) i = Some r"
      "fmlookup (sd_pending (sn_storage s')) j = Some r'" "i < j" for i r j r'
      using new [OF that(1)] new [OF that(2)] that(3) before [of i r] device_okD(6) [OF d, of i r j r'] by auto
    show "fcard (fmdom (sd_pending (sn_storage s'))) \<le> sl_max_pending_operations (sc_storage c)"
      using s'(3,8) by (simp add: fcard_finsert_if)
  qed (rule s'(6,7))+
  moreover have "\<exists>e \<in> set (eq_heap q'). completes n i r e" if "fmlookup (sd_pending (sn_storage s')) i = Some r" for i r
    using new [OF that] sim_node_okD(4) [OF sn, of i r] h x by (auto simp: completes_def)
  ultimately show "sim_node_ok (sc_storage c) q' (next_id nid) k r" if "(nodes(n \<mapsto> s')) k = Some r" for k r
    using that s'(1) sim_node_ok_next [OF sim_okD(5) [OF ok], of k r q'] h nid
    by (cases "k = n") (auto simp: sim_node_ok_def)
qed

section \<open>Taking events off the queue\<close>

lemma net_ok_remove:
  assumes "net_ok c q on_links tot" "pending_events_of q = add_mset e (pending_events_of q')"
  shows "net_ok c q' (\<lambda>fg. on_links fg - link_size fg e) (tot - net_size e)"
proof -
  have "on_links fg - link_size fg e \<le> tl_max_queued_bytes_per_link (sc_transport c)" for fg
    using net_ok_bounds(2) [OF assms(1), of fg] by simp
  with assms net_ok_bounds(1) [OF assms(1)] show ?thesis unfolding net_ok_def by (auto simp: le_diff_conv)
qed

lemma popped:
  assumes "sim_ok c q nodes on_links tot nid" "pop_next q = Some (e, q')"
  shows "queue_inv q'" "eq_limits q' = sc_events c" "set (eq_heap q) = insert e (set (eq_heap q'))" "e \<notin> set (eq_heap q')"
    "net_ok c q' (\<lambda>fg. on_links fg - link_size fg e) (tot - net_size e)" "event_ok_in c nodes e"
    "x \<in> set (eq_heap q') \<Longrightarrow> ev_sequence x \<noteq> ev_sequence e"
proof -
  note p = pop_next_SomeD [OF assms(2)]
  show "queue_inv q'" by (rule pop_next_inv(1) [OF sim_okD(1) [OF assms(1)] assms(2)])
  show "eq_limits q' = sc_events c" using p(5) sim_okD(2) [OF assms(1)] by simp
  show ins: "set (eq_heap q) = insert e (set (eq_heap q'))" by (rule set_heap_pop [OF p(3)])
  show "net_ok c q' (\<lambda>fg. on_links fg - link_size fg e) (tot - net_size e)" by (rule net_ok_remove [OF sim_okD(3) [OF assms(1)] p(3)])
  show "event_ok_in c nodes e" using sim_okD(4) [OF assms(1)] ins by simp
  have "distinct (map ev_sequence (e # eq_heap q'))"
    using distinct_map_mset [of "eq_heap q" "e # eq_heap q'" ev_sequence] p(3) sim_okD(1) [OF assms(1)] by (simp add: queue_inv_def)
  then show "x \<in> set (eq_heap q') \<Longrightarrow> ev_sequence x \<noteq> ev_sequence e" "e \<notin> set (eq_heap q')" by (auto simp: image_iff)
qed

lemma sim_ok_pop:
  assumes ok: "sim_ok c q nodes on_links tot nid" and pop: "pop_next q = Some (e, q')" and e: "\<And>x. ev_payload e \<noteq> PStorage x"
  shows "sim_ok c q' nodes (\<lambda>fg. on_links fg - link_size fg e) (tot - net_size e) nid"
proof (rule sim_okI)
  note p = popped [OF ok pop]
  show "sim_node_ok (sc_storage c) q' nid n s" if "nodes n = Some s" for n s
  proof -
    have "\<exists>x \<in> set (eq_heap q'). completes n i r x" if i: "fmlookup (sd_pending (sn_storage s)) i = Some r" for i r
      using sim_node_okD(4) [OF sim_okD(5) [OF ok \<open>nodes n = Some s\<close>] i] p(3) e by (auto simp: completes_def)
    then show ?thesis using sim_okD(5) [OF ok that] by (simp add: sim_node_ok_def)
  qed
qed (use popped [OF ok pop] sim_okD(4) [OF ok] in auto)

lemma sim_ok_complete:
  assumes ok: "sim_ok c q nodes on_links tot nid" and pop: "pop_next q = Some (e, q')" and e: "ev_payload e = PStorage x"
    and n: "nodes (se_node x) = Some s" "fmlookup (sd_pending (sn_storage s)) (se_operation_id x) = Some r"
    and s': "sn_alive s' = sn_alive s" "sn_incarnation s' = sn_incarnation s"
      "sd_pending (sn_storage s') = fmdrop (se_operation_id x) (sd_pending (sn_storage s))" "device_ok (sc_storage c) nid (sn_storage s')"
  shows "sim_ok c q' (nodes(se_node x \<mapsto> s')) on_links tot nid"
proof (rule sim_okI)
  note p = popped [OF ok pop]
  have z: "net_size e = 0" "link_size fg e = 0" for fg using e by (simp_all add: local_sizes)
  show "queue_inv q'" "eq_limits q' = sc_events c" by (rule p)+
  show "net_ok c q' on_links tot" using p(5) by (simp add: z)
  have alive: "sn_alive s" and seq: "po_event_sequence r = ev_sequence e" using p(6) e n by (auto simp: event_ok_def live_at_def)
  have live: "live_at (nodes(se_node x \<mapsto> s')) m inc \<longleftrightarrow> live_at nodes m inc" for m inc
    by (rule live_at_update [of nodes "se_node x" s, OF n(1) s'(1,2)])
  show "event_ok_in c (nodes(se_node x \<mapsto> s')) y" if "y \<in> set (eq_heap q')" for y
  proof (cases "ev_payload y")
    case (PStorage z)
    have "event_ok_in c nodes y" using sim_okD(4) [OF ok] that p(3) by simp
    moreover have "se_node z = se_node x \<Longrightarrow> se_operation_id z \<noteq> se_operation_id x"
      using calculation PStorage p(7) [OF that] n seq by (auto simp: event_ok_def)
    ultimately show ?thesis using PStorage n s'(3) live by (cases "se_node z = se_node x") (auto simp: event_ok_def)
  qed (use sim_okD(4) [OF ok, of y] that p(3) live in \<open>auto simp: event_ok_def\<close>)
  show "sim_node_ok (sc_storage c) q' nid k t" if k: "(nodes(se_node x \<mapsto> s')) k = Some t" for k t
  proof -
    have kept: "fmlookup (sd_pending (sn_storage s')) i = Some u \<Longrightarrow>
        fmlookup (sd_pending (sn_storage s)) i = Some u \<and> i \<noteq> se_operation_id x" for i u
      using s'(3) by (simp split: if_splits)
    obtain t0 where t0: "nodes k = Some t0" "sn_alive t = sn_alive t0" "device_ok (sc_storage c) nid (sn_storage t)"
        "\<And>i u. fmlookup (sd_pending (sn_storage t)) i = Some u \<Longrightarrow>
           fmlookup (sd_pending (sn_storage t0)) i = Some u \<and> (k = se_node x \<longrightarrow> i \<noteq> se_operation_id x)"
    proof (cases "k = se_node x")
      case True
      with k n(1) s'(1,4) kept that [of s] show ?thesis by simp
    next
      case False
      with k that [of t] sim_node_okD(1) [OF sim_okD(5) [OF ok]] show ?thesis by simp
    qed
    have "\<exists>y \<in> set (eq_heap q'). completes k i u y" if "fmlookup (sd_pending (sn_storage t)) i = Some u" for i u
      using sim_node_okD(4) [OF sim_okD(5) [OF ok t0(1)], of i u] t0(4) [OF that] p(3) e by (auto simp: completes_def)
    moreover have "\<not> sn_alive t \<Longrightarrow> t = t0" using k n(1) t0(1,2) alive s'(1) by (auto split: if_splits)
    ultimately show ?thesis using t0(3) sim_okD(5) [OF ok t0(1)] by (auto simp: sim_node_ok_def)
  qed
qed

section \<open>Crashes\<close>

lemma net_ok_filter:
  assumes "net_ok c q on_links tot" "pending_events_of q' = filter_mset (\<lambda>e. \<not> P e) (pending_events_of q)"
  shows "net_ok c q' (\<lambda>fg. on_links fg - (\<Sum>e\<leftarrow>filter P (eq_heap q). link_size fg e)) (tot - (\<Sum>e\<leftarrow>filter P (eq_heap q). net_size e))"
proof -
  have split: "(\<Sum>e \<in># pending_events_of q. f e) = (\<Sum>e\<leftarrow>filter P (eq_heap q). f e) + (\<Sum>e \<in># pending_events_of q'. f e)"
    for f :: "ScheduledEvent \<Rightarrow> nat"
  proof -
    have "pending_events_of q = mset (filter P (eq_heap q)) + pending_events_of q'"
      using multiset_partition [of "pending_events_of q" P] assms(2) by (simp add: mset_filter)
    then have "(\<Sum>e \<in># pending_events_of q. f e) = (\<Sum>e \<in># mset (filter P (eq_heap q)). f e) + (\<Sum>e \<in># pending_events_of q'. f e)"
      by (simp only: image_mset_union sum_mset.union)
    moreover have "(\<Sum>e \<in># mset xs. f e) = (\<Sum>e\<leftarrow>xs. f e)" for xs by (metis mset_map sum_mset_sum_list)
    ultimately show ?thesis by (simp only:)
  qed
  have eqs: "tot = (\<Sum>e \<in># pending_events_of q. net_size e)" "on_links = (\<lambda>fg. \<Sum>e \<in># pending_events_of q. link_size fg e)"
    using assms(1) unfolding net_ok_def by blast+
  have "on_links fg - m \<le> tl_max_queued_bytes_per_link (sc_transport c)" for fg m
    using net_ok_bounds(2) [OF assms(1), of fg] by simp
  moreover have "tot - m \<le> tl_max_total_queued_bytes (sc_transport c)" for m using net_ok_bounds(1) [OF assms(1)] by simp
  moreover have "(\<lambda>fg. on_links fg - (\<Sum>e\<leftarrow>filter P (eq_heap q). link_size fg e)) = (\<lambda>fg. \<Sum>e \<in># pending_events_of q'. link_size fg e)"
    "tot - (\<Sum>e\<leftarrow>filter P (eq_heap q). net_size e) = (\<Sum>e \<in># pending_events_of q'. net_size e)"
    by (simp_all only: eqs split add_diff_cancel_left')
  ultimately show ?thesis unfolding net_ok_def by blast
qed

lemma sim_ok_crash:
  assumes ok: "sim_ok c q nodes on_links tot nid" and n: "nodes n = Some s"
    and q': "q' = snd (extract_if P q)" "P = cancelled_by_crash (tl_drop_in_flight_on_endpoint_crash (sc_transport c)) n"
    and s': "\<not> sn_alive s'" "sd_pending (sn_storage s') = fmempty" "sd_unstable (sn_storage s') = []" "device_ok (sc_storage c) nid (sn_storage s')"
  shows "sim_ok c q' (nodes(n \<mapsto> s')) (\<lambda>fg. on_links fg - (\<Sum>e\<leftarrow>filter P (eq_heap q). link_size fg e))
    (tot - (\<Sum>e\<leftarrow>filter P (eq_heap q). net_size e)) nid"
proof (rule sim_okI)
  show "queue_inv q'" using extract_if_inv [OF sim_okD(1) [OF ok]] q' by simp
  show "eq_limits q' = sc_events c" using sim_okD(2) [OF ok] q' by simp
  show "net_ok c q' (\<lambda>fg. on_links fg - (\<Sum>e\<leftarrow>filter P (eq_heap q). link_size fg e)) (tot - (\<Sum>e\<leftarrow>filter P (eq_heap q). net_size e))"
    using q' by (intro net_ok_filter [OF sim_okD(3) [OF ok]]) simp
  show "event_ok_in c (nodes(n \<mapsto> s')) e" if "e \<in> set (eq_heap q')" for e
    using that sim_okD(4) [OF ok, of e] q'
    by (cases "ev_payload e") (auto simp: event_ok_def live_at_def cancelled_by_crash_def)
  show "sim_node_ok (sc_storage c) q' nid k t" if k: "(nodes(n \<mapsto> s')) k = Some t" for k t
  proof (cases "k = n")
    case True
    with k s' show ?thesis by (simp add: sim_node_ok_def)
  next
    case False
    with k have t: "nodes k = Some t" by simp
    have "\<exists>e \<in> set (eq_heap q'). completes k i u e" if i: "fmlookup (sd_pending (sn_storage t)) i = Some u" for i u
    proof -
      obtain e where "e \<in> set (eq_heap q)" "completes k i u e" using sim_node_okD(4) [OF sim_okD(5) [OF ok t] i] by blast
      moreover from this False have "\<not> P e" by (auto simp: completes_def q'(2) cancelled_by_crash_def)
      ultimately show ?thesis using q'(1) by auto
    qed
    with sim_okD(5) [OF ok t] show ?thesis by (simp add: sim_node_ok_def)
  qed
qed

end
