(* ===== verification/SimReach.thy ===== *)
theory SimReach
  imports SimInvariant
begin

text \<open>
  Every operation of the simulator preserves its invariant; the states a driver can reach by any sequence of operations.
\<close>

section \<open>Operations that change one node\<close>

lemma new_simulator_inv: "sim_inv (new_simulator config)"
proof -
  have "sim_ok c (new_event_queue (sc_events config)) (fmlookup fmempty) (\<lambda>_. 0) 0 1" if "sc_events c = sc_events config" for c
    by (rule sim_okI) (use that in \<open>simp_all add: new_event_queue_inv net_ok_def\<close>, simp_all add: new_event_queue_def)
  moreover have "queued (new_simulator config) = (\<lambda>_. 0)"
    by (simp add: fun_eq_iff queued_def get_link_def find_link_def initial_link_def new_simulator_def Let_def)
  ultimately show ?thesis by (simp add: sim_inv_def) (simp add: new_simulator_def Let_def)
qed

lemma initial_device_ok: "device_ok limits nid (initial_device\<lparr>sd_available_at := t\<rparr>)"
  by (simp add: device_ok_def initial_device_def pending_total_def fcard_fempty)

lemma device_ok_available:
  "device_ok limits nid d \<Longrightarrow> sd_pending d = fmempty \<Longrightarrow> device_ok limits nid (d\<lparr>sd_available_at := t\<rparr>)"
  by (simp add: device_ok_def)

lemma sim_inv_revive:
  assumes "sim_inv sim" "\<And>s. sim_node n sim = Some s \<Longrightarrow> \<not> sn_alive s" "sn_alive s'" "sd_pending (sn_storage s') = fmempty"
    "device_ok (sc_storage (sim_config sim)) (sim_next_storage_id sim) (sn_storage s')"
  shows "sim_inv (put_node n s' sim)"
  using sim_ok_revive [OF assms(1) [unfolded sim_inv_def] assms(2) [unfolded sim_node_def] assms(3-5)]
  by (simp add: sim_inv_def)

lemma sim_inv_nodeD: "sim_inv sim \<Longrightarrow> sim_node n sim = Some s \<Longrightarrow> sim_node_ok (sc_storage (sim_config sim)) (sim_events sim) (sim_next_storage_id sim) n s"
  by (auto simp: sim_inv_def sim_node_def dest: sim_okD(5))

lemmas sim_inv_device = sim_node_okD(1) [OF sim_inv_nodeD]

lemma register_node_inv: "sim_inv sim \<Longrightarrow> sim_inv (snd (register_node n sim))"
proof (cases "sim_node n sim")
  case None
  assume "sim_inv sim"
  then have "sim_inv (put_node n (initial_sim_node\<lparr>sn_storage := initial_device\<lparr>sd_available_at := t\<rparr>\<rparr>) sim)" for t
    by (rule sim_inv_revive) (simp_all add: None initial_device_ok, simp_all add: initial_sim_node_def initial_device_def)
  with None show ?thesis by (simp add: register_node_def Let_def)
qed (simp add: register_node_def)

lemma restart_node_inv: "sim_inv sim \<Longrightarrow> sim_inv (snd (restart_node n sim))"
proof (cases "sim_node n sim")
  case (Some s)
  assume inv: "sim_inv sim"
  note sn = sim_inv_nodeD [OF inv Some]
  show ?thesis
  proof (cases "sn_alive s \<or> sn_incarnation s = -1")
    case False
    then have "device_ok (sc_storage (sim_config sim)) (sim_next_storage_id sim) ((sn_storage s)\<lparr>sd_available_at := t\<rparr>)" for t
      using device_ok_available sim_node_okD(1,2) [OF sn] by simp
    with False sim_node_okD(2) [OF sn] Some sim_inv_revive [OF inv, of n] show ?thesis
      by (simp add: restart_node_def Let_def)
  qed (use Some inv in \<open>auto simp: restart_node_def\<close>)
qed (simp add: restart_node_def)

lemma sim_inv_node_update:
  assumes "sim_inv sim" "sim_node n sim = Some s" "sn_alive s' = sn_alive s" "sn_incarnation s' = sn_incarnation s"
    "sd_pending (sn_storage s') = sd_pending (sn_storage s)" "sd_unstable (sn_storage s') = sd_unstable (sn_storage s)"
    "device_ok (sc_storage (sim_config sim)) (sim_next_storage_id sim) (sn_storage s')"
  shows "sim_inv (put_node n s' sim)"
  using sim_ok_node_update [OF assms(1) [unfolded sim_inv_def] assms(2) [unfolded sim_node_def] assms(3-7)]
  by (simp add: sim_inv_def)

lemma sim_inv_storage:
  assumes "sim_inv sim" "sim_node n sim = Some s" "sd_pending d = sd_pending (sn_storage s)" "sd_unstable d = sd_unstable (sn_storage s)"
    "device_ok (sc_storage (sim_config sim)) (sim_next_storage_id sim) d"
  shows "sim_inv (put_storage n s d sim)"
  unfolding put_storage_def by (rule sim_inv_node_update [OF assms(1,2)]) (use assms in simp_all)

lemma set_timer_generation_simps [simp]:
  "sn_alive (set_timer_generation k g s) = sn_alive s" "sn_incarnation (set_timer_generation k g s) = sn_incarnation s"
  "sn_storage (set_timer_generation k g s) = sn_storage s" "timer_generation k (set_timer_generation k g s) = g"
  "k' \<noteq> k \<Longrightarrow> timer_generation k' (set_timer_generation k g s) = timer_generation k' s"
  by (cases k; cases k'; simp add: set_timer_generation_def timer_generation_def)+

lemma sim_inv_generation:
  "sim_inv sim \<Longrightarrow> sim_node n sim = Some s \<Longrightarrow> sim_inv (put_node n (set_timer_generation k g s) sim)"
  by (rule sim_inv_node_update) (simp_all add: sim_inv_device)

lemma cancel_timer_inv: "sim_inv sim \<Longrightarrow> sim_inv (snd (cancel_timer n kind sim))"
  by (simp add: cancel_timer_def Let_def sim_inv_generation split: option.split)

lemma inject_fault_inv:
  assumes "sim_inv sim"
    and "\<And>d. sd_stable (f d) = sd_stable d \<and> sd_unstable (f d) = sd_unstable d \<and> sd_pending (f d) = sd_pending d \<and>
      sd_pending_bytes (f d) = sd_pending_bytes d \<and> sd_available_at (f d) = sd_available_at d"
  shows "sim_inv (snd (inject_fault n f b detail sim))"
proof (cases "sim_node n sim")
  case (Some s)
  have "device_ok limits nid (f d)" if "device_ok limits nid d" for limits nid d
    using that assms(2) by (simp add: device_ok_def)
  with sim_inv_storage [OF assms(1) Some, of "f (sn_storage s)"] sim_inv_device [OF assms(1) Some] assms show ?thesis
    by (simp add: inject_fault_def Some)
qed (simp add: inject_fault_def assms(1))

lemma storage_fault_inv:
  assumes "sim_inv sim"
  shows "sim_inv (snd (fail_next_write n sim))" "sim_inv (snd (short_write_next n k sim))" "sim_inv (snd (fail_next_flush n sim))"
  unfolding fail_next_write_def short_write_next_def fail_next_flush_def by (rule inject_fault_inv [OF assms], simp)+

lemma fmdom_empty_iff [simp]: "fmdom m = {||} \<longleftrightarrow> m = fmempty"
  by (metis fmdom_empty fmrestrict_fset_dom fmrestrict_fset_null)

lemma initialize_storage_inv: "sim_inv sim \<Longrightarrow> sim_inv (snd (initialize_storage n bs sim))"
proof (cases "sim_node n sim")
  case (Some s)
  assume inv: "sim_inv sim"
  let ?d = "(sn_storage s)\<lparr>sd_stable := bs, sd_available_at := eq_now (sim_events sim)\<rparr>"
  have "device_ok (sc_storage (sim_config sim)) (sim_next_storage_id sim) ?d"
    if "length bs \<le> sl_max_file_bytes (sc_storage (sim_config sim))" "sd_unstable (sn_storage s) = []" "sd_pending (sn_storage s) = fmempty"
    using sim_inv_device [OF inv Some] that by (simp add: device_ok_def pending_total_def)
  with sim_inv_storage [OF inv Some, of ?d] inv show ?thesis by (simp add: initialize_storage_def Some Let_def not_less)
qed (simp add: initialize_storage_def)

lemma truncate_stable_storage_inv: "sim_inv sim \<Longrightarrow> sim_inv (snd (truncate_stable_storage n k sim))"
proof (cases "sim_node n sim")
  case (Some s)
  assume inv: "sim_inv sim"
  let ?d = "(sn_storage s)\<lparr>sd_stable := take k (sd_stable (sn_storage s))\<rparr>"
  have "device_ok (sc_storage (sim_config sim)) (sim_next_storage_id sim) ?d"
    using sim_inv_device [OF inv Some] by (auto simp: device_ok_def)
  with sim_inv_storage [OF inv Some, of ?d] inv show ?thesis by (simp add: truncate_stable_storage_def Some Let_def)
qed (simp add: truncate_stable_storage_def)

lemma link_ops_inv:
  assumes "sim_inv sim"
  shows "sim_inv (snd (set_partition f g b sim))" "sim_inv (snd (set_link_delay f g t sim))" "sim_inv (snd (drop_next f g n sim))"
    "sim_inv (snd (duplicate_next f g n sim))"
  using assms by (simp_all add: set_partition_def set_link_delay_def drop_next_def duplicate_next_def)

section \<open>Scheduling operations\<close>

lemma live_at_node: "live_at (fmlookup (sim_nodes sim)) n (sn_incarnation s)" if "sim_node n sim = Some s" "sn_alive s"
  using that by (auto simp: live_at_def sim_node_def)

lemma sim_inv_schedule_after:
  assumes inv: "sim_inv sim" and sch: "schedule_after delay payload (sim_events sim) = ((Scheduled, m), q)"
    and e: "\<And>t. event_ok_in (sim_config sim) (fmlookup (sim_nodes sim)) \<lparr>ev_time = t, ev_sequence = m, ev_payload = payload\<rparr>"
    and d: "\<And>d. payload \<noteq> PNetwork d"
  shows "sim_inv (sim\<lparr>sim_events := q\<rparr>)"
  using sim_ok_schedule_local [OF inv [unfolded sim_inv_def] schedule_after_sched [OF sch] e d] by (simp add: sim_inv_def)

lemma arm_timer_inv: "sim_inv sim \<Longrightarrow> sim_inv (snd (arm_timer n kind delay sim))"
proof (cases "sim_node n sim")
  case (Some s)
  assume inv: "sim_inv sim"
  let ?g = "advance_generation (timer_generation kind s)"
  let ?e = "PTimer \<lparr>te_node = n, te_kind = kind, te_generation = ?g, te_incarnation = sn_incarnation s\<rparr>"
  obtain st m q where sch: "schedule_after delay ?e (sim_events sim) = ((st, m), q)" by (metis surj_pair)
  have "sim_inv (put_node n (set_timer_generation kind ?g s) (sim\<lparr>sim_events := q\<rparr>))" if "st = Scheduled" "sn_alive s"
  proof (rule sim_inv_generation)
    show "sim_inv (sim\<lparr>sim_events := q\<rparr>)"
      by (rule sim_inv_schedule_after [OF inv sch [unfolded that]]) (use live_at_node [OF Some] that in \<open>simp_all add: event_ok_def\<close>)
    show "sim_node n (sim\<lparr>sim_events := q\<rparr>) = Some s" using Some by (simp add: sim_node_def)
  qed
  with inv Some sch show ?thesis by (simp add: arm_timer_def Let_def)
qed (simp add: arm_timer_def)

lemma schedule_after_refused: "schedule_after delay payload q = ((st, m), q') \<Longrightarrow> st \<noteq> Scheduled \<Longrightarrow> q' = q"
  by (auto simp: schedule_after_def schedule_at_def Let_def split: if_splits)

lemma schedule_user_inv: "sim_inv sim \<Longrightarrow> sim_inv (snd (schedule_user n tag bs delay sim))"
proof (cases "sim_node n sim")
  case (Some s)
  assume inv: "sim_inv sim"
  let ?e = "PUser \<lparr>ue_node = n, ue_tag = tag, ue_incarnation = sn_incarnation s, ue_bytes = bs\<rparr>"
  obtain st m q where sch: "schedule_after delay ?e (sim_events sim) = ((st, m), q)" by (metis surj_pair)
  have "sim_inv (sim\<lparr>sim_events := q\<rparr>)" if "sn_alive s"
  proof (cases "st = Scheduled")
    case True
    then show ?thesis
      by (intro sim_inv_schedule_after [OF inv sch [unfolded True]]) (use live_at_node [OF Some] that in \<open>simp_all add: event_ok_def\<close>)
  qed (use schedule_after_refused [OF sch] inv in simp)
  with inv Some sch show ?thesis by (simp add: schedule_user_def Let_def)
qed (simp add: schedule_user_def)

lemma add_overflows_unat:
  assumes "\<not> add_overflows a b"
  shows "unat (a + b) = unat a + unat b"
proof -
  have "unat (-1 - a) = 18446744073709551615 - unat a" by (simp add: unat_sub)
  then have "unat b \<le> 18446744073709551615 - unat a" using assms by (simp add: add_overflows_def not_less word_le_nat_alt)
  then have "unat a + unat b < 18446744073709551616" using unat_less_64 [of a] by linarith
  then show ?thesis by (intro unat_add_lem [THEN iffD1]) simp
qed

lemma add_overflows_le: "\<not> add_overflows a b \<Longrightarrow> a \<le> a + b"
  by (simp add: word_le_nat_alt add_overflows_unat)

lemma queued_cong: "sim_links sim = sim_links sim' \<Longrightarrow> queued sim = queued sim'"
  by (simp add: fun_eq_iff queued_def get_link_def find_link_def)

lemma get_link_record [simp]: "get_link f g (sim_record k n p t i b d sim) = get_link f g sim"
  by (simp add: get_link_def find_link_def)

lemma enqueue_frame_inv:
  assumes inv: "sim_inv sim" and sched: "can_schedule (unat extras + 1) (sim_events sim)" and time: "eq_now (sim_events sim) \<le> time"
    and live: "live_at (fmlookup (sim_nodes sim)) (ne_to d) (ne_to_incarnation d)" "live_at (fmlookup (sim_nodes sim)) (ne_from d) (ne_from_incarnation d)"
    and bounds: "sim_total_network_bytes sim + length (ne_bytes d) * (unat extras + 1) \<le> tl_max_total_queued_bytes (sc_transport (sim_config sim))"
      "queued sim (ne_from d, ne_to d) + length (ne_bytes d) * (unat extras + 1) \<le> tl_max_queued_bytes_per_link (sc_transport (sim_config sim))"
  shows "sim_inv (snd (enqueue_frame d extras time sim))"
proof -
  let ?d = "d\<lparr>ne_delivery_id := sim_next_delivery_id sim\<rparr>" and ?n = "unat extras + 1"
  let ?q = "fold (schedule_copy time ?d) [0..<?n] (sim_events sim)"
  have ok: "sim_ok (sim_config sim) ?q (fmlookup (sim_nodes sim))
      ((queued sim)((ne_from d, ne_to d) := queued sim (ne_from d, ne_to d) + ?n * length (ne_bytes d)))
      (sim_total_network_bytes sim + ?n * length (ne_bytes d)) (sim_next_storage_id sim)"
    using schedule_copies [OF inv [unfolded sim_inv_def] disjI2 [OF sched] time, of ?d 0] live bounds
    by (simp add: mult.commute del: upt_Suc)
  have q: "queued (sim\<lparr>sim_next_delivery_id := a, sim_events := b, sim_total_network_bytes := c\<rparr>) = queued sim" for a b c
    by (rule queued_cong) simp
  show ?thesis using ok unfolding enqueue_frame_def Let_def snd_conv sim_inv_record
    by (simp add: sim_inv_def q queued_get_link mult.commute del: upt_Suc)
qed

lemma sim_inv_put_same [simp]: "sim_inv (put_link f g (get_link f g sim) sim) \<longleftrightarrow> sim_inv sim"
  by (simp add: sim_inv_def del: put_link_view(3))

lemma sim_inv_if: "(c \<Longrightarrow> sim_inv (snd a)) \<Longrightarrow> (\<not> c \<Longrightarrow> sim_inv (snd b)) \<Longrightarrow> sim_inv (snd (if c then a else b))"
  by simp

lemma sim_send_inv:
  assumes inv: "sim_inv sim"
  shows "sim_inv (snd (sim_send f g bs delay sim))"
proof (cases "\<exists>source target. sim_node f sim = Some source \<and> sim_node g sim = Some target \<and> sn_alive source \<and> sn_alive target")
  case True
  then obtain source target where n: "sim_node f sim = Some source" "sim_node g sim = Some target" "sn_alive source" "sn_alive target"
    by blast
  let ?sim = "put_link f g (get_link f g sim) sim" and ?l = "get_link f g sim"
  let ?d = "\<lparr>ne_delivery_id = 0, ne_from = f, ne_to = g, ne_from_incarnation = sn_incarnation source,
    ne_to_incarnation = sn_incarnation target, ne_copy_index = 0, ne_bytes = bs\<rparr>"
  have frame: "sim_inv (snd (enqueue_frame ?d extras (eq_now (sim_events sim) + delay + a) ?sim))"
    if "can_schedule (unat extras + 1) (sim_events sim)" "\<not> add_overflows (eq_now (sim_events sim)) delay"
      "\<not> add_overflows (eq_now (sim_events sim) + delay) a"
      "length bs * (unat extras + 1) \<le> tl_max_queued_bytes_per_link (sc_transport (sim_config sim))"
      "lk_queued_bytes ?l \<le> tl_max_queued_bytes_per_link (sc_transport (sim_config sim)) - length bs * (unat extras + 1)"
      "length bs * (unat extras + 1) \<le> tl_max_total_queued_bytes (sc_transport (sim_config sim))"
      "sim_total_network_bytes sim \<le> tl_max_total_queued_bytes (sc_transport (sim_config sim)) - length bs * (unat extras + 1)"
    for extras a
    by (rule enqueue_frame_inv)
      (use that inv order_trans [OF add_overflows_le [OF that(2)] add_overflows_le [OF that(3)]] live_at_node [OF n(1,3)] live_at_node [OF n(2,4)]
       in \<open>simp_all add: queued_get_link\<close>)
  show ?thesis
    unfolding sim_send_def Let_def n option.case prod.case
  proof (intro sim_inv_if, goal_cases)
    case 11
    then show ?case unfolding put_simps put_link_view de_Morgan_disj not_less by (intro frame) blast+
  qed (simp_all (no_asm) add: inv)
next
  case False
  then have "sim_send f g bs delay sim = (fst (sim_send f g bs delay sim), sim)"
    by (cases "sim_node f sim"; cases "sim_node g sim") (simp_all add: sim_send_def)
  then show ?thesis using inv by (metis snd_conv)
qed

section \<open>Storage\<close>

lemma submit_operation_inv:
  assumes inv: "sim_inv sim" and n: "sim_node n sim = Some s" "sn_alive s" and nid: "sim_next_storage_id sim \<noteq> 0"
    and sched: "can_schedule 1 (sim_events sim)"
    and p: "eq_now (sim_events sim) \<le> po_completion_time p" "sd_available_at (sn_storage s) \<le> po_completion_time p"
      "po_actual_write_bytes p \<le> length (po_bytes p)" "po_kind p = OpFlush \<Longrightarrow> po_bytes p = []"
    and f: "\<And>d. sd_stable (f d) = sd_stable d" "\<And>d. sd_unstable (f d) = sd_unstable d" "\<And>d. sd_pending (f d) = sd_pending d"
      "\<And>d. sd_pending_bytes (f d) = sd_pending_bytes d + length (po_bytes p)"
    and size: "length (sd_stable (sn_storage s)) + length (sd_unstable (sn_storage s)) + (sd_pending_bytes (sn_storage s) + length (po_bytes p))
      \<le> sl_max_file_bytes (sc_storage (sim_config sim))"
      "sd_pending_bytes (sn_storage s) + length (po_bytes p) \<le> sl_max_pending_bytes (sc_storage (sim_config sim))"
      "fcard (fmdom (sd_pending (sn_storage s))) < sl_max_pending_operations (sc_storage (sim_config sim))"
  shows "sim_inv (snd (submit_operation n s p f detail sim))"
proof -
  let ?x = "\<lparr>se_node = n, se_operation_id = sim_next_storage_id sim, se_kind = po_kind p, se_incarnation = sn_incarnation s,
    se_byte_count = po_actual_write_bytes p, se_status = po_completion_status p\<rparr>"
  obtain r q where sch: "schedule_at (po_completion_time p) (PStorage ?x) (sim_events sim) = (r, q)" by (metis surj_pair)
  have "queue_inv (sim_events sim)" using inv sim_okD(1) by (simp add: sim_inv_def)
  from can_schedule_step(1) [OF this _ p(1) sch, of 0] sched
  have r: "r = (Scheduled, eq_next_sequence (sim_events sim))" by simp
  define d where "d = (f ((sn_storage s)\<lparr>sd_pending := fmupd (sim_next_storage_id sim)
    (p\<lparr>po_event_sequence := eq_next_sequence (sim_events sim)\<rparr>) (sd_pending (sn_storage s))\<rparr>))\<lparr>sd_available_at := po_completion_time p\<rparr>"
  have "sim_ok (sim_config sim) q ((fmlookup (sim_nodes sim))(n \<mapsto> s\<lparr>sn_storage := d\<rparr>)) (queued sim) (sim_total_network_bytes sim)
      (next_id (sim_next_storage_id sim))"
    by (rule sim_ok_submit [OF inv [unfolded sim_inv_def] n [unfolded sim_node_def] nid sch [unfolded r]])
      (use p f n(2) size in \<open>simp_all add: d_def\<close>)
  then show ?thesis
    using sch by (simp add: submit_operation_def Let_def r sim_inv_def put_storage_def d_def)
qed

lemma storage_start_le: "\<not> add_overflows (storage_start d sim) latency \<Longrightarrow> eq_now (sim_events sim) \<le> storage_start d sim + latency"
  "\<not> add_overflows (storage_start d sim) latency \<Longrightarrow> sd_available_at d \<le> storage_start d sim + latency"
  using add_overflows_le [of "storage_start d sim" latency] by (auto simp: storage_start_def intro: order_trans [rotated])

lemma write_outcome_le: "snd (write_outcome d bs) \<le> length bs"
  by (auto simp: write_outcome_def split: option.split)

lemma submit_write_inv:
  assumes inv: "sim_inv sim"
  shows "sim_inv (snd (submit_write n bs latency sim))"
proof (cases "sim_node n sim")
  case (Some s)
  show ?thesis unfolding submit_write_def Some Let_def option.case
  proof (intro sim_inv_if, goal_cases)
    case 8
    have "sd_pending_bytes (sn_storage s) + length bs \<le> sl_max_pending_bytes (sc_storage (sim_config sim))" using 8(3) by linarith
    with 8 show ?case
      by (subst case_prod_beta, intro submit_operation_inv [OF inv Some])
        (simp_all add: storage_start_le write_outcome_le file_limit_exceeded_def)
  qed (simp_all add: inv)
qed (simp add: submit_write_def inv)

lemma submit_flush_inv:
  assumes inv: "sim_inv sim"
  shows "sim_inv (snd (submit_flush n latency sim))"
proof (cases "sim_node n sim")
  case (Some s)
  show ?thesis unfolding submit_flush_def Some Let_def option.case
  proof (intro sim_inv_if, goal_cases)
    case 6
    then show ?case
      by (intro submit_operation_inv [OF inv Some])
        (use device_okD(2,8) [OF sim_inv_device [OF inv Some]] in \<open>simp_all add: storage_start_le\<close>)
  qed (simp_all add: inv)
qed (simp add: submit_flush_def inv)

section \<open>Delivery\<close>

lemma complete_device_ok:
  assumes d: "device_ok limits nid d" and p: "fmlookup (sd_pending d) i = Some p"
  shows "device_ok limits nid ((snd (complete_operation p d))\<lparr>sd_pending := fmdrop i (sd_pending (snd (complete_operation p d)))\<rparr>)"
proof (rule device_okI)
  let ?d = "snd (complete_operation p d)"
  note D = device_okD [OF d]
  have total: "sd_pending_bytes d = pending_total (fmdrop i (sd_pending d)) + length (po_bytes p)"
    using D(1) pending_total_drop [OF p] by simp
  have keep: "sd_pending ?d = sd_pending d" "sd_available_at ?d = sd_available_at d" by (simp_all add: complete_operation_def)
  have flush: "po_kind p \<noteq> OpWrite \<Longrightarrow> po_bytes p = []" using D(7) [OF p] by (cases "po_kind p") auto
  show "sd_pending_bytes (?d\<lparr>sd_pending := fmdrop i (sd_pending ?d)\<rparr>) = pending_total (sd_pending (?d\<lparr>sd_pending := fmdrop i (sd_pending ?d)\<rparr>))"
    using total flush by (auto simp: complete_operation_def)
  show "length (sd_stable (?d\<lparr>sd_pending := fmdrop i (sd_pending ?d)\<rparr>)) + length (sd_unstable (?d\<lparr>sd_pending := fmdrop i (sd_pending ?d)\<rparr>)) +
      sd_pending_bytes (?d\<lparr>sd_pending := fmdrop i (sd_pending ?d)\<rparr>) \<le> sl_max_file_bytes limits"
    using D(2) D(5) [OF p] total by (auto simp: complete_operation_def)
  show "fcard (fmdom (sd_pending (?d\<lparr>sd_pending := fmdrop i (sd_pending ?d)\<rparr>))) \<le> sl_max_pending_operations limits"
    using D(9) order_trans [OF fcard_mono [of "fmdom (fmdrop i (sd_pending d))" "fmdom (sd_pending d)"]] by (simp add: keep) blast
qed (use device_okD [OF d] in \<open>auto simp: complete_operation_def split: if_splits\<close>)

lemma deliver_storage_live:
  assumes "event_ok b (fmlookup (sim_nodes sim)) e" "ev_payload e = PStorage x"
  obtains s p where "sim_node (se_node x) sim = Some s" "sn_alive s" "sn_incarnation s = se_incarnation x"
    "fmlookup (sd_pending (sn_storage s)) (se_operation_id x) = Some p" "po_event_sequence p = ev_sequence e"
    "po_completion_time p = ev_time e"
  using assms by (auto simp: event_ok_def live_at_def sim_node_def)

text \<open>The device after the completion of an operation, as \<open>deliver_storage\<close> leaves it.\<close>

definition completed_device :: "StorageOpId \<Rightarrow> PendingStorageOperation \<Rightarrow> Tick \<Rightarrow> StorageDevice \<Rightarrow> StorageDevice" where
  "completed_device i p now d =
     (let d = (snd (complete_operation p d))\<lparr>sd_pending := fmdrop i (sd_pending d)\<rparr>
      in if sd_pending d = fmempty then d\<lparr>sd_available_at := now\<rparr> else d)"

lemma complete_keeps [simp]: "sd_pending (snd (complete_operation p d)) = sd_pending d"
  by (simp add: complete_operation_def)

lemma completed_device_pending [simp]: "sd_pending (completed_device i p now d) = fmdrop i (sd_pending d)"
  by (simp add: completed_device_def Let_def)

lemma completed_device_ok:
  "device_ok limits nid d \<Longrightarrow> fmlookup (sd_pending d) i = Some p \<Longrightarrow> device_ok limits nid (completed_device i p now d)"
  using complete_device_ok [of limits nid d i p]
    device_ok_available [of limits nid "(snd (complete_operation p d))\<lparr>sd_pending := fmdrop i (sd_pending d)\<rparr>" now]
  by (auto simp: completed_device_def Let_def)

lemma deliver_storage_done:
  assumes "sim_node (se_node x) sim = Some s" "sn_alive s" "sn_incarnation s = se_incarnation x"
    "fmlookup (sd_pending (sn_storage s)) (se_operation_id x) = Some p"
  shows "deliver_storage x sim =
    (Some (x\<lparr>se_status := po_completion_status p, se_byte_count := fst (complete_operation p (sn_storage s))\<rparr>),
     sim_record storage_completed (se_node x) 0 (se_operation_id x) (se_incarnation x) (fst (complete_operation p (sn_storage s)))
       (status_name (po_completion_status p))
       (put_storage (se_node x) s (completed_device (se_operation_id x) p (eq_now (sim_events sim)) (sn_storage s)) sim))"
  using assms by (simp add: deliver_storage_def completed_device_def Let_def split_beta)

lemma deliver_event_inv:
  assumes inv: "sim_inv sim" and pop: "pop_next (sim_events sim) = Some (e, q)"
  shows "sim_inv (snd (deliver_event e (sim\<lparr>sim_events := q\<rparr>)))"
proof -
  let ?sim = "sim\<lparr>sim_events := q\<rparr>"
  note ok = inv [unfolded sim_inv_def]
  note p = popped [OF ok pop]
  show ?thesis
  proof (cases "ev_payload e")
    case (PStorage x)
    have "event_ok_in (sim_config sim) (fmlookup (sim_nodes ?sim)) e" using p(6) by simp
    then obtain s r where s: "sim_node (se_node x) ?sim = Some s" "sn_alive s" "sn_incarnation s = se_incarnation x"
        "fmlookup (sd_pending (sn_storage s)) (se_operation_id x) = Some r"
      by (rule deliver_storage_live [OF _ PStorage])
    let ?d = "completed_device (se_operation_id x) r (eq_now q) (sn_storage s)"
    have n: "sim_node (se_node x) sim = Some s" using s(1) by (simp add: sim_node_def)
    have "sim_ok (sim_config sim) q ((fmlookup (sim_nodes sim))(se_node x \<mapsto> s\<lparr>sn_storage := ?d\<rparr>)) (queued sim) (sim_total_network_bytes sim)
        (sim_next_storage_id sim)"
      by (rule sim_ok_complete [OF ok pop PStorage n [unfolded sim_node_def] s(4)])
        (simp_all add: completed_device_ok [OF sim_inv_device [OF inv n] s(4)])
    then show ?thesis
      unfolding deliver_event_def PStorage EventPayload.case deliver_storage_done [OF s] by (simp add: sim_inv_def put_storage_def)
  next
    case (PNetwork d)
    have ok': "sim_ok (sim_config sim) q (fmlookup (sim_nodes sim)) (\<lambda>fg. queued sim fg - link_size fg e)
        (sim_total_network_bytes sim - net_size e) (sim_next_storage_id sim)"
      by (rule sim_ok_pop [OF ok pop]) (simp add: PNetwork)
    have "(\<lambda>fg. queued sim fg - link_size fg e) = queued (release_network_bytes d ?sim)"
      using PNetwork by (auto simp: fun_eq_iff link_size_def on_link_def net_size_def)
    with ok' have "sim_inv (release_network_bytes d ?sim)" using PNetwork by (simp add: sim_inv_def net_size_def)
    then show ?thesis by (simp add: deliver_event_def PNetwork deliver_network_def Let_def)
  qed (use sim_ok_pop [OF ok pop] in \<open>simp_all add: local_sizes deliver_event_def deliver_timer_def deliver_user_def sim_inv_def Let_def\<close>)
qed

lemma sim_next_inv: "sim_inv sim \<Longrightarrow> sim_inv (snd (sim_next sim))"
proof (induction sim rule: sim_next.induct)
  case (1 sim)
  show ?case
  proof (cases "pop_next (sim_events sim)")
    case (Some x)
    obtain e q where x: "x = (e, q)" by (cases x)
    obtain r sim' where d: "deliver_event e (sim\<lparr>sim_events := q\<rparr>) = (r, sim')" by (cases "deliver_event e (sim\<lparr>sim_events := q\<rparr>)")
    have "sim_inv sim'" using deliver_event_inv [OF 1(2) Some [unfolded x]] d by simp
    with 1(1) Some x d show ?thesis by (subst sim_next.simps) (auto split: option.split)
  qed (use 1(2) in \<open>simp add: sim_next.simps\<close>)
qed

section \<open>Crashes\<close>

lemma cancel_event_view:
  "sim_config (cancel_event n i e sim) = sim_config sim" "sim_nodes (cancel_event n i e sim) = sim_nodes sim"
  "sim_events (cancel_event n i e sim) = sim_events sim" "sim_next_storage_id (cancel_event n i e sim) = sim_next_storage_id sim"
  "queued (cancel_event n i e sim) = (\<lambda>fg. queued sim fg - link_size fg e)"
  "sim_total_network_bytes (cancel_event n i e sim) = sim_total_network_bytes sim - net_size e"
  by (auto simp: cancel_event_def fun_eq_iff link_size_def on_link_def net_size_def split: EventPayload.split)

lemma cancel_events_view:
  "sim_config (fold (cancel_event n i) es sim) = sim_config sim" "sim_nodes (fold (cancel_event n i) es sim) = sim_nodes sim"
  "sim_events (fold (cancel_event n i) es sim) = sim_events sim" "sim_next_storage_id (fold (cancel_event n i) es sim) = sim_next_storage_id sim"
  "queued (fold (cancel_event n i) es sim) = (\<lambda>fg. queued sim fg - (\<Sum>e\<leftarrow>es. link_size fg e))"
  "sim_total_network_bytes (fold (cancel_event n i) es sim) = sim_total_network_bytes sim - (\<Sum>e\<leftarrow>es. net_size e)"
  by (induction es arbitrary: sim) (simp_all add: cancel_event_view)

lemma first_pending_in:
  assumes "first_pending d = Some p"
  obtains i where "fmlookup (sd_pending d) i = Some p" "\<And>j r. fmlookup (sd_pending d) j = Some r \<Longrightarrow> i \<le> j"
proof (rule that [of "Min (fset (fmdom (sd_pending d)))"])
  show "fmlookup (sd_pending d) (Min (fset (fmdom (sd_pending d)))) = Some p"
    using assms by (simp add: first_pending_def split: if_splits)
  show "Min (fset (fmdom (sd_pending d))) \<le> j" if "fmlookup (sd_pending d) j = Some r" for j r
    using that by (intro Min_le) (auto simp: fmlookup_dom_iff)
qed

lemma pending_total_ge: "fmlookup m i = Some p \<Longrightarrow> length (po_bytes p) \<le> pending_total m"
  using pending_total_drop [of m i p] by simp

lemma crash_survivors_length:
  assumes "device_ok limits nid d"
  shows "length (snd (snd (crash_survivors spec d))) \<le> sl_max_file_bytes limits"
proof -
  have "length (po_bytes p) \<le> sd_pending_bytes d" if f: "first_pending d = Some p" for p
  proof -
    obtain i where "fmlookup (sd_pending d) i = Some p" using first_pending_in [OF f] by blast
    then show ?thesis using pending_total_ge device_okD(1) [OF assms] by simp
  qed
  with device_okD(2) [OF assms] show ?thesis
    by (fastforce simp: crash_survivors_def Let_def split: option.split)
qed

lemma crash_device_ok: "device_ok limits nid d \<Longrightarrow> device_ok limits nid (crash_device spec now d)"
  using crash_survivors_length [of limits nid d spec] by (simp add: device_ok_def crash_device_def pending_total_def fcard_fempty)

lemma crash_node_inv:
  assumes inv: "sim_inv sim"
  shows "sim_inv (snd (crash_node n spec sim))"
proof (cases "sim_node n sim")
  case (Some s)
  note ok = inv [unfolded sim_inv_def]
  let ?s = "s\<lparr>sn_storage := crash_device spec (eq_now (sim_events sim)) (sn_storage s), sn_alive := False\<rparr>"
  let ?P = "cancelled_by_crash (tl_drop_in_flight_on_endpoint_crash (sc_transport (sim_config sim))) n"
  have "sim_ok (sim_config sim) (snd (extract_if ?P (sim_events sim))) ((fmlookup (sim_nodes sim))(n \<mapsto> ?s))
     (\<lambda>fg. queued sim fg - (\<Sum>e\<leftarrow>filter ?P (eq_heap (sim_events sim)). link_size fg e))
     (sim_total_network_bytes sim - (\<Sum>e\<leftarrow>filter ?P (eq_heap (sim_events sim)). net_size e)) (sim_next_storage_id sim)"
    by (rule sim_ok_crash [OF ok Some [unfolded sim_node_def] refl refl])
      (simp_all add: crash_device_ok [OF sim_inv_device [OF inv Some]], simp_all add: crash_device_def)
  then show ?thesis using inv Some
    by (simp add: crash_node_def Let_def split_beta sim_inv_def cancel_events_view)
qed (simp add: crash_node_def inv)

section \<open>Reachable states\<close>

text \<open>The calls of a driver, with their arguments.\<close>

datatype SimCall =
    CRegister NodeId | CCrash NodeId StorageCrashSpec | CRestart NodeId
  | CArm NodeId TimerKind Tick | CCancel NodeId TimerKind
  | CPartition NodeId NodeId bool | CDelay NodeId NodeId Tick | CDrop NodeId NodeId u32 | CDuplicate NodeId NodeId u32
  | CSend NodeId NodeId bytes Tick | CWrite NodeId bytes Tick | CFlush NodeId Tick
  | CFailWrite NodeId | CShortWrite NodeId nat | CFailFlush NodeId | CInitialize NodeId bytes | CTruncate NodeId nat
  | CUser NodeId u64 bytes Tick | CNext

fun sim_call :: "SimCall \<Rightarrow> Simulator \<Rightarrow> Simulator" where
  "sim_call (CRegister n) sim = snd (register_node n sim)"
| "sim_call (CCrash n spec) sim = snd (crash_node n spec sim)"
| "sim_call (CRestart n) sim = snd (restart_node n sim)"
| "sim_call (CArm n k t) sim = snd (arm_timer n k t sim)"
| "sim_call (CCancel n k) sim = snd (cancel_timer n k sim)"
| "sim_call (CPartition f g b) sim = snd (set_partition f g b sim)"
| "sim_call (CDelay f g t) sim = snd (set_link_delay f g t sim)"
| "sim_call (CDrop f g n) sim = snd (drop_next f g n sim)"
| "sim_call (CDuplicate f g n) sim = snd (duplicate_next f g n sim)"
| "sim_call (CSend f g bs t) sim = snd (sim_send f g bs t sim)"
| "sim_call (CWrite n bs t) sim = snd (submit_write n bs t sim)"
| "sim_call (CFlush n t) sim = snd (submit_flush n t sim)"
| "sim_call (CFailWrite n) sim = snd (fail_next_write n sim)"
| "sim_call (CShortWrite n k) sim = snd (short_write_next n k sim)"
| "sim_call (CFailFlush n) sim = snd (fail_next_flush n sim)"
| "sim_call (CInitialize n bs) sim = snd (initialize_storage n bs sim)"
| "sim_call (CTruncate n k) sim = snd (truncate_stable_storage n k sim)"
| "sim_call (CUser n tag bs t) sim = snd (schedule_user n tag bs t sim)"
| "sim_call CNext sim = snd (sim_next sim)"

inductive sim_reach :: "SimulatorConfig \<Rightarrow> Simulator \<Rightarrow> bool" for config where
  start: "sim_reach config (new_simulator config)"
| call: "sim_reach config sim \<Longrightarrow> sim_reach config (sim_call c sim)"

lemma sim_call_inv: "sim_inv sim \<Longrightarrow> sim_inv (sim_call c sim)"
  by (cases c) (simp_all add: register_node_inv crash_node_inv restart_node_inv arm_timer_inv cancel_timer_inv link_ops_inv
      sim_send_inv submit_write_inv submit_flush_inv storage_fault_inv initialize_storage_inv truncate_stable_storage_inv
      schedule_user_inv sim_next_inv)

lemma sim_reach_inv: "sim_reach config sim \<Longrightarrow> sim_inv sim"
  by (induction rule: sim_reach.induct) (simp_all add: new_simulator_inv sim_call_inv)

text \<open>The trace is bounded: only \<^verbatim>\<open>record\<close> extends it.\<close>

definition trace_ok :: "Simulator \<Rightarrow> bool" where
  "trace_ok sim \<longleftrightarrow> length (sim_trace sim) \<le> sc_max_trace_records (sim_config sim)"

lemma trace_ok_simps [simp]:
  "trace_ok (sim_record k n p t i b d sim) = trace_ok sim" "trace_ok (put_node n s sim) = trace_ok sim"
  "trace_ok (put_link f g l sim) = trace_ok sim" "trace_ok (put_fault f g h sim) = trace_ok sim"
  "trace_ok (put_storage n s st sim) = trace_ok sim" "trace_ok (release_network_bytes v sim) = trace_ok sim"
  "trace_ok (sim\<lparr>sim_events := q\<rparr>) = trace_ok sim" "trace_ok (sim\<lparr>sim_next_storage_id := j\<rparr>) = trace_ok sim"
  "trace_ok (sim\<lparr>sim_next_delivery_id := j, sim_events := q, sim_total_network_bytes := m\<rparr>) = trace_ok sim"
  by (auto simp: trace_ok_def sim_record_def put_node_def put_link_def put_fault_def put_storage_def release_network_bytes_def
      Let_def split: option.split)

lemma cancel_events_trace [simp]: "trace_ok (fold (cancel_event n inc) es sim) = trace_ok sim"
  by (induction es arbitrary: sim) (simp_all add: cancel_event_def split: EventPayload.split)

lemma deliver_event_trace: "trace_ok (snd (deliver_event e sim)) = trace_ok sim"
  by (auto simp: deliver_event_def deliver_timer_def deliver_network_def deliver_storage_def deliver_user_def Let_def
      split: EventPayload.split option.split prod.split)

lemma sim_next_trace: "trace_ok sim \<Longrightarrow> trace_ok (snd (sim_next sim))"
proof (induction sim rule: sim_next.induct)
  case (1 sim)
  show ?case
  proof (cases "pop_next (sim_events sim)")
    case (Some x)
    obtain e q where x: "x = (e, q)" by (cases x)
    obtain d sim1 where d: "deliver_event e (sim\<lparr>sim_events := q\<rparr>) = (d, sim1)" by (cases "deliver_event e (sim\<lparr>sim_events := q\<rparr>)")
    have t: "trace_ok sim1" using deliver_event_trace [of e "sim\<lparr>sim_events := q\<rparr>"] d 1(2) by simp
    show ?thesis
    proof (cases d)
      case None
      then have "sim_next sim = sim_next sim1" using Some x d by (subst sim_next.simps) simp
      with 1(1) [OF Some x [symmetric] d [unfolded None, symmetric] refl t] show ?thesis by simp
    next
      case (Some e')
      then have "sim_next sim = (Some e', sim1)" using \<open>pop_next (sim_events sim) = Some x\<close> x d by (subst sim_next.simps) simp
      with t show ?thesis by simp
    qed
  qed (use 1(2) in \<open>subst sim_next.simps, simp\<close>)
qed

lemma storage_ops_trace:
  assumes "trace_ok sim"
  shows "trace_ok (snd (submit_operation n s p f detail sim))" "trace_ok (snd (inject_fault n g b detail sim))"
  using assms by (auto simp: submit_operation_def inject_fault_def Let_def split: prod.split option.split)

lemma trace_ok_if: "(c \<Longrightarrow> trace_ok (snd a)) \<Longrightarrow> (\<not> c \<Longrightarrow> trace_ok (snd b)) \<Longrightarrow> trace_ok (snd (if c then a else b))"
  by simp

lemma sim_send_trace: "trace_ok sim \<Longrightarrow> trace_ok (snd (sim_send f g bs t sim))"
proof (cases "sim_node f sim"; cases "sim_node g sim")
  fix source target
  assume ok: "trace_ok sim" and n: "sim_node f sim = Some source" "sim_node g sim = Some target"
  show ?thesis unfolding sim_send_def Let_def n option.case prod.case
    by (intro trace_ok_if) (use ok in \<open>simp_all (no_asm_simp) add: enqueue_frame_def Let_def del: upt_Suc\<close>)
qed (simp_all add: sim_send_def)

lemma submit_trace:
  assumes "trace_ok sim"
  shows "trace_ok (snd (submit_write n bs t sim))" "trace_ok (snd (submit_flush n t sim))"
proof -
  show "trace_ok (snd (submit_write n bs t sim))"
    by (cases "sim_node n sim")
      (auto simp: submit_write_def Let_def assms storage_ops_trace(1) split_beta intro!: trace_ok_if)
  show "trace_ok (snd (submit_flush n t sim))"
    by (cases "sim_node n sim") (auto simp: submit_flush_def Let_def assms storage_ops_trace(1) intro!: trace_ok_if)
qed

lemma sim_call_trace: "trace_ok sim \<Longrightarrow> trace_ok (sim_call c sim)"
  by (cases c) (auto simp: sim_next_trace sim_send_trace submit_trace storage_ops_trace register_node_def crash_node_def restart_node_def
      arm_timer_def cancel_timer_def set_partition_def set_link_delay_def drop_next_def duplicate_next_def fail_next_write_def
      short_write_next_def fail_next_flush_def initialize_storage_def truncate_stable_storage_def schedule_user_def Let_def
      split: option.split prod.split)

lemma sim_reach_trace: "sim_reach config sim \<Longrightarrow> trace_ok sim"
  by (induction rule: sim_reach.induct) (simp_all add: sim_call_trace, simp add: trace_ok_def new_simulator_def Let_def)

lemma sim_reach_calls: "sim_reach config (fold sim_call cs (new_simulator config))"
proof (induction cs rule: rev_induct)
  case Nil
  then show ?case by (simp add: start)
next
  case (snoc c cs)
  then show ?case by (simp add: call)
qed

end
