(* ===== verification/Pcg.thy ===== *)
theory Pcg
  imports Prelude
begin

text \<open>
  The generator of the simulator, \<^verbatim>\<open>Pcg32\<close> of \<^verbatim>\<open>src/simulator.cpp\<close>: a linear congruential state
  of 64 bits with a permuted 32-bit output, and the sampling functions on top of it. The rejection loop of
  \<^verbatim>\<open>bounded\<close> has no bound in the source; it is a partial function, and that it always returns follows
  from the full period of the congruential step.
\<close>

section \<open>The generator\<close>

record Pcg32 =
  pcg_state :: u64
  pcg_increment :: u64

definition pcg_multiplier :: u64 where
  "pcg_multiplier = 6364136223846793005"

definition pcg_output :: "u64 \<Rightarrow> u32" where
  "pcg_output previous =
     (let xorshifted = ucast (drop_bit 27 (drop_bit 18 previous XOR previous)) :: u32;
          rotation = ucast (drop_bit 59 previous) :: u32
      in drop_bit (unat rotation) xorshifted OR push_bit (unat ((0 - rotation) AND 31)) xorshifted)"

definition next_u32 :: "Pcg32 \<Rightarrow> u32 \<times> Pcg32" where
  "next_u32 p = (pcg_output (pcg_state p), p\<lparr>pcg_state := pcg_state p * pcg_multiplier + pcg_increment p\<rparr>)"

definition new_pcg32 :: "u64 \<Rightarrow> u64 \<Rightarrow> Pcg32" where
  "new_pcg32 seed stream =
     (let p = snd (next_u32 \<lparr>pcg_state = 0, pcg_increment = push_bit 1 stream OR 1\<rparr>);
          p = p\<lparr>pcg_state := pcg_state p + seed\<rparr>
      in snd (next_u32 p))"

definition next_u64 :: "Pcg32 \<Rightarrow> u64 \<times> Pcg32" where
  "next_u64 p =
     (let (high, p) = next_u32 p; (low, p) = next_u32 p
      in (push_bit 32 (ucast high) OR ucast low, p))"

definition bounded_threshold :: "u64 \<Rightarrow> u64" where
  "bounded_threshold exclusive_bound = (0 - exclusive_bound) mod exclusive_bound"

partial_function (option) bounded_loop :: "u64 \<Rightarrow> u64 \<Rightarrow> Pcg32 \<Rightarrow> (u64 \<times> Pcg32) option" where
  "bounded_loop threshold exclusive_bound p =
     (case next_u64 p of (val, p) \<Rightarrow>
        if val \<ge> threshold then Some (val mod exclusive_bound, p)
        else bounded_loop threshold exclusive_bound p)"

definition bounded :: "u64 \<Rightarrow> Pcg32 \<Rightarrow> (u64 \<times> Pcg32) option" where
  "bounded exclusive_bound p =
     (if exclusive_bound = 0 then Some (0, p)
      else bounded_loop (bounded_threshold exclusive_bound) exclusive_bound p)"

definition inclusive :: "u64 \<Rightarrow> u64 \<Rightarrow> Pcg32 \<Rightarrow> (u64 \<times> Pcg32) option" where
  "inclusive minimum maximum p =
     (if minimum > maximum then Some (minimum, p)
      else let distance = maximum - minimum in
        if distance = -1 then Some (next_u64 p)
        else map_option (\<lambda>(v, p). (minimum + v, p)) (bounded (distance + 1) p))"

definition chance :: "u64 \<Rightarrow> u64 \<Rightarrow> Pcg32 \<Rightarrow> (bool \<times> Pcg32) option" where
  "chance numerator denominator p =
     (if denominator = 0 \<or> numerator = 0 then Some (False, p)
      else if numerator \<ge> denominator then Some (True, p)
      else map_option (\<lambda>(v, p). (v < numerator, p)) (bounded denominator p))"

section \<open>The congruential step has full period\<close>

definition pcg_step :: "u64 \<Rightarrow> u64 \<Rightarrow> u64" where
  "pcg_step c s = s * pcg_multiplier + c"

text \<open>The composition of \<open>2 ^ k\<close> steps is again affine: multiplier and increment of it.\<close>

fun pcg_jump :: "nat \<Rightarrow> u64 \<Rightarrow> u64 \<times> u64" where
  "pcg_jump 0 c = (pcg_multiplier, c)"
| "pcg_jump (Suc k) c = (let (m, d) = pcg_jump k c in (m * m, d * (m + 1)))"

lemma pcg_jump_funpow: "(pcg_step c ^^ (2 ^ k)) s = s * fst (pcg_jump k c) + snd (pcg_jump k c)"
proof (induction k arbitrary: s)
  case 0
  then show ?case by (simp add: pcg_step_def)
next
  case (Suc k)
  have "(2::nat) ^ Suc k = 2 ^ k + 2 ^ k" by simp
  then have "(pcg_step c ^^ (2 ^ Suc k)) s = (pcg_step c ^^ (2 ^ k)) ((pcg_step c ^^ (2 ^ k)) s)"
    by (simp only: funpow_add comp_apply)
  also have "\<dots> = s * fst (pcg_jump (Suc k) c) + snd (pcg_jump (Suc k) c)"
    unfolding Suc.IH by (simp add: Let_def split_beta algebra_simps)
  finally show ?case .
qed

text \<open>The multiplier of the jump is one modulo \<open>2 ^ (k + 2)\<close>, its increment an odd multiple of \<open>2 ^ k\<close>.\<close>

lemma pcg_jump_form:
  assumes "odd c"
  shows "\<exists>x y. fst (pcg_jump k c) = 1 + 2 ^ (k + 2) * x \<and> snd (pcg_jump k c) = 2 ^ k * (2 * y + 1)"
proof (induction k)
  case 0
  have "fst (pcg_jump 0 c) = 1 + 2 ^ (0 + 2) * 1591034055961698251" by (simp add: pcg_multiplier_def)
  moreover obtain y where "c = 2 * y + 1" using assms by (elim oddE)
  then have "snd (pcg_jump 0 c) = 2 ^ 0 * (2 * y + 1)" by simp
  ultimately show ?case by blast
next
  case (Suc k)
  then obtain x y where m: "fst (pcg_jump k c) = 1 + 2 ^ (k + 2) * x" "snd (pcg_jump k c) = 2 ^ k * (2 * y + 1)" by blast
  have "fst (pcg_jump (Suc k) c) = 1 + 2 ^ (Suc k + 2) * (x + 2 ^ (k + 1) * (x * x))"
    by (simp add: Let_def split_beta m algebra_simps power_add)
  moreover have "snd (pcg_jump (Suc k) c) = 2 ^ Suc k * (2 * (y + 2 ^ k * x * (2 * y + 1)) + 1)"
    by (simp add: Let_def split_beta m algebra_simps power_add)
  ultimately show ?case by blast
qed

text \<open>Hence the orbit of any state reaches every state, bit by bit.\<close>

lemma pcg_orbit_mod:
  assumes "odd c"
  shows "\<exists>n z. (pcg_step c ^^ n) s = t + 2 ^ k * z"
proof (induction k)
  case 0
  have "(pcg_step c ^^ 0) s = t + 2 ^ 0 * (s - t)" by simp
  then show ?case by blast
next
  case (Suc k)
  then obtain n z where n: "(pcg_step c ^^ n) s = t + 2 ^ k * z" by blast
  show ?case
  proof (cases "even z")
    case True
    then obtain w where "z = 2 * w" by (elim evenE)
    with n have "(pcg_step c ^^ n) s = t + 2 ^ Suc k * w" by simp
    then show ?thesis by blast
  next
    case False
    then obtain w where z: "z = 2 * w + 1" by (elim oddE)
    obtain x y where j: "fst (pcg_jump k c) = 1 + 2 ^ (k + 2) * x" "snd (pcg_jump k c) = 2 ^ k * (2 * y + 1)"
      using pcg_jump_form [OF assms] by blast
    have "(pcg_step c ^^ (2 ^ k + n)) s = (t + 2 ^ k * z) * (1 + 2 ^ (k + 2) * x) + 2 ^ k * (2 * y + 1)"
      by (simp only: funpow_add comp_apply n pcg_jump_funpow j)
    also have "\<dots> = t + 2 ^ Suc k * (w + y + 1 + 2 * x * (t + 2 ^ k * z))"
      by (simp add: z algebra_simps power_add)
    finally show ?thesis by blast
  qed
qed

lemma pcg_full_period:
  assumes "odd c"
  shows "\<exists>n. (pcg_step c ^^ n) s = t"
proof -
  have "(2::u64) ^ 64 = 0" by code_simp
  with pcg_orbit_mod [OF assms, of s t 64] show ?thesis by (simp only: mult_zero_left add_0_right) blast
qed

lemma pcg_step_parity: "odd c \<Longrightarrow> even ((pcg_step c ^^ n) s) \<longleftrightarrow> (even n \<longleftrightarrow> even s)"
  by (induction n) (auto simp: pcg_step_def pcg_multiplier_def)

section \<open>The rejection loop\<close>

definition pcg_draws :: "nat \<Rightarrow> Pcg32 \<Rightarrow> Pcg32" where
  "pcg_draws n p = p\<lparr>pcg_state := (pcg_step (pcg_increment p) ^^ n) (pcg_state p)\<rparr>"

lemma next_u32_draws: "next_u32 p = (pcg_output (pcg_state p), pcg_draws 1 p)"
  by (simp add: next_u32_def pcg_draws_def pcg_step_def)

lemma pcg_draws_add [simp]: "pcg_draws m (pcg_draws n p) = pcg_draws (m + n) p"
  by (simp add: pcg_draws_def funpow_add)

lemma pcg_draws_increment [simp]: "pcg_increment (pcg_draws n p) = pcg_increment p"
  by (simp add: pcg_draws_def)

lemma pcg_draws_0 [simp]: "pcg_draws 0 p = p"
  by (simp add: pcg_draws_def)

lemma next_u64_draws:
  "next_u64 p = (push_bit 32 (ucast (pcg_output (pcg_state p))) OR ucast (pcg_output (pcg_state (pcg_draws 1 p))), pcg_draws 2 p)"
  by (simp add: next_u64_def next_u32_draws numeral_2_eq_2)

lemma bounded_loop_cases:
  "bounded_loop t b p = (if t \<le> fst (next_u64 p) then Some (fst (next_u64 p) mod b, pcg_draws 2 p) else bounded_loop t b (pcg_draws 2 p))"
  by (subst bounded_loop.simps) (simp add: next_u64_draws)

text \<open>The first pair of draws whose value reaches the threshold ends the loop.\<close>

lemma bounded_loop_returns:
  assumes "t \<le> fst (next_u64 (pcg_draws (2 * n) p))"
  shows "\<exists>m \<le> n. t \<le> fst (next_u64 (pcg_draws (2 * m) p)) \<and>
    bounded_loop t b p = Some (fst (next_u64 (pcg_draws (2 * m) p)) mod b, pcg_draws (2 * Suc m) p)"
  using assms
proof (induction n arbitrary: p)
  case 0
  then show ?case by (subst bounded_loop_cases) (simp add: numeral_2_eq_2)
next
  case (Suc n)
  show ?case
  proof (cases "t \<le> fst (next_u64 p)")
    case True
    then show ?thesis by (subst bounded_loop_cases) (auto simp: numeral_2_eq_2 intro!: exI [of _ 0])
  next
    case False
    have "t \<le> fst (next_u64 (pcg_draws (2 * n) (pcg_draws 2 p)))" using Suc.prems by simp
    from Suc.IH [OF this] obtain m where "m \<le> n" "t \<le> fst (next_u64 (pcg_draws (2 * m) (pcg_draws 2 p)))"
        "bounded_loop t b (pcg_draws 2 p) = Some (fst (next_u64 (pcg_draws (2 * m) (pcg_draws 2 p))) mod b, pcg_draws (2 * Suc m) (pcg_draws 2 p))"
      by blast
    with False show ?thesis by (subst bounded_loop_cases) (auto intro!: exI [of _ "Suc m"])
  qed
qed

lemma bounded_threshold_unat:
  assumes "b \<noteq> 0"
  shows "unat (bounded_threshold b) = (2 ^ 64 - unat b) mod unat b"
proof -
  have "unat (- b) = 2 ^ 64 - unat b" using assms by (simp add: unat_uminus64)
  then show ?thesis by (simp add: bounded_threshold_def unat_mod_distrib)
qed

lemma bounded_threshold_le: "b \<noteq> 0 \<Longrightarrow> unat (bounded_threshold b) \<le> 2 ^ 63"
proof (cases "unat b \<le> 2 ^ 63")
  case True
  moreover assume "b \<noteq> 0"
  moreover from this have "(2 ^ 64 - unat b) mod unat b < unat b" by (simp add: unat_gt_0)
  ultimately show ?thesis by (simp add: bounded_threshold_unat)
next
  case False
  moreover assume "b \<noteq> 0"
  moreover have "(2 ^ 64 - unat b) mod unat b \<le> 2 ^ 64 - unat b" by simp
  moreover have "(2::nat) ^ 64 = 2 ^ 63 + 2 ^ 63" by simp
  ultimately show ?thesis using bounded_threshold_unat [of b] by linarith
qed

text \<open>From the states \<open>2 ^ 58\<close> and \<open>2 ^ 58 + 1\<close> the pair drawn is at least \<open>2 ^ 63\<close>, above every threshold.\<close>

lemma next_u64_high:
  assumes "pcg_state p = 2 ^ 58 \<or> pcg_state p = 2 ^ 58 + 1"
  shows "2 ^ 63 \<le> unat (fst (next_u64 p))"
proof -
  have "bit (pcg_output (2 ^ 58)) 31" "bit (pcg_output (2 ^ 58 + 1)) 31" by code_simp+
  with assms have "bit (fst (next_u64 p)) 63"
    by (auto simp: next_u64_draws bit_or_iff bit_push_bit_iff bit_ucast_iff)
  then have "bit (unat (fst (next_u64 p))) 63" by (simp add: bit_unsigned_iff)
  then have "odd (unat (fst (next_u64 p)) div 2 ^ 63)" unfolding bit_iff_odd .
  then show ?thesis by (metis even_zero div_less not_less)
qed

lemma pcg_draws_high:
  assumes "odd (pcg_increment p)"
  shows "\<exists>n. 2 ^ 63 \<le> unat (fst (next_u64 (pcg_draws (2 * n) p)))"
proof -
  define t :: u64 where "t = (if even (pcg_state p) then 2 ^ 58 else 2 ^ 58 + 1)"
  obtain k where k: "(pcg_step (pcg_increment p) ^^ k) (pcg_state p) = t" using pcg_full_period [OF assms] by blast
  have "even t \<longleftrightarrow> even (pcg_state p)" by (simp add: t_def)
  then have "even k" using pcg_step_parity [OF assms, of k "pcg_state p"] k by auto
  then obtain n where "k = 2 * n" by (elim evenE)
  with k have "pcg_state (pcg_draws (2 * n) p) = t" by (simp add: pcg_draws_def)
  then have "2 ^ 63 \<le> unat (fst (next_u64 (pcg_draws (2 * n) p)))" by (intro next_u64_high) (simp add: t_def)
  then show ?thesis ..
qed

lemma bounded_returns:
  assumes "odd (pcg_increment p)" and "b \<noteq> 0"
  shows "\<exists>v m. bounded b p = Some (v mod b, pcg_draws m p) \<and> bounded_threshold b \<le> v"
proof -
  obtain n where "2 ^ 63 \<le> unat (fst (next_u64 (pcg_draws (2 * n) p)))" using pcg_draws_high [OF assms(1)] by blast
  with bounded_threshold_le [OF assms(2)] have "bounded_threshold b \<le> fst (next_u64 (pcg_draws (2 * n) p))"
    by (simp add: word_le_nat_alt)
  from bounded_loop_returns [OF this, of b] show ?thesis using assms(2) by (auto simp: bounded_def)
qed

lemma new_pcg32_increment [simp]: "odd (pcg_increment (new_pcg32 seed stream))"
  by (simp add: new_pcg32_def next_u32_def Let_def even_or_iff)

end
