(* ===== verification/SimProperties.thy ===== *)
theory SimProperties
  imports SimReach Pcg "HOL-Library.Code_Target_Nat"
begin

text \<open>
  The properties of the simulator and of its generator: exact byte accounting, order of events, which events are
  discarded, the order in which storage operations complete, and what a crash leaves on a device.
\<close>

section \<open>The events that \<open>next\<close> passes over\<close>

inductive sim_skip :: "Simulator \<Rightarrow> Simulator \<Rightarrow> bool" where
  here: "sim_skip sim sim"
| skip: "pop_next (sim_events sim) = Some (e, q) \<Longrightarrow> deliver_event e (sim\<lparr>sim_events := q\<rparr>) = (None, sim1) \<Longrightarrow> sim_skip sim1 sim2 \<Longrightarrow>
    sim_skip sim sim2"

lemma sim_next_skips:
  "(\<exists>e' sim'. sim_next sim = (Some e', sim') \<and> (\<exists>sim0 e q. sim_skip sim sim0 \<and> pop_next (sim_events sim0) = Some (e, q) \<and>
      deliver_event e (sim0\<lparr>sim_events := q\<rparr>) = (Some e', sim'))) \<or>
   (\<exists>sim'. sim_next sim = (None, sim') \<and> sim_skip sim sim' \<and> eq_heap (sim_events sim') = [])"
proof (induction sim rule: sim_next.induct)
  case (1 sim)
  show ?case
  proof (cases "pop_next (sim_events sim)")
    case None
    then have "sim_next sim = (None, sim)" by (subst sim_next.simps) simp
    with None sim_skip.here show ?thesis by (auto simp: pop_next_None)
  next
    case (Some x)
    obtain e q where x: "x = (e, q)" by (cases x)
    obtain d sim1 where d: "deliver_event e (sim\<lparr>sim_events := q\<rparr>) = (d, sim1)" by (cases "deliver_event e (sim\<lparr>sim_events := q\<rparr>)")
    show ?thesis
    proof (cases d)
      case None
      then have "sim_next sim = sim_next sim1" using Some x d by (subst sim_next.simps) simp
      moreover note 1 [OF Some x [symmetric] d [unfolded None, symmetric] refl]
      ultimately show ?thesis using sim_skip.skip [OF Some [unfolded x] d [unfolded None]] by metis
    next
      case (Some e')
      then have "sim_next sim = (Some e', sim1)" using \<open>pop_next (sim_events sim) = Some x\<close> x d by (subst sim_next.simps) simp
      with Some d x \<open>pop_next (sim_events sim) = Some x\<close> sim_skip.here show ?thesis by blast
    qed
  qed
qed

lemma sim_next_event:
  assumes "sim_next sim = (Some e', sim')"
  obtains sim0 e q where "sim_skip sim sim0" "pop_next (sim_events sim0) = Some (e, q)"
    "deliver_event e (sim0\<lparr>sim_events := q\<rparr>) = (Some e', sim')"
  using sim_next_skips [of sim] assms by auto

lemma find_link_record [simp]: "find_link f g (sim_record k n p t i b d sim) = find_link f g sim"
  by (simp add: find_link_def)

lemma deliver_none_keeps:
  assumes "deliver_event e sim = (None, sim')"
  shows "sim_nodes sim' = sim_nodes sim" "sim_config sim' = sim_config sim"
  using assms
  by (auto simp: deliver_event_def deliver_timer_def deliver_network_def deliver_storage_def deliver_user_def Let_def
      split: EventPayload.splits option.splits if_splits prod.splits)

lemma sim_skip_keeps:
  assumes "sim_skip sim sim'" "sim_inv sim"
  shows "sim_inv sim'" "sim_nodes sim' = sim_nodes sim" "sim_config sim' = sim_config sim"
    "set (eq_heap (sim_events sim')) \<subseteq> set (eq_heap (sim_events sim))" "eq_now (sim_events sim) \<le> eq_now (sim_events sim')"
proof -
  have "sim_inv sim' \<and> sim_nodes sim' = sim_nodes sim \<and> sim_config sim' = sim_config sim \<and>
      set (eq_heap (sim_events sim')) \<subseteq> set (eq_heap (sim_events sim)) \<and> eq_now (sim_events sim) \<le> eq_now (sim_events sim')"
    using assms
  proof (induction rule: sim_skip.induct)
    case (skip sim e q sim1 sim2)
    note p = popped [OF skip.prems [unfolded sim_inv_def] skip.hyps(1)]
    have i: "sim_inv sim1" using deliver_event_inv [OF skip.prems skip.hyps(1)] skip.hyps(2) by simp
    moreover have "sim_events sim1 = q" using deliver_event_keeps [OF skip.hyps(2)] by simp
    moreover have "eq_now (sim_events sim) \<le> eq_now q"
      using pop_next_inv(2) [OF _ skip.hyps(1)] sim_okD(1) [OF skip.prems [unfolded sim_inv_def]] pop_next_SomeD(4) [OF skip.hyps(1)] by simp
    ultimately show ?case using skip.IH deliver_none_keeps [OF skip.hyps(2)] p(3) by auto
  qed simp
  then show "sim_inv sim'" "sim_nodes sim' = sim_nodes sim" "sim_config sim' = sim_config sim"
    "set (eq_heap (sim_events sim')) \<subseteq> set (eq_heap (sim_events sim))" "eq_now (sim_events sim) \<le> eq_now (sim_events sim')" by blast+
qed

lemma apfst_eq: "apfst f p = (a, b) \<longleftrightarrow> f (fst p) = a \<and> snd p = b"
  by (cases p) simp

lemma deliver_event_some:
  assumes "deliver_event e sim = (Some e', sim')"
  shows "case ev_payload e of
      PTimer t \<Rightarrow> e' = e \<and> deliver_timer t sim = (True, sim')
    | PNetwork d \<Rightarrow> e' = e \<and> deliver_network d sim = (True, sim')
    | PStorage x \<Rightarrow> (\<exists>x'. e' = e\<lparr>ev_payload := PStorage x'\<rparr> \<and> deliver_storage x sim = (Some x', sim'))
    | PUser u \<Rightarrow> e' = e \<and> deliver_user u sim = (True, sim')"
  using assms by (auto simp: deliver_event_def apfst_eq prod_eq_iff split: EventPayload.splits if_splits)

lemma sim_next_popped:
  assumes inv: "sim_inv sim" and nx: "sim_next sim = (Some e', sim')"
  obtains sim0 e q where "sim_inv sim0" "sim_nodes sim0 = sim_nodes sim" "sim_config sim0 = sim_config sim"
    "pop_next (sim_events sim0) = Some (e, q)" "deliver_event e (sim0\<lparr>sim_events := q\<rparr>) = (Some e', sim')"
    "eq_now (sim_events sim) \<le> ev_time e" "eq_now q = ev_time e" "sim_events sim' = q" "event_key e' = event_key e"
    "\<And>x. x \<in> set (eq_heap q) \<Longrightarrow> event_key e < event_key x"
    "event_ok_in (sim_config sim) (fmlookup (sim_nodes sim)) e"
proof -
  obtain sim0 e q where s: "sim_skip sim sim0" "pop_next (sim_events sim0) = Some (e, q)"
      "deliver_event e (sim0\<lparr>sim_events := q\<rparr>) = (Some e', sim')" by (rule sim_next_event [OF nx])
  note k = sim_skip_keeps [OF s(1) inv]
  note ok = k(1) [unfolded sim_inv_def]
  note p = popped [OF ok s(2)] and P = pop_next_SomeD [OF s(2)]
  have "event_key e < event_key x" if "x \<in> set (eq_heap q)" for x
  proof -
    have "event_key e \<le> event_key x" by (rule pop_next_least [OF sim_okD(1) [OF ok] s(2)]) (use that p(3) in simp)
    moreover have "event_key e \<noteq> event_key x" using p(7) [OF that] by (auto simp: event_key_def)
    ultimately show ?thesis by simp
  qed
  moreover have "eq_now (sim_events sim) \<le> ev_time e"
    using k(5) pop_next_inv(2) [OF sim_okD(1) [OF ok] s(2)] by (rule order_trans)
  moreover have "event_key e' = event_key e"
    using deliver_event_some [OF s(3)] by (auto simp: event_key_def split: EventPayload.splits)
  moreover have "sim_events sim' = q" using deliver_event_keeps [OF s(3)] by simp
  moreover have "event_ok_in (sim_config sim) (fmlookup (sim_nodes sim)) e" using p(6) k(2,3) by simp
  ultimately show ?thesis using that [OF k(1-3) s(2,3) _ P(4)] by blast
qed

text \<open>A timer that was cancelled or armed again, or a frame whose link is partitioned.\<close>

definition passed_over :: "Simulator \<Rightarrow> ScheduledEvent \<Rightarrow> bool" where
  "passed_over sim x =
     (case ev_payload x of
        PTimer t \<Rightarrow> \<exists>s. sim_node (te_node t) sim = Some s \<and> timer_generation (te_kind t) s \<noteq> te_generation t
      | PNetwork d \<Rightarrow> lf_partitioned (link_fault (ne_from d) (ne_to d) sim)
      | _ \<Rightarrow> False)"

lemma discarded_event:
  assumes inv: "sim_inv sim" and pop: "pop_next (sim_events sim) = Some (e, q)"
    and none: "deliver_event e (sim\<lparr>sim_events := q\<rparr>) = (None, sim')"
  shows "passed_over sim e"
proof -
  have ok: "event_ok_in (sim_config sim) (fmlookup (sim_nodes sim)) e" by (rule popped(6) [OF inv [unfolded sim_inv_def] pop])
  have live: "live_at (fmlookup (sim_nodes sim)) n inc \<longleftrightarrow> live_in n inc sim'" if "sim_nodes sim' = sim_nodes sim" for n inc sim'
    using that by (auto simp: live_at_def live_in_def sim_node_def split: option.split)
  show ?thesis
  proof (cases "ev_payload e")
    case (PTimer t)
    with ok none show ?thesis
      by (auto simp: passed_over_def deliver_event_def deliver_timer_def event_ok_def live_at_def sim_node_def Let_def split: if_splits)
  next
    case (PNetwork d)
    let ?sim = "release_network_bytes d (sim\<lparr>sim_events := q\<rparr>)"
    have "case find_link (ne_from d) (ne_to d) ?sim of None \<Rightarrow> False | Some l \<Rightarrow> lf_partitioned (lk_fault l)"
      using none ok PNetwork live [of ?sim]
      by (auto simp: deliver_event_def deliver_network_def event_ok_def Let_def split: if_splits)
    then have "lf_partitioned (lk_fault (get_link (ne_from d) (ne_to d) sim))"
      by (auto simp: release_network_bytes_def find_link_def get_link_def put_link_def Let_def split: option.splits)
    with PNetwork show ?thesis by (simp add: passed_over_def link_fault_def)
  next
    case (PStorage x)
    have "event_ok_in (sim_config sim) (fmlookup (sim_nodes (sim\<lparr>sim_events := q\<rparr>))) e" using ok by simp
    then obtain s p where "sim_node (se_node x) (sim\<lparr>sim_events := q\<rparr>) = Some s" "sn_alive s" "sn_incarnation s = se_incarnation x"
        "fmlookup (sd_pending (sn_storage s)) (se_operation_id x) = Some p"
      by (rule deliver_storage_live [OF _ PStorage])
    from deliver_storage_done [OF this] none PStorage show ?thesis by (simp add: deliver_event_def)
  next
    case (PUser u)
    with ok none live [of "sim\<lparr>sim_events := q\<rparr>"] show ?thesis
      by (simp add: deliver_event_def deliver_user_def event_ok_def)
  qed
qed

lemma release_fault: "link_fault f g (release_network_bytes d sim) = link_fault f g sim"
  by (auto simp: link_fault_def release_network_bytes_def get_link_def find_link_def put_link_def Let_def split: option.split)

lemma link_fault_record [simp]: "link_fault f g (sim_record k n p t i b d sim) = link_fault f g sim"
  by (simp add: link_fault_def)

lemma deliver_none_fault:
  assumes "deliver_event e sim = (None, sim')"
  shows "link_fault f g sim' = link_fault f g sim"
  using assms
  by (auto simp: deliver_event_def deliver_timer_def deliver_network_def deliver_storage_def deliver_user_def Let_def release_fault
      split: EventPayload.splits option.splits if_splits prod.splits)

lemma passed_over_cong:
  "sim_nodes sim' = sim_nodes sim \<Longrightarrow> (\<And>f g. link_fault f g sim' = link_fault f g sim) \<Longrightarrow> passed_over sim' x = passed_over sim x"
  by (simp add: passed_over_def sim_node_def split: EventPayload.split)

lemma sim_skip_passed:
  "sim_skip sim sim' \<Longrightarrow> sim_inv sim \<Longrightarrow> x \<in> set (eq_heap (sim_events sim)) \<Longrightarrow>
   x \<in> set (eq_heap (sim_events sim')) \<or> passed_over sim x"
proof (induction rule: sim_skip.induct)
  case (skip sim e q sim1 sim2)
  have inv: "sim_inv sim1" using deliver_event_inv [OF skip.prems(1) skip.hyps(1)] skip.hyps(2) by simp
  have "link_fault f g (sim\<lparr>sim_events := q\<rparr>) = link_fault f g sim" for f g
    by (simp add: link_fault_def get_link_def find_link_def)
  then have same: "passed_over sim1 x = passed_over sim x"
    using deliver_none_keeps(1) [OF skip.hyps(2)] deliver_none_fault [OF skip.hyps(2)] by (intro passed_over_cong) simp_all
  have "sim_events sim1 = q" using deliver_event_keeps [OF skip.hyps(2)] by simp
  with skip.IH [OF inv] same discarded_event [OF skip.prems(1) skip.hyps(1,2)] skip.prems(2)
    set_heap_pop [OF pop_next_SomeD(3) [OF skip.hyps(1)]] show ?case by auto
qed simp

section \<open>Small runs\<close>

definition demo_writer :: Simulator where
  "demo_writer = fold sim_call [CRegister 1, CWrite 1 [7] 5] (new_simulator default_simulator_config)"

definition demo_cancelled :: Simulator where
  "demo_cancelled = fold sim_call [CRegister 1, CArm 1 TimerElection 3, CCancel 1 TimerElection] (new_simulator default_simulator_config)"

lemma sim_demo_reach: "sim_reach default_simulator_config demo_writer" "sim_reach default_simulator_config demo_cancelled"
  by (simp_all only: demo_writer_def demo_cancelled_def sim_reach_calls)

section \<open>Properties\<close>

text \<open>C34. In every reachable state the byte counters of the network, of each link and of each device equal the bytes that are
  queued or pending, and none of these configured bounds is exceeded: queued bytes in total and per link, events pending and
  scheduled in total, bytes of a file, pending bytes and pending operations of a device, and records of the trace.\<close>

theorem sim_accounting:
  assumes "sim_reach config sim"
  shows "sim_total_network_bytes sim = (\<Sum>e \<in># pending_events_of (sim_events sim). net_size e) \<and>
    sim_total_network_bytes sim \<le> tl_max_total_queued_bytes (sc_transport (sim_config sim)) \<and>
    (\<forall>f g. lk_queued_bytes (get_link f g sim) = (\<Sum>e \<in># pending_events_of (sim_events sim). link_size (f, g) e) \<and>
       lk_queued_bytes (get_link f g sim) \<le> tl_max_queued_bytes_per_link (sc_transport (sim_config sim))) \<and>
    pending_events sim \<le> el_max_pending_events (sc_events (sim_config sim)) \<and>
    eq_total_scheduled (sim_events sim) \<le> el_max_total_events (sc_events (sim_config sim)) \<and>
    length (sim_trace sim) \<le> sc_max_trace_records (sim_config sim) \<and>
    (\<forall>n s. sim_node n sim = Some s \<longrightarrow> pending_storage_bytes n sim = pending_total (sd_pending (sn_storage s)) \<and>
       length (visible_bytes n sim) + pending_storage_bytes n sim \<le> sl_max_file_bytes (sc_storage (sim_config sim)) \<and>
       pending_storage_bytes n sim \<le> sl_max_pending_bytes (sc_storage (sim_config sim)) \<and>
       fcard (fmdom (sd_pending (sn_storage s))) \<le> sl_max_pending_operations (sc_storage (sim_config sim)))"
proof -
  have inv: "sim_inv sim" by (rule sim_reach_inv [OF assms])
  note ok = inv [unfolded sim_inv_def]
  have net: "sim_total_network_bytes sim = (\<Sum>e \<in># pending_events_of (sim_events sim). net_size e)"
      "queued sim = (\<lambda>fg. \<Sum>e \<in># pending_events_of (sim_events sim). link_size fg e)"
    using sim_okD(3) [OF ok] unfolding net_ok_def by blast+
  have link: "lk_queued_bytes (get_link f g sim) = (\<Sum>e \<in># pending_events_of (sim_events sim). link_size (f, g) e) \<and>
      lk_queued_bytes (get_link f g sim) \<le> tl_max_queued_bytes_per_link (sc_transport (sim_config sim))" for f g
    using net(2) net_ok_bounds(2) [OF sim_okD(3) [OF ok], of "(f, g)"] by (simp add: queued_get_link)
  have "pending_events sim \<le> el_max_pending_events (sc_events (sim_config sim))"
      "eq_total_scheduled (sim_events sim) \<le> el_max_total_events (sc_events (sim_config sim))"
    using sim_okD(1,2) [OF ok] by (simp_all add: pending_events_def queue_inv_def word_le_nat_alt)
  moreover have "length (sim_trace sim) \<le> sc_max_trace_records (sim_config sim)"
    using sim_reach_trace [OF assms] by (simp add: trace_ok_def)
  moreover have "pending_storage_bytes n sim = pending_total (sd_pending (sn_storage s)) \<and>
      length (visible_bytes n sim) + pending_storage_bytes n sim \<le> sl_max_file_bytes (sc_storage (sim_config sim)) \<and>
      pending_storage_bytes n sim \<le> sl_max_pending_bytes (sc_storage (sim_config sim)) \<and>
      fcard (fmdom (sd_pending (sn_storage s))) \<le> sl_max_pending_operations (sc_storage (sim_config sim))"
    if "sim_node n sim = Some s" for n s
    using device_okD(1,2,8,9) [OF sim_inv_device [OF inv that]] that by (simp add: pending_storage_bytes_def visible_bytes_def)
  ultimately show ?thesis using net(1) link net_ok_bounds(1) [OF sim_okD(3) [OF ok]] by blast
qed

theorem sim_accounting_witness:
  "sim_reach default_simulator_config demo_writer \<and>
   pending_events demo_writer \<le> el_max_pending_events (sc_events (sim_config demo_writer)) \<and>
   length (sim_trace demo_writer) \<le> sc_max_trace_records (sim_config demo_writer)"
  using sim_accounting [OF sim_demo_reach(1)] sim_demo_reach(1) by blast

text \<open>C35. The event that \<^verbatim>\<open>next\<close> returns is not in the past, becomes the current time, and precedes every event that is
  still queued, by time and then by the order of scheduling; the node it is addressed to is alive in the incarnation the
  event was made for, and a timer event is the one armed last.\<close>

theorem sim_next_order:
  assumes "sim_reach config sim" and "sim_next sim = (Some e, sim')"
  shows "eq_now (sim_events sim) \<le> ev_time e \<and> eq_now (sim_events sim') = ev_time e \<and>
    (\<forall>x \<in> set (eq_heap (sim_events sim')). event_key e < event_key x) \<and>
    (case ev_payload e of
       PTimer t \<Rightarrow> live_in (te_node t) (te_incarnation t) sim \<and>
         (\<exists>s. sim_node (te_node t) sim = Some s \<and> timer_generation (te_kind t) s = te_generation t)
     | PNetwork d \<Rightarrow> live_in (ne_to d) (ne_to_incarnation d) sim
     | PStorage s \<Rightarrow> live_in (se_node s) (se_incarnation s) sim
     | PUser u \<Rightarrow> live_in (ue_node u) (ue_incarnation u) sim)"
proof -
  obtain sim0 e0 q where s: "sim_nodes sim0 = sim_nodes sim" "deliver_event e0 (sim0\<lparr>sim_events := q\<rparr>) = (Some e, sim')"
      "eq_now (sim_events sim) \<le> ev_time e0" "eq_now q = ev_time e0" "sim_events sim' = q" "event_key e = event_key e0"
      "\<And>x. x \<in> set (eq_heap q) \<Longrightarrow> event_key e0 < event_key x" "event_ok_in (sim_config sim) (fmlookup (sim_nodes sim)) e0"
    by (rule sim_next_popped [OF sim_reach_inv [OF assms(1)] assms(2)]) blast
  have same: "sim_node n (sim0\<lparr>sim_events := q\<rparr>) = sim_node n sim" for n using s(1) by (simp add: sim_node_def)
  have live: "live_at (fmlookup (sim_nodes sim)) n inc \<longleftrightarrow> live_in n inc sim" for n inc
    by (auto simp: live_at_def live_in_def sim_node_def split: option.split)
  have "ev_time e = ev_time e0" using s(6) by (simp add: event_key_def)
  moreover have "case ev_payload e of
       PTimer t \<Rightarrow> live_in (te_node t) (te_incarnation t) sim \<and>
         (\<exists>s. sim_node (te_node t) sim = Some s \<and> timer_generation (te_kind t) s = te_generation t)
     | PNetwork d \<Rightarrow> live_in (ne_to d) (ne_to_incarnation d) sim
     | PStorage s \<Rightarrow> live_in (se_node s) (se_incarnation s) sim
     | PUser u \<Rightarrow> live_in (ue_node u) (ue_incarnation u) sim"
    using deliver_event_some [OF s(2)] s(8)
    by (cases "ev_payload e0") (auto simp: event_ok_def live deliver_timer_def same Let_def deliver_storage_def
        split: if_splits prod.splits option.splits)
  ultimately show ?thesis using s(3-7) by simp
qed

theorem sim_next_order_witness:
  "\<exists>e sim'. sim_next demo_writer = (Some e, sim') \<and> eq_now (sim_events sim') = ev_time e \<and> ev_time e = 5"
proof -
  have "map_option ev_time (fst (sim_next demo_writer)) = Some 5" by code_simp
  then obtain e where "fst (sim_next demo_writer) = Some e" "ev_time e = 5" by auto
  then show ?thesis using sim_next_order [OF sim_demo_reach(1), of e] by (metis prod.collapse)
qed

text \<open>C38. The incarnation checks of \<^verbatim>\<open>next\<close> never discard anything: after one call, every event that was queued is still queued,
  is the one returned, or is a timer that was cancelled or armed again or a frame whose link is partitioned.\<close>

theorem sim_discards:
  assumes "sim_reach config sim" and "sim_next sim = (r, sim')" and "x \<in> set (eq_heap (sim_events sim))"
  shows "x \<in> set (eq_heap (sim_events sim')) \<or> (\<exists>e. r = Some e \<and> event_key e = event_key x) \<or>
    (case ev_payload x of
       PTimer t \<Rightarrow> \<exists>s. sim_node (te_node t) sim = Some s \<and> timer_generation (te_kind t) s \<noteq> te_generation t
     | PNetwork d \<Rightarrow> lf_partitioned (link_fault (ne_from d) (ne_to d) sim)
     | _ \<Rightarrow> False)"
proof -
  have inv: "sim_inv sim" by (rule sim_reach_inv [OF assms(1)])
  consider e sim0 e0 q where "r = Some e" "sim_skip sim sim0" "pop_next (sim_events sim0) = Some (e0, q)"
      "deliver_event e0 (sim0\<lparr>sim_events := q\<rparr>) = (Some e, sim')" | "sim_skip sim sim'"
    using sim_next_skips [of sim] assms(2) by auto
  then have "x \<in> set (eq_heap (sim_events sim')) \<or> (\<exists>e. r = Some e \<and> event_key e = event_key x) \<or> passed_over sim x"
  proof cases
    case 1
    have "event_key e = event_key e0"
      using deliver_event_some [OF 1(4)] by (auto simp: event_key_def split: EventPayload.splits)
    moreover have "sim_events sim' = q" using deliver_event_keeps [OF 1(4)] by simp
    ultimately show ?thesis
      using sim_skip_passed [OF 1(2) inv assms(3)] set_heap_pop [OF pop_next_SomeD(3) [OF 1(3)]] 1(1) by auto
  next
    case 2
    then show ?thesis using sim_skip_passed [OF 2 inv assms(3)] by blast
  qed
  then show ?thesis by (simp add: passed_over_def)
qed

theorem sim_discards_witness:
  "\<exists>e t s. eq_heap (sim_events demo_cancelled) = [e] \<and> eq_heap (sim_events (snd (sim_next demo_cancelled))) = [] \<and>
     ev_payload e = PTimer t \<and> sim_node (te_node t) demo_cancelled = Some s \<and> timer_generation (te_kind t) s \<noteq> te_generation t"
proof -
  have facts: "fst (sim_next demo_cancelled) = None" "eq_heap (sim_events (snd (sim_next demo_cancelled))) = []"
    "case eq_heap (sim_events demo_cancelled) of [e] \<Rightarrow> (case ev_payload e of PTimer _ \<Rightarrow> True | _ \<Rightarrow> False) | _ \<Rightarrow> False"
    by code_simp+
  then obtain e where e: "eq_heap (sim_events demo_cancelled) = [e]" "case ev_payload e of PTimer _ \<Rightarrow> True | _ \<Rightarrow> False"
    by (auto split: list.splits)
  have "sim_next demo_cancelled = (None, snd (sim_next demo_cancelled))" using facts(1) by (metis prod.collapse)
  from sim_discards [OF sim_demo_reach(2) this, of e] e facts(2) show ?thesis by (auto split: EventPayload.splits)
qed

text \<open>C36. The operations of a device complete in the order in which they were submitted. A completed write adds its written prefix
  to the end of the file; a completed flush makes the whole file stable, unless it fails, and then nothing changes.\<close>

theorem sim_storage_fifo:
  assumes "sim_reach config sim" and "sim_next sim = (Some e, sim')" and "ev_payload e = PStorage x"
  shows "\<exists>s p. sim_node (se_node x) sim = Some s \<and> fmlookup (sd_pending (sn_storage s)) (se_operation_id x) = Some p \<and>
    (\<forall>j \<in> fset (fmdom (sd_pending (sn_storage s))). se_operation_id x \<le> j) \<and> se_status x = po_completion_status p \<and>
    visible_bytes (se_node x) sim' = visible_bytes (se_node x) sim @
      (if po_kind p = OpWrite then take (po_actual_write_bytes p) (po_bytes p) else []) \<and>
    stable_bytes (se_node x) sim' =
      (if po_kind p = OpFlush \<and> po_completion_status p = StorageSuccess then visible_bytes (se_node x) sim else stable_bytes (se_node x) sim)"
proof -
  obtain sim0 e0 q where s: "sim_inv sim0" "sim_nodes sim0 = sim_nodes sim" "pop_next (sim_events sim0) = Some (e0, q)"
      "deliver_event e0 (sim0\<lparr>sim_events := q\<rparr>) = (Some e, sim')" "event_ok_in (sim_config sim) (fmlookup (sim_nodes sim)) e0"
    by (rule sim_next_popped [OF sim_reach_inv [OF assms(1)] assms(2)]) blast
  obtain x0 where x0: "ev_payload e0 = PStorage x0" "deliver_storage x0 (sim0\<lparr>sim_events := q\<rparr>) = (Some x, sim')"
    using deliver_event_some [OF s(4)] assms(3) by (auto split: EventPayload.splits)
  have "event_ok_in (sim_config sim) (fmlookup (sim_nodes (sim0\<lparr>sim_events := q\<rparr>))) e0" using s(2,5) by simp
  then obtain n p where n: "sim_node (se_node x0) (sim0\<lparr>sim_events := q\<rparr>) = Some n" "sn_alive n" "sn_incarnation n = se_incarnation x0"
      "fmlookup (sd_pending (sn_storage n)) (se_operation_id x0) = Some p" "po_event_sequence p = ev_sequence e0" "po_completion_time p = ev_time e0"
    by (rule deliver_storage_live [OF _ x0(1)])
  note d = deliver_storage_done [OF n(1-4)]
  have x: "se_node x = se_node x0" "se_operation_id x = se_operation_id x0" "se_status x = po_completion_status p" using d x0(2) by auto
  have n0: "sim_node (se_node x) sim0 = Some n" "sim_node (se_node x) sim = Some n" using n(1) s(2) x by (simp_all add: sim_node_def)
  have "se_operation_id x \<le> j" if j: "j \<in> fset (fmdom (sd_pending (sn_storage n)))" for j
  proof (rule ccontr)
    assume "\<not> se_operation_id x \<le> j"
    then have lt: "j < se_operation_id x" by simp
    obtain r where r: "fmlookup (sd_pending (sn_storage n)) j = Some r" using j by (auto simp: fmlookup_dom_iff)
    have "op_key r < op_key p" using device_okD(6) [OF sim_inv_device [OF s(1) n0(1)] r _ lt] n(4) x by simp
    moreover obtain y where y: "y \<in> set (eq_heap (sim_events sim0))" "completes (se_node x) j r y"
      using sim_node_okD(4) [OF sim_inv_nodeD [OF s(1) n0(1)] r] by blast
    then have "event_key y = op_key r" by (simp add: completes_def op_key_def event_key_def)
    with pop_next_least [OF sim_okD(1) [OF s(1) [unfolded sim_inv_def]] s(3) y(1)] have "event_key e0 \<le> op_key r" by simp
    moreover have "event_key e0 = op_key p" using n(5,6) by (simp add: op_key_def event_key_def)
    ultimately show False by (metis not_less)
  qed
  moreover have "sim_node (se_node x) sim' = Some (n\<lparr>sn_storage := completed_device (se_operation_id x0) p (eq_now q) (sn_storage n)\<rparr>)"
    using d x0(2) x by (auto simp: sim_node_def put_storage_def)
  moreover have "po_kind p \<noteq> OpWrite \<longleftrightarrow> po_kind p = OpFlush" by (cases "po_kind p") auto
  ultimately show ?thesis using n(4) n0(2) x
    by (auto simp: visible_bytes_def stable_bytes_def completed_device_def complete_operation_def Let_def)
qed

theorem sim_storage_fifo_witness:
  "\<exists>e sim' x. sim_next demo_writer = (Some e, sim') \<and> ev_payload e = PStorage x \<and> visible_bytes (se_node x) sim' = visible_bytes (se_node x) demo_writer @ [7]"
proof -
  have ev: "map_option (\<lambda>e. case ev_payload e of PStorage x \<Rightarrow> Some (se_node x, se_operation_id x) | _ \<Rightarrow> None) (fst (sim_next demo_writer)) = Some (Some (1, 1))"
    "map_option (\<lambda>s. map_option (\<lambda>p. (po_kind p, po_actual_write_bytes p, po_bytes p)) (fmlookup (sd_pending (sn_storage s)) 1)) (sim_node 1 demo_writer) =
      Some (Some (OpWrite, 1, [7]))"
    by code_simp+
  then obtain e where "fst (sim_next demo_writer) = Some e"
      "(case ev_payload e of PStorage x \<Rightarrow> Some (se_node x, se_operation_id x) | _ \<Rightarrow> None) = Some (1, 1)" by auto
  then obtain x where e: "fst (sim_next demo_writer) = Some e" "ev_payload e = PStorage x" "se_node x = 1" "se_operation_id x = 1"
    by (cases "ev_payload e") auto
  then have nx: "sim_next demo_writer = (Some e, snd (sim_next demo_writer))" by (metis prod.collapse)
  from sim_storage_fifo [OF sim_demo_reach(1) nx e(2)] ev(2) e(3,4)
  have "visible_bytes (se_node x) (snd (sim_next demo_writer)) = visible_bytes (se_node x) demo_writer @ [7]" by auto
  with nx e(2) show ?thesis by blast
qed

text \<open>C37. What a crash leaves on a device is a prefix, not shorter than its stable bytes, of the file followed by the write that was
  in progress; the unstable tail and all pending operations are gone, and no event for the node is left in the queue.
  The devices of other nodes are not touched.\<close>

theorem sim_crash_prefix:
  assumes "sim_reach config sim" and "crash_node n spec sim = (True, sim')"
  shows "\<exists>s k. sim_node n sim = Some s \<and> length (stable_bytes n sim) \<le> k \<and>
    stable_bytes n sim' = take k (visible_bytes n sim @ (case first_pending (sn_storage s) of
        Some p \<Rightarrow> if po_kind p = OpWrite then po_bytes p else [] | None \<Rightarrow> [])) \<and>
    visible_bytes n sim' = stable_bytes n sim' \<and> pending_storage_bytes n sim' = 0 \<and> \<not> is_alive n sim' \<and>
    (\<forall>e \<in> set (eq_heap (sim_events sim')). \<not> cancelled_by_crash False n e) \<and> (\<forall>m. m \<noteq> n \<longrightarrow> sim_node m sim' = sim_node m sim)"
proof -
  obtain s where s: "sim_node n sim = Some s" "sn_alive s"
    using assms(2) by (auto simp: crash_node_def split: option.splits if_splits)
  let ?d = "sn_storage s"
  let ?w = "case first_pending ?d of Some p \<Rightarrow> if po_kind p = OpWrite then po_bytes p else [] | None \<Rightarrow> []"
  let ?P = "cancelled_by_crash (tl_drop_in_flight_on_endpoint_crash (sc_transport (sim_config sim))) n"
  have node: "sim_node m sim' = (if m = n then Some (s\<lparr>sn_storage := crash_device spec (eq_now (sim_events sim)) ?d, sn_alive := False\<rparr>)
      else sim_node m sim)" for m
    using assms(2) s by (auto simp: crash_node_def Let_def split_beta sim_node_def cancel_events_view)
  have heap: "set (eq_heap (sim_events sim')) = {e \<in> set (eq_heap (sim_events sim)). \<not> ?P e}"
    using assms(2) s by (auto simp: crash_node_def Let_def split_beta cancel_events_view)
  have "cancelled_by_crash False n e \<Longrightarrow> ?P e" for e by (auto simp: cancelled_by_crash_def split: EventPayload.splits)
  with heap have gone: "\<forall>e \<in> set (eq_heap (sim_events sim')). \<not> cancelled_by_crash False n e" by auto
  have take: "xs @ take i ys = take (length xs + i) (xs @ ys @ zs)" if "i \<le> length ys" for xs ys zs :: bytes and i
    using that by simp
  obtain k where "length (sd_stable ?d) \<le> k" "snd (snd (crash_survivors spec ?d)) = take k (sd_stable ?d @ sd_unstable ?d @ ?w)"
  proof (cases "min (cs_surviving_unstable_bytes spec) (length (sd_unstable ?d)) = length (sd_unstable ?d)")
    case True
    let ?t = "min (cs_torn_pending_write_bytes spec) (length ?w)"
    have "snd (snd (crash_survivors spec ?d)) = take (length (sd_stable ?d) + length (sd_unstable ?d) + ?t) (sd_stable ?d @ sd_unstable ?d @ ?w)"
      using True by (auto simp: crash_survivors_def Let_def split: option.split)
    then show ?thesis by (rule that [rotated]) simp
  next
    case False
    then have "snd (snd (crash_survivors spec ?d)) = take (length (sd_stable ?d) + cs_surviving_unstable_bytes spec) (sd_stable ?d @ sd_unstable ?d @ ?w)"
      by (auto simp: crash_survivors_def Let_def min_def split: if_splits)
    then show ?thesis by (rule that [rotated]) simp
  qed
  with s node gone show ?thesis
    by (intro exI [of _ s] exI [of _ k])
      (simp add: stable_bytes_def visible_bytes_def pending_storage_bytes_def is_alive_def crash_device_def)
qed

theorem sim_crash_prefix_witness:
  "\<exists>sim' k. crash_node 1 \<lparr>cs_surviving_unstable_bytes = 0, cs_torn_pending_write_bytes = 1\<rparr> demo_writer = (True, sim') \<and>
     length (stable_bytes 1 demo_writer) \<le> k \<and> visible_bytes 1 sim' = stable_bytes 1 sim'"
proof -
  let ?c = "crash_node 1 \<lparr>cs_surviving_unstable_bytes = 0, cs_torn_pending_write_bytes = 1\<rparr> demo_writer"
  have "fst ?c" by code_simp
  then have c: "?c = (True, snd ?c)" by (metis (full_types) prod.collapse)
  from sim_crash_prefix [OF sim_demo_reach(1) c] c show ?thesis by blast
qed

text \<open>C39. The rejection sampling of the generator always returns, whatever its state: the congruential step has full period for the odd
  increments that the constructor sets, so that an accepted value is reached. The number drawn lies within the bounds.\<close>

theorem pcg_sampling_returns:
  assumes "odd (pcg_increment p)"
  shows "\<exists>v q. inclusive minimum maximum p = Some (v, q) \<and> odd (pcg_increment q) \<and> (minimum \<le> maximum \<longrightarrow> minimum \<le> v \<and> v \<le> maximum)"
proof -
  consider "minimum > maximum" | "minimum \<le> maximum" "maximum - minimum = -1" | "minimum \<le> maximum" "maximum - minimum \<noteq> -1"
    by (meson not_less)
  then show ?thesis
  proof cases
    case 2
    have "unat maximum - unat minimum = 18446744073709551615" using arg_cong [OF 2(2), of unat] 2(1) by (simp add: unat_sub)
    then have "unat minimum = 0" "unat maximum = 18446744073709551615" using unat_less_64 [of maximum] by linarith+
    then have "minimum = 0" "maximum = -1" by (simp_all add: word_unat_eq_iff)
    then show ?thesis using assms by (simp add: inclusive_def Let_def next_u64_draws)
  next
    case 3
    let ?b = "maximum - minimum + 1"
    have b: "?b \<noteq> 0" "unat ?b = unat maximum - unat minimum + 1"
      using 3 unat_succ64 [of "maximum - minimum"] by (auto simp: add_eq_0_iff2 unat_sub)
    obtain v m where v: "bounded ?b p = Some (v mod ?b, pcg_draws m p)" using bounded_returns [OF assms b(1)] by blast
    have "unat (v mod ?b) < unat ?b" using b(1) by (simp add: unat_mod_distrib unat_gt_0)
    then have le: "unat minimum + unat (v mod ?b) \<le> unat maximum" using b(2) 3(1) by (simp add: word_le_nat_alt)
    have "unat minimum + unat (v mod ?b) < 18446744073709551616" using le unat_less_64 [of maximum] by linarith
    then have "unat (minimum + v mod ?b) = unat minimum + unat (v mod ?b)" by (intro unat_add_lem [THEN iffD1]) simp
    with le have "minimum \<le> minimum + v mod ?b" "minimum + v mod ?b \<le> maximum" by (simp_all add: word_le_nat_alt)
    with v 3 assms show ?thesis by (auto simp: inclusive_def Let_def not_less)
  qed (use assms in \<open>simp add: inclusive_def\<close>)
qed

theorem pcg_sampling_returns_witness:
  "\<exists>v q. inclusive 150 300 (new_pcg32 42 54) = Some (v, q) \<and> 150 \<le> v \<and> v \<le> 300"
  using pcg_sampling_returns [OF new_pcg32_increment, of 150 300 42 54] by auto

end
