(* ===== verification/SimLiveness.thy ===== *)
theory SimLiveness
  imports SimProperties
begin

text \<open>
  An armed timer fires: whatever else a driver does, if it keeps asking for events and does not crash the node or touch
  the timer, then the timer's event comes out, because the number of events that can come before it is bounded.
\<close>

section \<open>Events that are still to come\<close>

definition queue_rank :: "EventQueue \<Rightarrow> nat" where
  "queue_rank q = unat (el_max_total_events (eq_limits q)) - unat (eq_total_scheduled q) + length (eq_heap q)"

definition queue_grows :: "EventQueue \<Rightarrow> EventQueue \<Rightarrow> bool" where
  "queue_grows q q' \<longleftrightarrow> set (eq_heap q) \<subseteq> set (eq_heap q') \<and> queue_rank q' \<le> queue_rank q"

lemma queue_grows_refl [simp]: "queue_grows q q"
  by (simp add: queue_grows_def)

lemma queue_grows_trans: "queue_grows q q' \<Longrightarrow> queue_grows q' q'' \<Longrightarrow> queue_grows q q''"
  by (auto simp: queue_grows_def)

lemma schedule_at_grows: "schedule_at t payload q = (r, q') \<Longrightarrow> queue_grows q q'"
proof (erule schedule_at_cases)
  fix e
  assume "eq_total_scheduled q < el_max_total_events (eq_limits q)"
    and q': "q' = q\<lparr>eq_next_sequence := (if eq_next_sequence q = -1 then 0 else eq_next_sequence q + 1),
        eq_total_scheduled := eq_total_scheduled q + 1, eq_heap := heap_push event_key e (eq_heap q)\<rparr>"
  then have "unat (eq_total_scheduled q + 1) = Suc (unat (eq_total_scheduled q))"
      "unat (eq_total_scheduled q) < unat (el_max_total_events (eq_limits q))"
    using unat_succ_less by (auto simp: word_less_nat_alt)
  with q' show ?thesis by (auto simp: queue_grows_def queue_rank_def)
qed simp

lemma schedule_after_grows: "schedule_after t payload q = (r, q') \<Longrightarrow> queue_grows q q'"
  by (auto elim!: schedule_after_cases dest: schedule_at_grows)

lemma schedule_copies_grow: "queue_grows q (fold (schedule_copy t d) ks q)"
proof (induction ks arbitrary: q)
  case (Cons k ks)
  have "queue_grows q (schedule_copy t d k q)" unfolding schedule_copy_def by (rule schedule_at_grows) (rule surjective_pairing)
  with Cons show ?case by (auto intro: queue_grows_trans)
qed simp

section \<open>Calls that leave a timer alone\<close>

text \<open>Between two states the timer of \<open>n\<close> is left alone: its queued event, its generation and the node's incarnation stay.\<close>

definition timer_kept :: "NodeId \<Rightarrow> TimerKind \<Rightarrow> Simulator \<Rightarrow> Simulator \<Rightarrow> bool" where
  "timer_kept n kind sim sim' \<longleftrightarrow>
     (\<forall>e t. e \<in> set (eq_heap (sim_events sim)) \<and> ev_payload e = PTimer t \<and> te_node t = n \<longrightarrow> e \<in> set (eq_heap (sim_events sim'))) \<and>
     (\<forall>s. sim_node n sim = Some s \<and> sn_alive s \<longrightarrow> (\<exists>s'. sim_node n sim' = Some s' \<and> sn_alive s' \<and>
        sn_incarnation s' = sn_incarnation s \<and> timer_generation kind s' = timer_generation kind s)) \<and>
     queue_rank (sim_events sim') \<le> queue_rank (sim_events sim)"

fun disturbs :: "NodeId \<Rightarrow> TimerKind \<Rightarrow> SimCall \<Rightarrow> bool" where
  "disturbs n kind (CCrash m _) \<longleftrightarrow> m = n"
| "disturbs n kind (CArm m k _) \<longleftrightarrow> m = n \<and> k = kind"
| "disturbs n kind (CCancel m k) \<longleftrightarrow> m = n \<and> k = kind"
| "disturbs n kind _ \<longleftrightarrow> False"

lemma timer_keptI:
  assumes "queue_grows (sim_events sim) (sim_events sim')"
    and "\<And>s. sim_node n sim = Some s \<Longrightarrow> sn_alive s \<Longrightarrow> \<exists>s'. sim_node n sim' = Some s' \<and> sn_alive s' \<and>
      sn_incarnation s' = sn_incarnation s \<and> timer_generation kind s' = timer_generation kind s"
  shows "timer_kept n kind sim sim'"
  using assms by (auto simp: timer_kept_def queue_grows_def)

lemma timer_kept_refl [simp]: "timer_kept n kind sim sim"
  by (rule timer_keptI) auto

lemma sim_node_views [simp]:
  "sim_node n (sim_record k m p t i b d sim) = sim_node n sim"
  "sim_node n (put_node m s sim) = (if n = m then Some s else sim_node n sim)"
  "sim_node n (put_storage m s dev sim) = (if n = m then Some (s\<lparr>sn_storage := dev\<rparr>) else sim_node n sim)"
  "sim_node n (put_link f g l sim) = sim_node n sim" "sim_node n (put_fault f g h sim) = sim_node n sim"
  "sim_node n (sim\<lparr>sim_events := q\<rparr>) = sim_node n sim"
  by (auto simp: sim_node_def put_storage_def)

lemma generation_storage [simp]: "timer_generation kind (s\<lparr>sn_storage := d\<rparr>) = timer_generation kind s"
  by (simp add: timer_generation_def split: TimerKind.split)

lemma submit_operation_kept:
  assumes "sim_node m sim = Some s"
  shows "timer_kept n kind sim (snd (submit_operation m s p f detail sim))"
proof (rule timer_keptI)
  obtain r q where q: "schedule_at (po_completion_time p) (PStorage \<lparr>se_node = m, se_operation_id = sim_next_storage_id sim,
      se_kind = po_kind p, se_incarnation = sn_incarnation s, se_byte_count = po_actual_write_bytes p, se_status = po_completion_status p\<rparr>)
      (sim_events sim) = (r, q)" by (metis surj_pair)
  then show "queue_grows (sim_events sim) (sim_events (snd (submit_operation m s p f detail sim)))"
    using schedule_at_grows [OF q] by (auto simp: submit_operation_def Let_def split_beta)
  show "\<exists>s'. sim_node n (snd (submit_operation m s p f detail sim)) = Some s' \<and> sn_alive s' \<and> sn_incarnation s' = sn_incarnation s0 \<and>
      timer_generation kind s' = timer_generation kind s0" if "sim_node n sim = Some s0" "sn_alive s0" for s0
    using that assms by (auto simp: submit_operation_def Let_def split_beta) (simp_all add: sim_node_def)
qed

lemma crash_kept: "m \<noteq> n \<Longrightarrow> timer_kept n kind sim (snd (crash_node m spec sim))"
proof (cases "sim_node m sim")
  case (Some s)
  assume mn: "m \<noteq> n"
  show ?thesis
  proof (cases "sn_alive s")
    case True
    let ?P = "cancelled_by_crash (tl_drop_in_flight_on_endpoint_crash (sc_transport (sim_config sim))) m"
    let ?sim = "snd (crash_node m spec sim)"
    have ev: "sim_events ?sim = snd (extract_if ?P (sim_events sim))"
      using True Some by (simp add: crash_node_def Let_def split_beta cancel_events_view)
    have "sim_node n ?sim = sim_node n sim"
      using True Some mn by (simp add: crash_node_def Let_def split_beta sim_node_def cancel_events_view)
    moreover have "length (eq_heap (sim_events ?sim)) \<le> length (eq_heap (sim_events sim))"
      using size_filter_mset_lesseq [of "\<lambda>e. \<not> ?P e" "pending_events_of (sim_events sim)"] extract_if_simps(2) [of ?P "sim_events sim"]
      by (metis ev size_mset)
    moreover have "e \<in> set (eq_heap (sim_events ?sim))" if "e \<in> set (eq_heap (sim_events sim))" "ev_payload e = PTimer t" "te_node t = n" for e t
      using that mn by (simp add: ev cancelled_by_crash_def)
    ultimately show ?thesis by (auto simp: timer_kept_def ev queue_rank_def)
  qed (simp add: crash_node_def Some)
qed (simp add: crash_node_def)

lemma inject_fault_kept: "timer_kept n kind sim (snd (inject_fault m f b detail sim))"
  by (auto simp: inject_fault_def split: option.split intro!: timer_keptI)

lemma arm_kept:
  assumes "\<not> (m = n \<and> k = kind)"
  shows "timer_kept n kind sim (snd (arm_timer m k delay sim))"
proof (rule timer_keptI)
  show "queue_grows (sim_events sim) (sim_events (snd (arm_timer m k delay sim)))"
    using schedule_after_grows [OF surjective_pairing] by (auto simp: arm_timer_def Let_def split_beta split: option.split)
  show "\<exists>s'. sim_node n (snd (arm_timer m k delay sim)) = Some s' \<and> sn_alive s' \<and> sn_incarnation s' = sn_incarnation s \<and>
      timer_generation kind s' = timer_generation kind s" if "sim_node n sim = Some s" "sn_alive s" for s
    using that assms by (auto simp: arm_timer_def Let_def split_beta split: option.split)
qed

lemma sim_call_kept:
  assumes "\<not> disturbs n kind c" and "c \<noteq> CNext"
  shows "timer_kept n kind sim (sim_call c sim)"
proof (cases c)
  case (CSend f g bs t)
  have "sim_nodes (snd (sim_send f g bs t sim)) = sim_nodes sim"
    by (auto simp: sim_send_def enqueue_frame_def Let_def split: option.split)
  moreover have "queue_grows (sim_events sim) (sim_events (snd (sim_send f g bs t sim)))"
    by (auto simp: sim_send_def enqueue_frame_def Let_def schedule_copies_grow split: option.split simp del: upt_Suc)
  ultimately show ?thesis using CSend by (auto simp: sim_node_def intro!: timer_keptI)
next
  case (CWrite m bs t)
  then show ?thesis by (auto simp: submit_write_def Let_def split_beta intro!: submit_operation_kept split: option.split)
      (auto intro!: timer_keptI)
next
  case (CFlush m t)
  then show ?thesis by (auto simp: submit_flush_def Let_def intro!: submit_operation_kept split: option.split)
      (auto intro!: timer_keptI)
next
  case (CUser m tag bs t)
  then show ?thesis using schedule_after_grows [OF surjective_pairing]
    by (auto simp: schedule_user_def Let_def split_beta split: option.split intro!: timer_keptI)
qed (use assms in \<open>auto simp: crash_kept arm_kept inject_fault_kept fail_next_write_def short_write_next_def fail_next_flush_def
      register_node_def restart_node_def cancel_timer_def set_partition_def set_link_delay_def drop_next_def duplicate_next_def
      initialize_storage_def truncate_stable_storage_def Let_def split: option.split intro!: timer_keptI\<close>)

section \<open>The timer in the queue\<close>

definition timer_pending :: "TimerEvent \<Rightarrow> ScheduledEvent \<Rightarrow> Simulator \<Rightarrow> bool" where
  "timer_pending t e sim \<longleftrightarrow> e \<in> set (eq_heap (sim_events sim)) \<and> ev_payload e = PTimer t \<and>
     (\<exists>s. sim_node (te_node t) sim = Some s \<and> sn_alive s \<and> sn_incarnation s = te_incarnation t \<and>
        timer_generation (te_kind t) s = te_generation t)"

lemma timer_pending_kept:
  "timer_pending t e sim \<Longrightarrow> timer_kept (te_node t) (te_kind t) sim sim' \<Longrightarrow> timer_pending t e sim'"
  by (fastforce simp: timer_pending_def timer_kept_def)

lemma deliver_event_node:
  assumes "sim_node n sim = Some s"
  shows "\<exists>s'. sim_node n (snd (deliver_event e sim)) = Some s' \<and> sn_alive s' = sn_alive s \<and> sn_incarnation s' = sn_incarnation s \<and>
    timer_generation kind s' = timer_generation kind s"
  using assms
  by (auto simp: deliver_event_def deliver_timer_def deliver_network_def deliver_storage_def deliver_user_def Let_def split_beta
      split: EventPayload.split option.split) (simp_all add: sim_node_def)

lemma deliver_pending:
  assumes t: "timer_pending t e sim" and pop: "pop_next (sim_events sim) = Some (x, q)" and d: "deliver_event x (sim\<lparr>sim_events := q\<rparr>) = (r, sim')"
  shows "r = Some e \<or> timer_pending t e sim' \<and> queue_rank (sim_events sim') < queue_rank (sim_events sim)"
proof (cases "x = e")
  case True
  then have "fst (deliver_event x (sim\<lparr>sim_events := q\<rparr>)) = Some e"
    using t by (auto simp: timer_pending_def deliver_event_def deliver_timer_def Let_def)
  with d show ?thesis by simp
next
  case False
  note p = pop_next_SomeD [OF pop]
  have q: "sim_events sim' = q" using deliver_event_keeps [OF d] by simp
  obtain s where s: "sim_node (te_node t) sim = Some s" "sn_alive s" "sn_incarnation s = te_incarnation t"
      "timer_generation (te_kind t) s = te_generation t" and e: "e \<in> set (eq_heap (sim_events sim))" "ev_payload e = PTimer t"
    using t by (auto simp: timer_pending_def)
  have "sim_node (te_node t) (sim\<lparr>sim_events := q\<rparr>) = Some s" using s by simp
  from deliver_event_node [OF this, of x "te_kind t"] d s have "\<exists>s'. sim_node (te_node t) sim' = Some s' \<and> sn_alive s' \<and>
      sn_incarnation s' = te_incarnation t \<and> timer_generation (te_kind t) s' = te_generation t" by auto
  moreover have "e \<in> set (eq_heap q)" using e(1) set_heap_pop [OF p(3)] False by auto
  moreover have "queue_rank q < queue_rank (sim_events sim)"
    using arg_cong [OF p(3), of size] by (subst p(2)) (simp add: queue_rank_def)
  ultimately show ?thesis using e(2) q by (simp add: timer_pending_def)
qed

lemma sim_next_pending:
  "timer_pending t e sim \<Longrightarrow> sim_next sim = (r, sim') \<Longrightarrow>
   r = Some e \<or> timer_pending t e sim' \<and> queue_rank (sim_events sim') < queue_rank (sim_events sim)"
proof (induction sim rule: sim_next.induct)
  case (1 sim)
  obtain x q where pop: "pop_next (sim_events sim) = Some (x, q)"
    using 1(2) pop_next_None [of "sim_events sim"] by (cases "pop_next (sim_events sim)") (auto simp: timer_pending_def)
  obtain d sim1 where d: "deliver_event x (sim\<lparr>sim_events := q\<rparr>) = (d, sim1)" by (cases "deliver_event x (sim\<lparr>sim_events := q\<rparr>)")
  note del = deliver_pending [OF 1(2) pop d]
  show ?case
  proof (cases d)
    case None
    then have "sim_next sim = sim_next sim1" using pop d by (subst sim_next.simps) simp
    with 1(1) [OF pop refl d [unfolded None, symmetric] refl] 1(3) del None show ?thesis by auto
  next
    case (Some e')
    then have "sim_next sim = (d, sim1)" using pop d by (subst sim_next.simps) simp
    with 1(3) del show ?thesis by simp
  qed
qed

text \<open>The events that the \<^verbatim>\<open>next\<close> calls of a sequence of calls return.\<close>

fun next_events :: "SimCall list \<Rightarrow> Simulator \<Rightarrow> ScheduledEvent list" where
  "next_events [] sim = []"
| "next_events (c # cs) sim =
     (if c = CNext then (case fst (sim_next sim) of None \<Rightarrow> [] | Some e \<Rightarrow> [e]) else []) @ next_events cs (sim_call c sim)"

lemma timer_comes:
  assumes "\<forall>c \<in> set cs. \<not> disturbs (te_node t) (te_kind t) c" "queue_rank (sim_events sim) < length (filter (\<lambda>c. c = CNext) cs)"
    "timer_pending t e sim"
  shows "e \<in> set (next_events cs sim)"
  using assms
proof (induction cs arbitrary: sim)
  case (Cons c cs)
  show ?case
  proof (cases "c = CNext")
    case True
    obtain r sim' where n: "sim_next sim = (r, sim')" by (cases "sim_next sim")
    with sim_next_pending [OF Cons.prems(3) n] Cons True show ?thesis by (auto split: option.split)
  next
    case False
    then have k: "timer_kept (te_node t) (te_kind t) sim (sim_call c sim)" using sim_call_kept Cons.prems(1) by simp
    then have "queue_rank (sim_events (sim_call c sim)) \<le> queue_rank (sim_events sim)" by (simp add: timer_kept_def)
    with Cons timer_pending_kept [OF Cons.prems(3) k] False show ?thesis by simp
  qed
qed simp

lemma queue_rank_le:
  assumes "queue_inv q"
  shows "queue_rank q \<le> unat (el_max_total_events (eq_limits q))"
proof -
  let ?s = "map (unat \<circ> ev_sequence) (eq_heap q)"
  have "distinct ?s" using assms by (auto simp: queue_inv_def distinct_map inj_on_def word_unat_eq_iff)
  moreover have "set ?s \<subseteq> {1..unat (eq_total_scheduled q)}"
    using assms unfolding queue_inv_def by (auto simp: Suc_le_eq)
  ultimately have "length (eq_heap q) \<le> unat (eq_total_scheduled q)"
    using card_mono [of "{1..unat (eq_total_scheduled q)}" "set ?s"] by (simp add: distinct_card del: map_map set_map)
  moreover have "unat (eq_total_scheduled q) \<le> unat (el_max_total_events (eq_limits q))" using assms by (simp add: queue_inv_def)
  ultimately show ?thesis by (simp add: queue_rank_def)
qed

definition demo_small :: SimulatorConfig where
  "demo_small = default_simulator_config\<lparr>sc_events := \<lparr>el_max_pending_events = 4, el_max_total_events = 2\<rparr>\<rparr>"

definition demo_single :: Simulator where
  "demo_single = fold sim_call [CRegister 1] (new_simulator demo_small)"

section \<open>Properties\<close>

text \<open>C33. An armed timer fires: if its node is not crashed and the timer is not armed again or cancelled, then whatever other calls are
  made, one of the first \<open>max_total_events + 1\<close> calls of \<^verbatim>\<open>next\<close> returns its event.\<close>

theorem sim_timer_fires:
  assumes "sim_reach config sim" and "arm_timer n kind delay sim = (Some token, sim')"
    and "\<forall>c \<in> set cs. \<not> disturbs n kind c"
    and "unat (el_max_total_events (sc_events (sim_config sim'))) < length (filter (\<lambda>c. c = CNext) cs)"
  shows "\<exists>e \<in> set (next_events cs sim'). ev_sequence e = tk_event_sequence token \<and>
    ev_payload e = PTimer \<lparr>te_node = n, te_kind = kind, te_generation = tk_generation token, te_incarnation = tk_incarnation token\<rparr>"
proof -
  obtain s where s: "sim_node n sim = Some s" "sn_alive s"
    using assms(2) by (auto simp: arm_timer_def split: option.splits if_splits)
  let ?t = "\<lparr>te_node = n, te_kind = kind, te_generation = advance_generation (timer_generation kind s), te_incarnation = sn_incarnation s\<rparr>"
  obtain q where q: "schedule_after delay (PTimer ?t) (sim_events sim) = ((Scheduled, tk_event_sequence token), q)"
      "token = \<lparr>tk_node = n, tk_kind = kind, tk_generation = te_generation ?t, tk_incarnation = sn_incarnation s, tk_event_sequence = tk_event_sequence token\<rparr>"
      "sim_events sim' = q" "sim_node n sim' = Some (set_timer_generation kind (te_generation ?t) s)"
    using assms(2) s by (auto simp: arm_timer_def Let_def split: prod.splits if_splits)
  define e where "e = \<lparr>ev_time = eq_now (sim_events sim) + delay, ev_sequence = tk_event_sequence token, ev_payload = PTimer ?t\<rparr>"
  have "e \<in> set (eq_heap q)"
    using schedule_after_sched [OF q(1)] by (cases rule: schedule_at_cases) (auto simp: e_def)
  then have "timer_pending ?t e sim'" using s q(3,4) by (simp add: timer_pending_def e_def)
  moreover have "sim_inv sim'" using arm_timer_inv [OF sim_reach_inv [OF assms(1)], of n kind delay] assms(2) by simp
  then have "queue_rank (sim_events sim') < length (filter (\<lambda>c. c = CNext) cs)"
    using queue_rank_le [of "sim_events sim'"] sim_okD(1,2) assms(4) by (fastforce simp: sim_inv_def)
  ultimately have "e \<in> set (next_events cs sim')" using assms(3) by (intro timer_comes) simp_all
  moreover have "tk_generation token = te_generation ?t" "tk_incarnation token = sn_incarnation s"
    using arg_cong [OF q(2), of tk_generation] arg_cong [OF q(2), of tk_incarnation] by simp_all
  ultimately show ?thesis by (intro bexI [of _ e]) (simp_all add: e_def)
qed

theorem sim_timer_fires_witness:
  "\<exists>token sim'. arm_timer 1 TimerElection 3 demo_single = (Some token, sim') \<and>
     (\<exists>e \<in> set (next_events [CNext, CRegister 2, CNext, CNext] sim'). ev_sequence e = tk_event_sequence token)"
proof -
  let ?a = "arm_timer 1 TimerElection 3 demo_single"
  have ev: "fst ?a \<noteq> None" "unat (el_max_total_events (sc_events (sim_config (snd ?a)))) = 2" by code_simp+
  then obtain token where a: "?a = (Some token, snd ?a)" by (metis not_None_eq prod.collapse)
  have "sim_reach demo_small demo_single" by (simp only: demo_single_def sim_reach_calls)
  from sim_timer_fires [OF this a, of "[CNext, CRegister 2, CNext, CNext]"] ev(2) a show ?thesis by auto
qed

end
