(* ===== verification/SimTrace.thy ===== *)
theory SimTrace
  imports Simulator
begin

text \<open>
  The rendering of a simulator trace as text, one JSON object per line: \<^verbatim>\<open>render_jsonl\<close> of
  \<^verbatim>\<open>src/simulator.cpp\<close>. Runs are compared by this text, so that it must determine the trace.
\<close>

section \<open>Rendering\<close>

definition trace_kind_name :: "SimTraceKind \<Rightarrow> string" where
  "trace_kind_name kind =
     (case kind of
        node_registered \<Rightarrow> ''node_registered'' | node_crashed \<Rightarrow> ''node_crashed'' | node_restarted \<Rightarrow> ''node_restarted''
      | timer_armed \<Rightarrow> ''timer_armed'' | timer_cancelled \<Rightarrow> ''timer_cancelled'' | timer_fired \<Rightarrow> ''timer_fired''
      | stale_event \<Rightarrow> ''stale_event'' | link_fault_set \<Rightarrow> ''link_fault'' | network_queued \<Rightarrow> ''network_queued''
      | network_dropped \<Rightarrow> ''network_dropped'' | network_saturated \<Rightarrow> ''network_saturated'' | network_delivered \<Rightarrow> ''network_delivered''
      | storage_queued \<Rightarrow> ''storage_queued'' | storage_completed \<Rightarrow> ''storage_completed'' | storage_crashed \<Rightarrow> ''storage_crashed''
      | storage_initialized \<Rightarrow> ''storage_initialized'' | storage_repaired \<Rightarrow> ''storage_repaired'' | storage_fault \<Rightarrow> ''storage_fault''
      | storage_saturated \<Rightarrow> ''storage_saturated'' | user_scheduled \<Rightarrow> ''user_scheduled'' | user_delivered \<Rightarrow> ''user_delivered'')"

definition hex_digit :: "nat \<Rightarrow> char" where
  "hex_digit n = ''0123456789abcdef'' ! n"

definition json_escape :: "char \<Rightarrow> string" where
  "json_escape c =
     (if c = CHR 0x22 then [CHR 0x5C, CHR 0x22]
      else if c = CHR 0x5C then [CHR 0x5C, CHR 0x5C]
      else if c = CHR 0x08 then [CHR 0x5C, CHR ''b'']
      else if c = CHR 0x0C then [CHR 0x5C, CHR ''f'']
      else if c = CHR 0x0A then [CHR 0x5C, CHR ''n'']
      else if c = CHR 0x0D then [CHR 0x5C, CHR ''r'']
      else if c = CHR 0x09 then [CHR 0x5C, CHR ''t'']
      else if (of_char c :: nat) < 0x20
      then CHR 0x5C # ''u00'' @ [hex_digit (of_char c div 16), hex_digit (of_char c mod 16)]
      else [c])"

definition append_json_string :: "string \<Rightarrow> string" where
  "append_json_string s = [CHR 0x22] @ concat (map json_escape s) @ [CHR 0x22]"

definition json_key :: "string \<Rightarrow> string" where
  "json_key name = [CHR 0x22] @ name @ [CHR 0x22, CHR '':'']"

definition render_record :: "SimTraceRecord \<Rightarrow> string" where
  "render_record r =
     [CHR 0x7B] @ json_key ''time'' @ decimal (unat (tr_time r)) @
     '','' @ json_key ''sequence'' @ decimal (unat (tr_sequence r)) @
     '','' @ json_key ''kind'' @ append_json_string (trace_kind_name (tr_kind r)) @
     '','' @ json_key ''node'' @ decimal (unat (tr_node r)) @
     '','' @ json_key ''peer'' @ decimal (unat (tr_peer r)) @
     '','' @ json_key ''token'' @ decimal (unat (tr_token r)) @
     '','' @ json_key ''incarnation'' @ decimal (unat (tr_incarnation r)) @
     '','' @ json_key ''bytes'' @ decimal (tr_bytes r) @
     '','' @ json_key ''detail'' @ append_json_string (tr_detail r) @ [CHR 0x7D, CHR 0x0A]"

definition render_jsonl :: "SimTraceRecord list \<Rightarrow> bool \<Rightarrow> string" where
  "render_jsonl records truncated =
     concat (map render_record records) @
     (if truncated then [CHR 0x7B] @ json_key ''trace_truncated'' @ ''true'' @ [CHR 0x7D, CHR 0x0A] else [])"

definition trace_jsonl :: "Simulator \<Rightarrow> string" where
  "trace_jsonl sim = render_jsonl (sim_trace sim) (sim_trace_truncated sim)"

section \<open>Reading it back\<close>

definition hex_value :: "char \<Rightarrow> nat" where
  "hex_value c = (if of_char c < (58 :: nat) then of_char c - 48 else of_char c - 87)"

lemma hex_value_digit: "n < 16 \<Longrightarrow> hex_value (hex_digit n) = n"
proof -
  have "\<forall>n \<in> set [0..<16]. hex_value (hex_digit n) = n" by code_simp
  then show "n < 16 \<Longrightarrow> hex_value (hex_digit n) = n" by simp
qed

text \<open>The first character of an escaped text and the rest.\<close>

fun json_unescape :: "string \<Rightarrow> (char \<times> string) option" where
  "json_unescape [] = None"
| "json_unescape (c # cs) =
     (if c \<noteq> CHR 0x5C then Some (c, cs)
      else case cs of
        [] \<Rightarrow> None
      | d # ds \<Rightarrow>
          if d = CHR ''b'' then Some (CHR 0x08, ds) else if d = CHR ''f'' then Some (CHR 0x0C, ds)
          else if d = CHR ''n'' then Some (CHR 0x0A, ds) else if d = CHR ''r'' then Some (CHR 0x0D, ds)
          else if d = CHR ''t'' then Some (CHR 0x09, ds)
          else if d = CHR ''u'' then Some (char_of (hex_value (ds ! 2) * 16 + hex_value (ds ! 3)), drop 4 ds)
          else Some (d, ds))"

lemma json_unescape_escape: "json_unescape (json_escape c @ xs) = Some (c, xs)"
proof (cases "(of_char c :: nat) < 32")
  case True
  then have "of_char c div 16 < (16 :: nat)" "of_char c mod 16 < (16 :: nat)" by auto
  then have "char_of (hex_value (hex_digit (of_char c div 16)) * 16 + hex_value (hex_digit (of_char c mod 16))) = c"
    by (simp add: hex_value_digit)
  then show ?thesis by (simp add: json_escape_def)
qed (auto simp: json_escape_def)

lemma json_escape_head: "json_escape c \<noteq> []" "hd (json_escape c @ xs) \<noteq> CHR 0x22"
  by (auto simp: json_escape_def)

lemma json_body_split:
  "concat (map json_escape s) @ CHR 0x22 # xs = concat (map json_escape t) @ CHR 0x22 # ys \<Longrightarrow> s = t \<and> xs = ys"
proof (induction s arbitrary: t)
  case Nil
  show ?case
  proof (cases t)
    case (Cons d t')
    with Nil json_escape_head(2) [of d "concat (map json_escape t') @ CHR 0x22 # ys"] show ?thesis by (metis append.assoc append_Nil concat.simps(1) concat.simps(2) list.map(1) list.map(2) list.sel(1))
  qed (use Nil in simp)
next
  case (Cons c s)
  show ?case
  proof (cases t)
    case Nil
    with Cons.prems json_escape_head(2) [of c "concat (map json_escape s) @ CHR 0x22 # xs"] show ?thesis
      by (metis append.assoc append_Nil concat.simps(1) concat.simps(2) list.map(1) list.map(2) list.sel(1))
  next
    case (Cons d t')
    have "json_unescape (json_escape c @ (concat (map json_escape s) @ CHR 0x22 # xs)) =
        json_unescape (json_escape d @ (concat (map json_escape t') @ CHR 0x22 # ys))" using Cons.prems Cons by simp
    then show ?thesis using Cons.IH [of t'] Cons by (simp add: json_unescape_escape)
  qed
qed

lemma json_string_split:
  "append_json_string s @ xs = append_json_string t @ ys \<Longrightarrow> s = t \<and> xs = ys"
  using json_body_split [of s xs t ys] by (simp add: append_json_string_def)

lemma trace_kind_name_inj: "trace_kind_name k = trace_kind_name k' \<Longrightarrow> k = k'"
  by (cases k; cases k'; simp add: trace_kind_name_def)

text \<open>A number field and what follows it.\<close>

lemma field_split:
  assumes "decimal m @ '','' @ xs = decimal n @ '','' @ ys"
  shows "m = n \<and> xs = ys"
  using decimal_split [of m "CHR '',''" xs n "CHR '',''" ys] assms by (simp add: is_digit_def)

lemma render_record_split:
  assumes "render_record r @ xs = render_record s @ ys"
  shows "r = s \<and> xs = ys"
proof -
  note step = assms [unfolded render_record_def append_assoc same_append_eq]
  have t: "unat (tr_time r) = unat (tr_time s)" using field_split [OF step] by blast
  note step = field_split [OF step, THEN conjunct2, unfolded same_append_eq]
  have q: "unat (tr_sequence r) = unat (tr_sequence s)" using field_split [OF step] by blast
  note step = json_string_split [OF field_split [OF step, THEN conjunct2, unfolded same_append_eq]]
  have k: "tr_kind r = tr_kind s" using step trace_kind_name_inj by blast
  note step = step [THEN conjunct2, unfolded same_append_eq]
  have n: "unat (tr_node r) = unat (tr_node s)" using field_split [OF step] by blast
  note step = field_split [OF step, THEN conjunct2, unfolded same_append_eq]
  have p: "unat (tr_peer r) = unat (tr_peer s)" using field_split [OF step] by blast
  note step = field_split [OF step, THEN conjunct2, unfolded same_append_eq]
  have k': "unat (tr_token r) = unat (tr_token s)" using field_split [OF step] by blast
  note step = field_split [OF step, THEN conjunct2, unfolded same_append_eq]
  have i: "unat (tr_incarnation r) = unat (tr_incarnation s)" using field_split [OF step] by blast
  note step = field_split [OF step, THEN conjunct2, unfolded same_append_eq]
  have b: "tr_bytes r = tr_bytes s" using field_split [OF step] by blast
  note step = json_string_split [OF field_split [OF step, THEN conjunct2, unfolded same_append_eq]]
  from t q k n p k' i b step show ?thesis by (auto intro!: SimTraceRecord.equality simp: word_unat_eq_iff)
qed

lemma render_record_head: "take 4 (render_record r @ xs) = [CHR 0x7B, CHR 0x22, CHR ''t'', CHR ''i'']"
  by (simp add: render_record_def json_key_def)

lemma render_tail_head:
  "take 4 (render_jsonl [] b) \<noteq> [CHR 0x7B, CHR 0x22, CHR ''t'', CHR ''i'']"
  by (simp add: render_jsonl_def json_key_def)

text \<open>C40. The text of a trace determines the trace: two simulators whose traces render to the same text recorded the same events, in
  the same order, and agree on whether the trace was cut off.\<close>

theorem trace_text_faithful:
  "trace_jsonl sim = trace_jsonl sim' \<longleftrightarrow> sim_trace sim = sim_trace sim' \<and> sim_trace_truncated sim = sim_trace_truncated sim'"
proof -
  have "render_jsonl rs b = render_jsonl ss b' \<Longrightarrow> rs = ss \<and> b = b'" for rs ss b b'
  proof (induction rs arbitrary: ss)
    case Nil
    show ?case
    proof (cases ss)
      case Nil
      with \<open>render_jsonl [] b = render_jsonl ss b'\<close> show ?thesis by (auto simp: render_jsonl_def split: if_splits)
    next
      case (Cons s ss')
      then have "render_jsonl ss b' = render_record s @ render_jsonl ss' b'" by (simp add: render_jsonl_def)
      then have "take 4 (render_jsonl [] b) = [CHR 0x7B, CHR 0x22, CHR ''t'', CHR ''i'']"
        using Nil render_record_head [of s "render_jsonl ss' b'"] by simp
      with render_tail_head show ?thesis by blast
    qed
  next
    case (Cons r rs)
    have r: "render_jsonl (r # rs) b = render_record r @ render_jsonl rs b" by (simp add: render_jsonl_def)
    show ?case
    proof (cases ss)
      case Nil
      then have "take 4 (render_jsonl [] b') = [CHR 0x7B, CHR 0x22, CHR ''t'', CHR ''i'']"
        using Cons.prems r render_record_head [of r "render_jsonl rs b"] by simp
      with render_tail_head show ?thesis by blast
    next
      case (Cons s ss')
      then have "render_jsonl ss b' = render_record s @ render_jsonl ss' b'" by (simp add: render_jsonl_def)
      with Cons.prems r render_record_split [of r "render_jsonl rs b" s "render_jsonl ss' b'"] Cons.IH [of ss'] Cons show ?thesis by simp
    qed
  qed
  then show ?thesis by (auto simp: trace_jsonl_def)
qed

end
