(* ===== verification/Spec2Isabelle.thy ===== *)
theory Spec2Isabelle
  imports ReferenceSafety CodecRoundTrip RaftProperties WalProperties WalDurable SimLiveness SimTrace
begin

text \<open>
  DetLog is a replicated key/value log: a Raft node written as a pure transition engine, a session-based key/value
  state machine, a checksummed write-ahead log, a wire codec, a deterministic simulator that drives nodes under
  faults, and a serial reference model the tests compare runs with. This development models these parts and proves
  what they promise each other. Every theory opens with a note of its own; file names are relative to
  \<^verbatim>\<open>src/\<close>.

  \<^bold>\<open>Parts and theories\<close>

  \<^item> \<^emph>\<open>Data model\<close>, \<^verbatim>\<open>include/detlog/model.hpp\<close>: \<open>Model\<close>, on top of \<open>Prelude\<close>
    (words, results, byte lists, decimal numerals). Structs are records, enums and variants are datatypes, integers
    keep their width, \<^verbatim>\<open>std::map\<close> is a finite map, a thrown or returned error is the left side of a sum.
  \<^item> \<^emph>\<open>State machine\<close>, \<^verbatim>\<open>src/state_machine.cpp\<close>: \<open>KvStateMachine\<close>. \<open>kv_apply\<close> is
    \<^verbatim>\<open>KvStateMachine::apply\<close>, \<open>command_digest\<close> its FNV-1a digest. The locale \<open>session_machine\<close>
    (\<open>SessionMachine\<close>) states the contract it shares with the machine inside the reference model and proves
    exactly-once execution from it; the locale \<open>byte_hash\<close> (\<open>ByteHash\<close>) states what the digest and the
    CRC-32C of the log have in common.
  \<^item> \<^emph>\<open>Reference model\<close>, \<^verbatim>\<open>src/reference_model.cpp\<close>: \<open>ReferenceModel\<close>, one definition per action
    of \<^verbatim>\<open>reference::Model\<close>. \<open>Quorum\<close>, \<open>AbstractRaft\<close> and \<open>AbstractRaftSafety\<close> hold the abstract
    protocol and its safety proof; \<open>ReferenceSimulation\<close> and \<open>ReferenceSafety\<close> show that the model takes
    only abstract steps, its commits included when their certificates are current; \<open>ReferenceReplay\<close> compares its
    machine with \<open>kv_apply\<close>.
  \<^item> \<^emph>\<open>Wire codec\<close>, \<^verbatim>\<open>src/codec.cpp\<close>: \<open>Codec\<close> (writer, reader, frames and the six public
    functions, with error and offset of every rejection), \<open>CodecLaws\<close> (the locale \<open>wire_field\<close>, interpreted for
    every field and message), \<open>CodecRoundTrip\<close>.
  \<^item> \<^emph>\<open>Raft node\<close>, \<^verbatim>\<open>src/raft.cpp\<close>: \<open>RaftState\<close> and \<open>RaftNode\<close>, one definition per member
    function of \<^verbatim>\<open>RaftNode\<close>, effects in the order of the source; \<open>RaftLocal\<close> (elementary transitions),
    \<open>RaftInvariant\<close>, \<open>RaftHandlers\<close> (each handler is a sequence of transitions), \<open>RaftProperties\<close>.
  \<^item> \<^emph>\<open>Write-ahead log\<close>, \<^verbatim>\<open>src/wal.cpp\<close>: \<open>Wal\<close> (byte format, validation view, encoder, recovery
    scan), \<open>WalLaws\<close> (images and the locale \<open>byte_format\<close>), \<open>WalView\<close> (what staging a batch means),
    \<open>WalScan\<close>, \<open>WalImage\<close>, \<open>WalProperties\<close>; \<open>WalFile\<close> (the classes \<^verbatim>\<open>Wal\<close> and
    \<^verbatim>\<open>NativeFile\<close> over a record of system calls), \<open>WalDisk\<close> (what is assumed of the calls, and the loops
    under it), \<open>WalDurable\<close> (the invariant of an open log; a file in memory that satisfies the assumptions).
  \<^item> \<^emph>\<open>Simulator\<close>, \<^verbatim>\<open>src/simulator.cpp\<close>: \<open>Pcg\<close> (random numbers), \<open>BinaryHeap\<close> and
    \<open>EventQueue\<close> (the locale \<open>min_queue\<close> and its interpretation on the heap), \<open>Simulator\<close> (every operation of
    the class), \<open>SimInvariant\<close> and \<open>SimReach\<close> (the invariant in all reachable states), \<open>SimProperties\<close>,
    \<open>SimLiveness\<close>, \<open>SimTrace\<close> (the JSON lines of a trace).

  How the parts meet: a Raft node applies committed entries with \<open>kv_apply\<close> and asks for persistence of a
  \<open>PersistBatch\<close>, which is what the log stages, encodes and recovers; its messages are what the codec frames; the
  simulator carries the frames, timers and device operations; the reference model is the specification that whole
  runs are held against.

  \<^bold>\<open>What is shown\<close>

  \<^item> Reference model: after any actions logs match and a term has one leader. After actions whose commit certificates
    name no acknowledger that has seen a later term (\<open>certificates_current\<close>; \<^verbatim>\<open>Model::commit\<close> does not check it)
    committed prefixes agree, leaders are complete and no replication threatens a committed entry; a history
    without that proviso diverges (\<open>reference_stale_ack_diverges\<close>). Refused actions change nothing. Its machine computes
    what the production machine computes, as long as the digests of the committed requests separate different requests
    with one identity.
  \<^item> State machine: exactly-once execution per session, answers of retries and of altered retries, reads.
  \<^item> Codec: encoding and decoding are inverse in both directions, truncation is reported, sizes are known in advance.
  \<^item> Raft node: for any sequence of events the committed entries never change, votes and terms move forward only, each
    message is backed by durable state, a leader's commit record has the acknowledgements of a majority among the
    messages received, the machine is the replay of the log, no internal exception is raised, queues stay bounded,
    every step settles. An entry too large for the message budget can be stored (\<open>raft_oversized_entry\<close>), but neither
    sent nor recovered.
  \<^item> Log: the scan accepts exactly what the encoder writes, recovers all whole frames of any cut, rejects every change
    of one byte; recovered logs are well formed; staging refines the plain effect of a batch. Over a file whose calls
    may fail, be interrupted and move part of the bytes: opening and appending return, the file holds exactly the
    reported frames, acknowledged frames are on stable storage, and an I/O error stops the log. Opening counts the
    frames it reads as durable without a flush.
  \<^item> Simulator: exact byte accounting within the configured bounds, order of events, storage order, crash semantics, which events are dropped, timers
    that fire, sampling that returns, and a trace text that determines the trace.

  \<^bold>\<open>Bounds and termination\<close>

  No fuel is used. The loops of the log scan, of the reference model and of \<^verbatim>\<open>Simulator::next\<close> are total
  functions with measures (bytes left, entries left, events queued). \<^verbatim>\<open>Pcg32::bounded\<close> loops without a bound; it
  is a partial function and proved to return because the generator has full period. The read and write loops of
  \<^verbatim>\<open>NativeFile\<close> retry interrupted calls for ever; they are partial functions and proved to return when the calls
  are not interrupted without end, which the contract states with a measure on the outside world. A \<^verbatim>\<open>size_t\<close> is a natural
  number with the overflow guards of the source. \<^verbatim>\<open>std::push_heap\<close> and its relatives are the usual binary heap
  on a vector; the results depend only on the order of the keys, which are distinct.

  \<^bold>\<open>Not modelled\<close>

  \<^item> The Windows branches of \<^verbatim>\<open>NativeFile\<close>, the closing of its descriptor, and the mutex of \<^verbatim>\<open>Wal\<close>: its calls are
    taken one at a time.
  \<^item> \<^verbatim>\<open>src/cluster.cpp\<close>, the harness that connects nodes, codec, log and simulator and re-checks invariants
    during a run. It is deterministic and could be modelled on these theories; a proof about it would have to carry
    the invariants of node and simulator through their composition, which is not done here.
  \<^item> \<^verbatim>\<open>src/node_host.cpp\<close>: worker threads, condition variables and clock deadlines around a node.
  \<^item> \<^verbatim>\<open>src/tcp_transport.cpp\<close>: non-blocking sockets, an I/O thread and reconnection by clock.
  \<^item> \<^verbatim>\<open>apps/\<close>, \<^verbatim>\<open>bench/\<close>, \<^verbatim>\<open>fuzz/\<close>, \<^verbatim>\<open>tests/\<close>, \<^verbatim>\<open>scripts/\<close>: programs that parse
    options, drive the library and print.
  \<^item> Memory exhaustion, and the execution time of any operation.
\<close>

end
